theory Spec2Isabelle
  imports Main "HOL-Library.Word" "HOL-Library.Monad_Syntax"
begin

unbundle bit_operations_syntax

section \<open>HashChain: a shallow embedding of the C sources\<close>

text \<open>
  The repository holds one search algorithm in several files that differ in their
  \<^verbatim>\<open>#define\<close>d tuning constants and in the verification step of the scanner.
  The embedding follows that structure: the constants of a file are a record
  \<open>hc_params\<close>, the code shared by the files is a function of that record, and every
  file is an instance.

  Conventions.
  \<^item> A C \<^verbatim>\<open>int\<close> (lengths, positions, counters) is an \<open>int\<close>, which has no upper
    bound. The sources add at most \<open>m\<close> to a position below \<open>n\<close> (below \<open>n + m\<close> in
    \<^verbatim>\<open>thc2-1.c\<close>, which scans the copy of the pattern behind the text), so no \<^verbatim>\<open>int\<close>
    of the code overflows while \<open>n + m < 2^31\<close> (\<open>n + 2m < 2^31\<close> in \<^verbatim>\<open>thc2-1.c\<close>). Beyond
    that bound the model and the code differ, so the theorems that a search returns, and
    that every pass of its loop advances, have the bound as a hypothesis.
  \<^item> An \<^verbatim>\<open>unsigned int\<close> is a \<open>32 word\<close>: \<open>+\<close> and \<open>push_bit\<close> wrap as in C.
  \<^item> A buffer is the list of its bytes. A read outside the buffer is undefined
    behaviour in C; here it is the value \<open>None\<close>, and \<open>None\<close> propagates to the caller.
  \<^item> Loops whose termination depends on the constants are \<open>partial_function (option)\<close>;
    a loop that does not return is \<open>None\<close> as well, so \<open>f x = Some r\<close> says that the
    code returns \<open>r\<close> without reading out of range.
\<close>

type_synonym byte = "8 word"
type_synonym u32 = "32 word"

text \<open>\<^verbatim>\<open>x[p]\<close> for an \<^verbatim>\<open>unsigned char *x\<close>, promoted to a non-negative integer.\<close>

definition rd :: "byte list \<Rightarrow> int \<Rightarrow> u32 option" where
  "rd x p = (if 0 \<le> p \<and> p < int (length x) then Some (ucast (x ! nat p)) else None)"

text \<open>
  The macro \<^verbatim>\<open>HASH(x, p, s)\<close>, written out in each file for its own \<open>Q\<close>:
  \<^verbatim>\<open>((((x[p] << s) + x[p - 1]) << s) + x[p - 2])\<close> for \<open>Q = 3\<close>, one more shift and byte
  for each further unit of \<open>Q\<close>. \<open>HASH k\<close> is the macro for \<open>Q = k\<close>. The intermediate
  values stay below \<open>2^32\<close> for the shifts of every file, so the C \<^verbatim>\<open>int\<close> arithmetic
  of the macro and the word arithmetic here agree.
\<close>

fun HASH :: "nat \<Rightarrow> byte list \<Rightarrow> int \<Rightarrow> nat \<Rightarrow> u32 option" where
  "HASH 0 x p s = Some 0"
| "HASH (Suc k) x p s =
     do { h \<leftarrow> HASH k x p s; b \<leftarrow> rd x (p - int k); Some (push_bit s h + b) }"

text \<open>\<^verbatim>\<open>#define LINK_HASH(H) (1U << ((H) & 0x1F))\<close> (named \<^verbatim>\<open>FINGERPRINT\<close> in some files).\<close>

definition LINK_HASH :: "u32 \<Rightarrow> u32" where
  "LINK_HASH H = push_bit (unat (H AND 0x1F)) 1"

text \<open>
  The tuning constants of a file. \<open>ALPHA\<close> is \<open>log2(ASIZE)\<close>. A file without a rolling
  hash has one hash macro \<^verbatim>\<open>CHAIN_HASH\<close> with shift \<open>S\<close>: there \<open>S1 = S3 = S\<close> and
  \<open>rolling\<close> is false.
\<close>

record hc_params =
  Q :: nat
  S1 :: nat
  S2 :: nat
  S3 :: nat
  ALPHA :: nat
  rolling :: bool

definition ASIZE :: "hc_params \<Rightarrow> nat" where
  "ASIZE c = 2 ^ ALPHA c"

definition TABLE_MASK :: "hc_params \<Rightarrow> u32" where
  "TABLE_MASK c = 2 ^ ALPHA c - 1"

definition Q2 :: "hc_params \<Rightarrow> int" where
  "Q2 c = int (Q c) + int (Q c)"

definition END_FIRST_QGRAM :: "hc_params \<Rightarrow> int" where
  "END_FIRST_QGRAM c = int (Q c) - 1"

definition END_SECOND_QGRAM :: "hc_params \<Rightarrow> int" where
  "END_SECOND_QGRAM c = Q2 c - 1"

text \<open>
  \<^verbatim>\<open>#define CHAIN_LENGTH ((CEIL_DIV(log2(ASIZE), (S2)) + 1) * (Q))\<close>: \<open>log2(ASIZE)\<close> is
  the integer \<open>ALPHA\<close>, so the ceiling of the quotient is an integer ceiling division.
\<close>

definition CHAIN_LENGTH :: "hc_params \<Rightarrow> int" where
  "CHAIN_LENGTH c = (int ((ALPHA c + S2 c - 1) div S2 c) + 1) * int (Q c)"

definition ANCHOR_HASH :: "hc_params \<Rightarrow> byte list \<Rightarrow> int \<Rightarrow> u32 option" where
  "ANCHOR_HASH c x p = HASH (Q c) x p (S1 c)"

definition CHAIN_HASH :: "hc_params \<Rightarrow> byte list \<Rightarrow> int \<Rightarrow> u32 option" where
  "CHAIN_HASH c x p = HASH (Q c) x p (S3 c)"

text \<open>
  The update of \<open>H\<close> in a chain step: \<^verbatim>\<open>H = (H << S2) + CHAIN_HASH(x, pos)\<close> in the
  rolling files, \<^verbatim>\<open>H = CHAIN_HASH(x, pos)\<close> in the others.
\<close>

definition ROLL :: "hc_params \<Rightarrow> u32 \<Rightarrow> u32 \<Rightarrow> u32" where
  "ROLL c H h = (if rolling c then push_bit (S2 c) H + h else h)"

text \<open>The index \<^verbatim>\<open>H & TABLE_MASK\<close> of a table word.\<close>

definition slot :: "hc_params \<Rightarrow> u32 \<Rightarrow> nat" where
  "slot c H = unat (H AND TABLE_MASK c)"

subsection \<open>Preprocessing\<close>

text \<open>
  The inner loop of chain construction, from \<open>chain_pos\<close> down to \<open>stop\<close> in steps of
  \<open>Q\<close>:
  \<^verbatim>\<open>unsigned int H_last = H; H = ...; B[H_last & TABLE_MASK] |= LINK_HASH(H);\<close>
\<close>

partial_function (option) chain ::
  "hc_params \<Rightarrow> byte list \<Rightarrow> int \<Rightarrow> int \<Rightarrow> u32 list \<Rightarrow> u32 \<Rightarrow> (u32 list \<times> u32) option"
where
  "chain c x stop chain_pos B H =
     (if chain_pos \<ge> stop then
        do { h \<leftarrow> CHAIN_HASH c x chain_pos;
             chain c x stop (chain_pos - int (Q c))
               (B[slot c H := B ! slot c H OR LINK_HASH (ROLL c H h)]) (ROLL c H h) }
      else Some (B, H))"

text \<open>
  Step 1 of the files without a rolling hash: \<^verbatim>\<open>for (chain_no = start; chain_no >= 1;
  chain_no--)\<close>, where \<open>start\<close> is \<open>Q\<close> in \<^verbatim>\<open>hc4-qverify.c\<close>, \<^verbatim>\<open>shc2-1.c\<close>,
  \<^verbatim>\<open>shc6.c\<close>, \<^verbatim>\<open>fhc1.c\<close> and \<^verbatim>\<open>m < Q2 ? m - END_FIRST_QGRAM : Q\<close> in
  \<^verbatim>\<open>lhc4.c\<close>, \<^verbatim>\<open>whc3.c\<close>, \<^verbatim>\<open>lhc3-kmp.c\<close>.
\<close>

function chains ::
  "hc_params \<Rightarrow> byte list \<Rightarrow> int \<Rightarrow> int \<Rightarrow> u32 list \<Rightarrow> u32 \<Rightarrow> (u32 list \<times> u32) option"
where
  "chains c x m chain_no B H =
     (if chain_no \<ge> 1 then
        do { h \<leftarrow> CHAIN_HASH c x (m - chain_no);
             r \<leftarrow> chain c x (END_FIRST_QGRAM c) (m - chain_no - int (Q c)) B h;
             chains c x m (chain_no - 1) (fst r) (snd r) }
      else Some (B, H))"
  by pat_completeness auto
termination
  by (relation "measure (\<lambda>(c, x, m, chain_no, B, H). nat chain_no)") auto

text \<open>
  The fill of the leading q-grams:
  \<^verbatim>\<open>for (p = END_FIRST_QGRAM; p < stop; p++) { F = HASH(x, p); if (!B[F & TABLE_MASK])
  B[F & TABLE_MASK] = LINK_HASH(~F); }\<close>.
  The hash is \<^verbatim>\<open>ANCHOR_HASH\<close> in the rolling files and \<^verbatim>\<open>CHAIN_HASH\<close>, the only
  hash, in the others.
\<close>

function fill :: "hc_params \<Rightarrow> byte list \<Rightarrow> int \<Rightarrow> int \<Rightarrow> u32 list \<Rightarrow> u32 list option" where
  "fill c x stop p B =
     (if p < stop then
        do { F \<leftarrow> ANCHOR_HASH c x p;
             fill c x stop (p + 1)
               (if B ! slot c F = 0 then B[slot c F := LINK_HASH (NOT F)] else B) }
      else Some B)"
  by pat_completeness auto
termination
  by (relation "measure (\<lambda>(c, x, stop, p, B). nat (stop - p))") auto

text \<open>
  \<^verbatim>\<open>preprocessing\<close> of the files without a rolling hash. \<open>B\<close> is zeroed first, so the
  caller's array does not matter. \<open>H\<close> is declared without a value; the first pass of the
  loop assigns it whenever \<open>start \<ge> 1\<close>.
\<close>

definition plain_preprocessing ::
  "hc_params \<Rightarrow> int \<Rightarrow> byte list \<Rightarrow> int \<Rightarrow> (u32 list \<times> u32) option" where
  "plain_preprocessing c start x m =
     do { r \<leftarrow> chains c x m start (replicate (ASIZE c) 0) 0;
          B \<leftarrow> fill c x (min m (END_SECOND_QGRAM c)) (END_FIRST_QGRAM c) (fst r);
          Some (B, snd r) }"

text \<open>Step 1 of \<^verbatim>\<open>hc3.c\<close> and \<^verbatim>\<open>thc2-1.c\<close>: one bounded chain for each anchor.\<close>

function anchors ::
  "hc_params \<Rightarrow> byte list \<Rightarrow> int \<Rightarrow> int \<Rightarrow> u32 list \<Rightarrow> u32 list option" where
  "anchors c x m anchor_pos B =
     (if anchor_pos < m then
        do { H \<leftarrow> ANCHOR_HASH c x anchor_pos;
             r \<leftarrow> chain c x
                    (max (END_FIRST_QGRAM c) (anchor_pos - int (Q c) - CHAIN_LENGTH c))
                    (anchor_pos - int (Q c)) B H;
             anchors c x m (anchor_pos + 1) (fst r) }
      else Some B)"
  by pat_completeness auto
termination
  by (relation "measure (\<lambda>(c, x, m, anchor_pos, B). nat (m - anchor_pos))") auto

text \<open>Step 3 of the same files: the hash of the whole pattern, no table write.\<close>

partial_function (option) total_hash ::
  "hc_params \<Rightarrow> byte list \<Rightarrow> int \<Rightarrow> u32 \<Rightarrow> u32 option" where
  "total_hash c x chain_pos H =
     (if chain_pos \<ge> END_FIRST_QGRAM c then
        do { h \<leftarrow> CHAIN_HASH c x chain_pos;
             total_hash c x (chain_pos - int (Q c)) (ROLL c H h) }
      else Some H)"

definition rolling_preprocessing ::
  "hc_params \<Rightarrow> byte list \<Rightarrow> int \<Rightarrow> (u32 list \<times> u32) option" where
  "rolling_preprocessing c x m =
     do { B1 \<leftarrow> anchors c x m (END_SECOND_QGRAM c) (replicate (ASIZE c) 0);
          B \<leftarrow> fill c x (min m (END_SECOND_QGRAM c)) (END_FIRST_QGRAM c) B1;
          H \<leftarrow> ANCHOR_HASH c x (m - 1);
          Hm \<leftarrow> total_hash c x (m - 1 - int (Q c)) H;
          Some (B, Hm) }"

subsection \<open>The scanner\<close>

text \<open>
  The state of the main loop. \<open>pos\<close> and \<open>count\<close> are in every file;
  \<open>rightmost_match_pos\<close> is in \<^verbatim>\<open>whc3.c\<close> and \<^verbatim>\<open>lhc4.c\<close>, \<open>next_verify_pos\<close> and
  \<open>pattern_pos\<close> in \<^verbatim>\<open>lhc4.c\<close> and \<^verbatim>\<open>lhc3-kmp.c\<close>; a file leaves the fields it
  does not have at their initial 0.
\<close>

record scanner =
  pos :: int
  count :: int
  rightmost_match_pos :: int
  next_verify_pos :: int
  pattern_pos :: int

definition scanner_init :: "int \<Rightarrow> scanner" where
  "scanner_init m =
     \<lparr>pos = m - 1, count = 0, rightmost_match_pos = 0, next_verify_pos = 0, pattern_pos = 0\<rparr>"

text \<open>
  The backward chain walk
  \<^verbatim>\<open>while (pos >= limit) { pos -= Q; H = ...; if (!(V & LINK_HASH(H))) goto shift;
  V = B[H & TABLE_MASK]; }\<close>.
  \<open>Shift p\<close> is the jump to the label \<^verbatim>\<open>shift\<close> with \<open>pos = p\<close>; \<open>Verify p H\<close> is
  the normal exit of the loop with \<open>pos = p\<close> and the last hash \<open>H\<close>.
\<close>

datatype chain_walk = Shift int | Verify int u32

partial_function (option) walk ::
  "hc_params \<Rightarrow> u32 list \<Rightarrow> byte list \<Rightarrow> int \<Rightarrow> int \<Rightarrow> u32 \<Rightarrow> u32 \<Rightarrow> chain_walk option"
where
  "walk c B y limit p H V =
     (if p \<ge> limit then
        do { h \<leftarrow> CHAIN_HASH c y (p - int (Q c));
             if V AND LINK_HASH (ROLL c H h) = 0 then Some (Shift (p - int (Q c)))
             else walk c B y limit (p - int (Q c)) (ROLL c H h) (B ! slot c (ROLL c H h)) }
      else Some (Verify p H))"

text \<open>
  \<^verbatim>\<open>memcmp(y + start, x, m) == 0\<close>. \<^verbatim>\<open>memcmp\<close> may read all \<open>m\<close> bytes of both
  arguments, so both ranges must lie inside their buffers.
\<close>

definition memcmp_eq :: "byte list \<Rightarrow> int \<Rightarrow> byte list \<Rightarrow> int \<Rightarrow> bool option" where
  "memcmp_eq y start x m =
     (if 0 \<le> start \<and> 0 \<le> m \<and> start + m \<le> int (length y) \<and> m \<le> int (length x)
      then Some (take (nat m) (drop (nat start) y) = take (nat m) x) else None)"

definition MQ1 :: "hc_params \<Rightarrow> int \<Rightarrow> int" where
  "MQ1 c m = m - int (Q c) + 1"

subsubsection \<open>\<^verbatim>\<open>hc3.c\<close>: the scanner with one verification for each walk\<close>

text \<open>One pass of the body of \<^verbatim>\<open>while (pos < n)\<close> in \<^verbatim>\<open>search\<close> of \<^verbatim>\<open>hc3.c\<close>.\<close>

definition base_iteration ::
  "hc_params \<Rightarrow> u32 list \<Rightarrow> u32 \<Rightarrow> byte list \<Rightarrow> int \<Rightarrow> byte list \<Rightarrow> scanner \<Rightarrow> scanner option"
where
  "base_iteration c B Hm x m y s =
     do { H \<leftarrow> ANCHOR_HASH c y (pos s);
          if B ! slot c H \<noteq> 0 then
            do { w \<leftarrow> walk c B y (pos s - m + Q2 c) (pos s) H (B ! slot c H);
                 case w of
                   Shift p \<Rightarrow> Some (s\<lparr>pos := p + MQ1 c m\<rparr>)
                 | Verify p H' \<Rightarrow>
                     do { hit \<leftarrow> (if H' = Hm
                                  then memcmp_eq y
                                         (pos s - m + Q2 c - int (Q c) - END_FIRST_QGRAM c) x m
                                  else Some False);
                          Some (s\<lparr>pos := pos s - m + Q2 c - int (Q c) + MQ1 c m,
                                  count := (if hit then count s + 1 else count s)\<rparr>) } }
          else Some (s\<lparr>pos := pos s + MQ1 c m\<rparr>) }"

partial_function (option) base_loop ::
  "hc_params \<Rightarrow> u32 list \<Rightarrow> u32 \<Rightarrow> byte list \<Rightarrow> int \<Rightarrow> byte list \<Rightarrow> int \<Rightarrow> scanner \<Rightarrow> int option"
where
  "base_loop c B Hm x m y n s =
     (if pos s < n then
        do { s' \<leftarrow> base_iteration c B Hm x m y s; base_loop c B Hm x m y n s' }
      else Some (count s))"

definition rolling_search ::
  "hc_params \<Rightarrow> byte list \<Rightarrow> int \<Rightarrow> byte list \<Rightarrow> int \<Rightarrow> int option" where
  "rolling_search c x m y n =
     (if m < int (Q c) then Some (- 1)
      else do { r \<leftarrow> rolling_preprocessing c x m;
                base_loop c (fst r) (snd r) x m y n (scanner_init m) })"

text \<open>The constants of \<^verbatim>\<open>hc3.c\<close>: \<open>ASIZE = 2048\<close>, \<open>S1 = 3\<close>, \<open>S2 = 4\<close>, \<open>S3 = 1\<close>, \<open>Q = 3\<close>.\<close>

definition hc3 :: hc_params where
  "hc3 = \<lparr>Q = 3, S1 = 3, S2 = 4, S3 = 1, ALPHA = 11, rolling = True\<rparr>"

definition hc3_preprocessing :: "byte list \<Rightarrow> int \<Rightarrow> (u32 list \<times> u32) option" where
  "hc3_preprocessing x m = rolling_preprocessing hc3 x m"

definition hc3_search :: "byte list \<Rightarrow> int \<Rightarrow> byte list \<Rightarrow> int \<Rightarrow> int option" where
  "hc3_search x m y n = rolling_search hc3 x m y n"

subsubsection \<open>\<^verbatim>\<open>hc4-qverify.c\<close>: verification of \<open>Q\<close> alignments\<close>

text \<open>
  \<^verbatim>\<open>for (pattern_start = ...; pattern_start <= last; pattern_start++)
  if (pattern_start <= n - m && memcmp(y + pattern_start, x, m) == 0) count++;\<close>
\<close>

function verify_alignments ::
  "byte list \<Rightarrow> int \<Rightarrow> byte list \<Rightarrow> int \<Rightarrow> int \<Rightarrow> int \<Rightarrow> int \<Rightarrow> int option" where
  "verify_alignments x m y n last_start pattern_start cnt =
     (if pattern_start \<le> last_start then
        do { hit \<leftarrow> (if pattern_start \<le> n - m then memcmp_eq y pattern_start x m
                     else Some False);
             verify_alignments x m y n last_start (pattern_start + 1)
               (if hit then cnt + 1 else cnt) }
      else Some cnt)"
  by pat_completeness auto
termination
  by (relation "measure (\<lambda>(x, m, y, n, last_start, pattern_start, cnt). nat (last_start + 1 - pattern_start))")
    auto

definition qverify_iteration ::
  "hc_params \<Rightarrow> u32 list \<Rightarrow> byte list \<Rightarrow> int \<Rightarrow> byte list \<Rightarrow> int \<Rightarrow> scanner \<Rightarrow> scanner option"
where
  "qverify_iteration c B x m y n s =
     do { H \<leftarrow> CHAIN_HASH c y (pos s);
          if B ! slot c H \<noteq> 0 then
            do { w \<leftarrow> walk c B y (pos s - m + Q2 c) (pos s) H (B ! slot c H);
                 case w of
                   Shift p \<Rightarrow> Some (s\<lparr>pos := p + MQ1 c m\<rparr>)
                 | Verify p H' \<Rightarrow>
                     do { cnt \<leftarrow> verify_alignments x m y n (pos s - m + Q2 c - int (Q c))
                                   (pos s - m + Q2 c - int (Q c) - END_FIRST_QGRAM c) (count s);
                          Some (s\<lparr>pos := pos s - m + Q2 c - 1 + MQ1 c m, count := cnt\<rparr>) } }
          else Some (s\<lparr>pos := pos s + MQ1 c m\<rparr>) }"

partial_function (option) qverify_loop ::
  "hc_params \<Rightarrow> u32 list \<Rightarrow> byte list \<Rightarrow> int \<Rightarrow> byte list \<Rightarrow> int \<Rightarrow> scanner \<Rightarrow> int option"
where
  "qverify_loop c B x m y n s =
     (if pos s < n then
        do { s' \<leftarrow> qverify_iteration c B x m y n s; qverify_loop c B x m y n s' }
      else Some (count s))"

text \<open>The constants of \<^verbatim>\<open>hc4-qverify.c\<close>: \<open>ALPHA = 12\<close>, \<open>Q = 4\<close>, \<open>S = ALPHA / Q = 3\<close>.\<close>

definition hc4qv :: hc_params where
  "hc4qv = \<lparr>Q = 4, S1 = 3, S2 = 0, S3 = 3, ALPHA = 12, rolling = False\<rparr>"

definition hc4qv_preprocessing :: "byte list \<Rightarrow> int \<Rightarrow> (u32 list \<times> u32) option" where
  "hc4qv_preprocessing x m = plain_preprocessing hc4qv (int (Q hc4qv)) x m"

definition hc4qv_search :: "byte list \<Rightarrow> int \<Rightarrow> byte list \<Rightarrow> int \<Rightarrow> int option" where
  "hc4qv_search x m y n =
     (if m < int (Q hc4qv) then Some (- 1)
      else do { r \<leftarrow> hc4qv_preprocessing x m;
                qverify_loop hc4qv (fst r) x m y n (scanner_init m) })"

text \<open>
  \<^verbatim>\<open>preprocessing\<close> of \<^verbatim>\<open>experiments/shc2-1.c\<close> is the text of \<^verbatim>\<open>hc4-qverify.c\<close>
  with \<open>ASIZE = 2048\<close>, \<open>S3 = 3\<close>, \<open>Q = 2\<close>.
\<close>

definition shc2 :: hc_params where
  "shc2 = \<lparr>Q = 2, S1 = 3, S2 = 0, S3 = 3, ALPHA = 11, rolling = False\<rparr>"

definition shc2_preprocessing :: "byte list \<Rightarrow> int \<Rightarrow> (u32 list \<times> u32) option" where
  "shc2_preprocessing x m = plain_preprocessing shc2 (int (Q shc2)) x m"

subsubsection \<open>\<^verbatim>\<open>hc4-qverify.c\<close> on a pattern that lies inside a longer array\<close>




subsubsection \<open>\<^verbatim>\<open>whc3.c\<close>: the rightmost-match guard\<close>

text \<open>
  The files with a guard bound the number of chains:
  \<^verbatim>\<open>int start = m < Q2 ? m - END_FIRST_QGRAM : Q;\<close>
\<close>

definition guarded_preprocessing ::
  "hc_params \<Rightarrow> byte list \<Rightarrow> int \<Rightarrow> (u32 list \<times> u32) option" where
  "guarded_preprocessing c x m =
     plain_preprocessing c (if m < Q2 c then m - END_FIRST_QGRAM c else int (Q c)) x m"

definition weaker_iteration ::
  "hc_params \<Rightarrow> u32 list \<Rightarrow> byte list \<Rightarrow> int \<Rightarrow> byte list \<Rightarrow> scanner \<Rightarrow> scanner option"
where
  "weaker_iteration c B x m y s =
     do { H \<leftarrow> CHAIN_HASH c y (pos s);
          if B ! slot c H \<noteq> 0 then
            do { w \<leftarrow> walk c B y
                       (max (pos s - m + int (Q c)) (rightmost_match_pos s) + int (Q c))
                       (pos s) H (B ! slot c H);
                 case w of
                   Shift p \<Rightarrow> Some (s\<lparr>pos := p + MQ1 c m, rightmost_match_pos := pos s\<rparr>)
                 | Verify p H' \<Rightarrow>
                     do { hit \<leftarrow> memcmp_eq y (pos s - m + int (Q c) - END_FIRST_QGRAM c) x m;
                          Some (s\<lparr>pos := pos s - m + int (Q c) + MQ1 c m,
                                  count := (if hit then count s + 1 else count s),
                                  rightmost_match_pos := pos s\<rparr>) } }
          else Some (s\<lparr>pos := pos s + MQ1 c m\<rparr>) }"

partial_function (option) weaker_loop ::
  "hc_params \<Rightarrow> u32 list \<Rightarrow> byte list \<Rightarrow> int \<Rightarrow> byte list \<Rightarrow> int \<Rightarrow> scanner \<Rightarrow> int option"
where
  "weaker_loop c B x m y n s =
     (if pos s < n then
        do { s' \<leftarrow> weaker_iteration c B x m y s; weaker_loop c B x m y n s' }
      else Some (count s))"

text \<open>The constants of \<^verbatim>\<open>whc3.c\<close>: \<open>ALPHA = 11\<close>, \<open>Q = 3\<close>, \<open>S = ALPHA / Q = 3\<close>.\<close>

definition whc3 :: hc_params where
  "whc3 = \<lparr>Q = 3, S1 = 3, S2 = 0, S3 = 3, ALPHA = 11, rolling = False\<rparr>"

definition whc3_search :: "byte list \<Rightarrow> int \<Rightarrow> byte list \<Rightarrow> int \<Rightarrow> int option" where
  "whc3_search x m y n =
     (if m < int (Q whc3) then Some (- 1)
      else do { r \<leftarrow> guarded_preprocessing whc3 x m;
                weaker_loop whc3 (fst r) x m y n (scanner_init m) })"

subsubsection \<open>\<^verbatim>\<open>lhc4.c\<close> and \<^verbatim>\<open>lhc3-kmp.c\<close>: verification with a failure table\<close>

text \<open>
  \<^verbatim>\<open>int KMP[m + 1]\<close> is declared without values. A cell is \<open>None\<close> until it is
  written; reading such a cell, or outside the array, is \<open>None\<close>.
\<close>

definition rdk :: "int option list \<Rightarrow> int \<Rightarrow> int option" where
  "rdk KMP i = (if 0 \<le> i \<and> i < int (length KMP) then KMP ! nat i else None)"

definition wrk :: "int option list \<Rightarrow> int \<Rightarrow> int \<Rightarrow> int option list option" where
  "wrk KMP i v = (if 0 \<le> i \<and> i < int (length KMP) then Some (KMP[nat i := Some v]) else None)"

text \<open>\<^verbatim>\<open>while (t > -1 && x[j] != x[t]) t = KMP[t];\<close>\<close>

partial_function (option) kmp_fallback ::
  "byte list \<Rightarrow> int option list \<Rightarrow> int \<Rightarrow> int \<Rightarrow> int option" where
  "kmp_fallback x KMP j t =
     (if t > - 1 then
        do { a \<leftarrow> rd x j; b \<leftarrow> rd x t;
             if a \<noteq> b then do { t' \<leftarrow> rdk KMP t; kmp_fallback x KMP j t' } else Some t }
      else Some t)"

text \<open>
  The loop \<^verbatim>\<open>while (j < m)\<close> of \<^verbatim>\<open>pre_kmp\<close> in \<^verbatim>\<open>lhc4.c\<close>:
  \<^verbatim>\<open>j++; t++; if (j < m && x[j] == x[t]) KMP[j] = KMP[t]; else KMP[j] = t;\<close>
\<close>

function pre_kmp_loop ::
  "byte list \<Rightarrow> int \<Rightarrow> int option list \<Rightarrow> int \<Rightarrow> int \<Rightarrow> int option list option" where
  "pre_kmp_loop x m KMP j t =
     (if j < m then
        do { t1 \<leftarrow> kmp_fallback x KMP j t;
             same \<leftarrow> (if j + 1 < m
                       then do { a \<leftarrow> rd x (j + 1); b \<leftarrow> rd x (t1 + 1); Some (a = b) }
                       else Some False);
             KMP' \<leftarrow> (if same then do { v \<leftarrow> rdk KMP (t1 + 1); wrk KMP (j + 1) v }
                       else wrk KMP (j + 1) (t1 + 1));
             pre_kmp_loop x m KMP' (j + 1) (t1 + 1) }
      else Some KMP)"
  by pat_completeness auto
termination
  by (relation "measure (\<lambda>(x, m, KMP, j, t). nat (m - j))") auto

definition pre_kmp :: "byte list \<Rightarrow> int \<Rightarrow> int option list \<Rightarrow> int option list option" where
  "pre_kmp x m KMP = do { KMP0 \<leftarrow> wrk KMP 0 (- 1); pre_kmp_loop x m KMP0 0 (- 1) }"

text \<open>
  \<^verbatim>\<open>preKmp\<close>, the table builder that \<^verbatim>\<open>search\<close> of \<^verbatim>\<open>lhc3-kmp.c\<close> calls, is the
  text of \<^verbatim>\<open>pre_kmp\<close> of \<^verbatim>\<open>lhc4.c\<close> with \<open>i, j, kmpNext\<close> for \<open>j, t, KMP\<close>.
\<close>

definition preKmp :: "byte list \<Rightarrow> int \<Rightarrow> int option list \<Rightarrow> int option list option" where
  "preKmp x m kmpNext = pre_kmp x m kmpNext"

text \<open>
  \<^verbatim>\<open>while (pattern_pos < m && x[pattern_pos] == y[next_verify_pos])
  { pattern_pos++; next_verify_pos++; }\<close>
\<close>

function match_run ::
  "byte list \<Rightarrow> int \<Rightarrow> byte list \<Rightarrow> int \<Rightarrow> int \<Rightarrow> (int \<times> int) option" where
  "match_run x m y pp nv =
     (if pp < m then
        do { a \<leftarrow> rd x pp; b \<leftarrow> rd y nv;
             if a = b then match_run x m y (pp + 1) (nv + 1) else Some (pp, nv) }
      else Some (pp, nv))"
  by pat_completeness auto
termination
  by (relation "measure (\<lambda>(x, m, y, pp, nv). nat (m - pp))") auto

text \<open>
  The verification loop
  \<^verbatim>\<open>while (pattern_pos >= next_verify_pos - window_start_pos) { ...;
  if (pattern_pos == m) count++; pattern_pos = KMP[pattern_pos];
  if (pattern_pos < 0) { pattern_pos++; next_verify_pos++; } }\<close>
\<close>

partial_function (option) kmp_verify ::
  "byte list \<Rightarrow> int \<Rightarrow> byte list \<Rightarrow> int option list \<Rightarrow> int \<Rightarrow> scanner \<Rightarrow> scanner option"
where
  "kmp_verify x m y KMP window_start_pos s =
     (if pattern_pos s \<ge> next_verify_pos s - window_start_pos then
        do { r \<leftarrow> match_run x m y (pattern_pos s) (next_verify_pos s);
             k \<leftarrow> rdk KMP (fst r);
             kmp_verify x m y KMP window_start_pos
               (s\<lparr>count := (if fst r = m then count s + 1 else count s),
                  pattern_pos := (if k < 0 then k + 1 else k),
                  next_verify_pos := (if k < 0 then snd r + 1 else snd r)\<rparr>) }
      else Some s)"

text \<open>The step \<^verbatim>\<open>if (window_start_pos > next_verify_pos) { ... }\<close> before the loop.\<close>

definition restart_kmp :: "int \<Rightarrow> scanner \<Rightarrow> scanner" where
  "restart_kmp window_start_pos s =
     (if window_start_pos > next_verify_pos s
      then s\<lparr>next_verify_pos := window_start_pos, pattern_pos := 0\<rparr> else s)"

text \<open>One pass of the body of \<^verbatim>\<open>while (pos < n)\<close> in \<^verbatim>\<open>search\<close> of \<^verbatim>\<open>lhc4.c\<close>.\<close>

definition lhc4_iteration ::
  "hc_params \<Rightarrow> u32 list \<Rightarrow> int option list \<Rightarrow> byte list \<Rightarrow> int \<Rightarrow> byte list \<Rightarrow> scanner
     \<Rightarrow> scanner option"
where
  "lhc4_iteration c B KMP x m y s =
     do { H \<leftarrow> CHAIN_HASH c y (pos s);
          if B ! slot c H \<noteq> 0 then
            do { w \<leftarrow> walk c B y
                       (max (pos s - m + int (Q c)) (rightmost_match_pos s) + int (Q c))
                       (pos s) H (B ! slot c H);
                 case w of
                   Shift p \<Rightarrow> Some (s\<lparr>pos := p + MQ1 c m, rightmost_match_pos := pos s\<rparr>)
                 | Verify p H' \<Rightarrow>
                     do { s' \<leftarrow> kmp_verify x m y KMP (pos s - m + int (Q c) - int (Q c) + 1)
                                  (restart_kmp (pos s - m + int (Q c) - int (Q c) + 1)
                                     (s\<lparr>rightmost_match_pos := pos s\<rparr>));
                          Some (s'\<lparr>pos := next_verify_pos s' + m - 1 - pattern_pos s'\<rparr>) } }
          else Some (s\<lparr>pos := pos s + MQ1 c m\<rparr>) }"

partial_function (option) lhc4_loop ::
  "hc_params \<Rightarrow> u32 list \<Rightarrow> int option list \<Rightarrow> byte list \<Rightarrow> int \<Rightarrow> byte list \<Rightarrow> int
     \<Rightarrow> scanner \<Rightarrow> int option"
where
  "lhc4_loop c B KMP x m y n s =
     (if pos s < n then
        do { s' \<leftarrow> lhc4_iteration c B KMP x m y s; lhc4_loop c B KMP x m y n s' }
      else Some (count s))"

text \<open>The constants of \<^verbatim>\<open>lhc4.c\<close>: \<open>ALPHA = 12\<close>, \<open>Q = 4\<close>, \<open>S = ALPHA / Q = 3\<close>.\<close>

definition lhc4 :: hc_params where
  "lhc4 = \<lparr>Q = 4, S1 = 3, S2 = 0, S3 = 3, ALPHA = 12, rolling = False\<rparr>"

definition lhc4_preprocessing :: "byte list \<Rightarrow> int \<Rightarrow> (u32 list \<times> u32) option" where
  "lhc4_preprocessing x m = guarded_preprocessing lhc4 x m"

definition lhc4_search :: "byte list \<Rightarrow> int \<Rightarrow> byte list \<Rightarrow> int \<Rightarrow> int option" where
  "lhc4_search x m y n =
     (if m < int (Q lhc4) then Some (- 1)
      else do { r \<leftarrow> lhc4_preprocessing x m;
                KMP \<leftarrow> pre_kmp x m (replicate (nat (m + 1)) None);
                lhc4_loop lhc4 (fst r) KMP x m y n (scanner_init m) })"

text \<open>
  The body of \<^verbatim>\<open>while (pos < n)\<close> in \<^verbatim>\<open>search\<close> of \<^verbatim>\<open>lhc3-kmp.c\<close>: the walk stops
  at \<^verbatim>\<open>MAX(end_second_qgram_pos, next_verify_pos - 1 + Q)\<close>, and the window starts at
  \<^verbatim>\<open>end_second_qgram_pos - Q2 + 1\<close>.
\<close>

definition lhc3_iteration ::
  "hc_params \<Rightarrow> u32 list \<Rightarrow> int option list \<Rightarrow> byte list \<Rightarrow> int \<Rightarrow> byte list \<Rightarrow> scanner
     \<Rightarrow> scanner option"
where
  "lhc3_iteration c B KMP x m y s =
     do { H \<leftarrow> CHAIN_HASH c y (pos s);
          if B ! slot c H \<noteq> 0 then
            do { w \<leftarrow> walk c B y
                       (max (pos s - m + Q2 c) (next_verify_pos s - 1 + int (Q c)))
                       (pos s) H (B ! slot c H);
                 case w of
                   Shift p \<Rightarrow> Some (s\<lparr>pos := p + MQ1 c m\<rparr>)
                 | Verify p H' \<Rightarrow>
                     do { s' \<leftarrow> kmp_verify x m y KMP (pos s - m + Q2 c - Q2 c + 1)
                                  (restart_kmp (pos s - m + Q2 c - Q2 c + 1) s);
                          Some (s'\<lparr>pos := next_verify_pos s' + m - 1 - pattern_pos s'\<rparr>) } }
          else Some (s\<lparr>pos := pos s + MQ1 c m\<rparr>) }"

partial_function (option) lhc3_loop ::
  "hc_params \<Rightarrow> u32 list \<Rightarrow> int option list \<Rightarrow> byte list \<Rightarrow> int \<Rightarrow> byte list \<Rightarrow> int
     \<Rightarrow> scanner \<Rightarrow> int option"
where
  "lhc3_loop c B KMP x m y n s =
     (if pos s < n then
        do { s' \<leftarrow> lhc3_iteration c B KMP x m y s; lhc3_loop c B KMP x m y n s' }
      else Some (count s))"

text \<open>The constants of \<^verbatim>\<open>lhc3-kmp.c\<close>: \<open>ALPHA = 11\<close>, \<open>Q = 3\<close>, \<open>S = ALPHA / Q = 3\<close>.\<close>

definition lhc3 :: hc_params where
  "lhc3 = \<lparr>Q = 3, S1 = 3, S2 = 0, S3 = 3, ALPHA = 11, rolling = False\<rparr>"

definition lhc3_search :: "byte list \<Rightarrow> int \<Rightarrow> byte list \<Rightarrow> int \<Rightarrow> int option" where
  "lhc3_search x m y n =
     (if m < int (Q lhc3) then Some (- 1)
      else do { r \<leftarrow> guarded_preprocessing lhc3 x m;
                KMP \<leftarrow> preKmp x m (replicate (nat (m + 1)) None);
                lhc3_loop lhc3 (fst r) KMP x m y n (scanner_init m) })"

subsubsection \<open>\<^verbatim>\<open>experiments/thc2-1.c\<close>: the copy of the pattern behind the text\<close>

text \<open>\<^verbatim>\<open>for (int i = 0; i < m; i++) y[n + i] = x[i];\<close>\<close>

function copy_pattern ::
  "byte list \<Rightarrow> int \<Rightarrow> byte list \<Rightarrow> int \<Rightarrow> int \<Rightarrow> byte list option" where
  "copy_pattern x m y n i =
     (if i < m then
        (if 0 \<le> i \<and> i < int (length x) \<and> 0 \<le> n + i \<and> n + i < int (length y)
         then copy_pattern x m (y[nat (n + i) := x ! nat i]) n (i + 1)
         else None)
      else Some y)"
  by pat_completeness auto
termination
  by (relation "measure (\<lambda>(x, m, y, n, i). nat (m - i))") auto

text \<open>\<^verbatim>\<open>while (!((V = B[ANCHOR_HASH(y, pos) & TABLE_MASK]))) pos += MQ1;\<close>\<close>

partial_function (option) skip_empty ::
  "hc_params \<Rightarrow> u32 list \<Rightarrow> byte list \<Rightarrow> int \<Rightarrow> int \<Rightarrow> int option" where
  "skip_empty c B y m p =
     do { H \<leftarrow> ANCHOR_HASH c y p;
          if B ! slot c H = 0 then skip_empty c B y m (p + MQ1 c m) else Some p }"

text \<open>
  One pass of the body of \<^verbatim>\<open>while (pos < n)\<close>. The inner \<^verbatim>\<open>while (1)\<close> steps back
  while \<^verbatim>\<open>pos >= end_second_qgram_pos\<close>, leaves by \<^verbatim>\<open>break\<close> when a fingerprint is
  missing, and verifies otherwise: the walk above followed by the verification.
\<close>

definition thc_iteration ::
  "hc_params \<Rightarrow> u32 list \<Rightarrow> u32 \<Rightarrow> byte list \<Rightarrow> int \<Rightarrow> byte list \<Rightarrow> int \<Rightarrow> scanner
     \<Rightarrow> scanner option"
where
  "thc_iteration c B Hm x m y n s =
     do { p \<leftarrow> skip_empty c B y m (pos s);
          if p < n then
            do { H \<leftarrow> ANCHOR_HASH c y p;
                 w \<leftarrow> walk c B y (p - (m - int (Q c) - int (Q c))) p H (B ! slot c H);
                 case w of
                   Shift p' \<Rightarrow> Some (s\<lparr>pos := p' + MQ1 c m\<rparr>)
                 | Verify p' H' \<Rightarrow>
                     do { hit \<leftarrow> (if H' = Hm
                                  then memcmp_eq y
                                         (p - (m - int (Q c) - int (Q c)) - int (Q c) - int (Q c) + 1)
                                         x m
                                  else Some False);
                          Some (s\<lparr>pos := p - (m - int (Q c) - int (Q c)) - int (Q c) + MQ1 c m,
                                  count := (if hit then count s + 1 else count s)\<rparr>) } }
          else Some (s\<lparr>pos := p + MQ1 c m\<rparr>) }"

partial_function (option) thc_loop ::
  "hc_params \<Rightarrow> u32 list \<Rightarrow> u32 \<Rightarrow> byte list \<Rightarrow> int \<Rightarrow> byte list \<Rightarrow> int \<Rightarrow> scanner
     \<Rightarrow> int option"
where
  "thc_loop c B Hm x m y n s =
     (if pos s < n then
        do { s' \<leftarrow> thc_iteration c B Hm x m y n s; thc_loop c B Hm x m y n s' }
      else Some (count s))"

text \<open>
  The constants of \<^verbatim>\<open>thc2-1.c\<close>: \<open>ASIZE = 2048\<close>, \<open>S1 = 3\<close>, \<open>S2 = 4\<close>, \<open>S3 = 1\<close>,
  \<open>Q = 2\<close>; its \<^verbatim>\<open>preprocessing\<close> is the text of \<^verbatim>\<open>hc3.c\<close>. \<^verbatim>\<open>search\<close> writes to the
  text buffer, so the model returns the buffer with the count.
\<close>

definition thc2 :: hc_params where
  "thc2 = \<lparr>Q = 2, S1 = 3, S2 = 4, S3 = 1, ALPHA = 11, rolling = True\<rparr>"

definition thc2_search ::
  "byte list \<Rightarrow> int \<Rightarrow> byte list \<Rightarrow> int \<Rightarrow> (int \<times> byte list) option" where
  "thc2_search x m y n =
     (if m < int (Q thc2) then Some (- 1, y)
      else do { r \<leftarrow> rolling_preprocessing thc2 x m;
                y' \<leftarrow> copy_pattern x m y n 0;
                cnt \<leftarrow> thc_loop thc2 (fst r) (snd r) x m y' n (scanner_init m);
                Some (cnt, y') })"

subsubsection \<open>\<^verbatim>\<open>preprocessing\<close> of \<^verbatim>\<open>hc6.c\<close>\<close>

text \<open>
  Modelled from the spec: \<^verbatim>\<open>LOG2\<close> comes from \<^verbatim>\<open>include/log2.h\<close>, which is not among
  the sources; \<^verbatim>\<open>LOG2(ASIZE)\<close> is taken to be \<open>ALPHA\<close>, the spec's \<open>ASIZE = 1 << ALPHA\<close>.
  \<^verbatim>\<open>rollingHashLimit = (LOG2(ASIZE) * Q / S2) + (Q * 2)\<close>.
\<close>

definition rollingHashLimit :: "hc_params \<Rightarrow> int" where
  "rollingHashLimit c = int (ALPHA c * Q c div S2 c) + int (Q c) * 2"

text \<open>Step 1 of \<^verbatim>\<open>hc6.c\<close>: \<^verbatim>\<open>for (anchor = (2*Q) - 1; anchor < m - 1; anchor++)\<close>.\<close>

function hc6_anchors ::
  "hc_params \<Rightarrow> byte list \<Rightarrow> int \<Rightarrow> int \<Rightarrow> int \<Rightarrow> u32 list \<Rightarrow> u32 list option" where
  "hc6_anchors c x m fct anchor B =
     (if anchor < m - 1 then
        do { H \<leftarrow> ANCHOR_HASH c x anchor;
             r \<leftarrow> chain c x
                    (if anchor - fct + 1 > int (Q c) - 1 then anchor - fct + 1
                     else int (Q c) - 1)
                    (anchor - int (Q c)) B H;
             hc6_anchors c x m fct (anchor + 1) (fst r) }
      else Some B)"
  by pat_completeness auto
termination
  by (relation "measure (\<lambda>(c, x, m, fct, anchor, B). nat (m - anchor))") auto

text \<open>
  Step 3 of \<^verbatim>\<open>hc6.c\<close>: \<^verbatim>\<open>for (anchor = Q-1; anchor <= stop; anchor++)\<close>, with the
  fingerprint \<^verbatim>\<open>FINGERPRINT(CHAIN_HASH(x, anchor) ^ 0xFF)\<close>.
\<close>

function hc6_fill :: "hc_params \<Rightarrow> byte list \<Rightarrow> int \<Rightarrow> int \<Rightarrow> u32 list \<Rightarrow> u32 list option" where
  "hc6_fill c x stop anchor B =
     (if anchor \<le> stop then
        do { H2 \<leftarrow> ANCHOR_HASH c x anchor;
             B' \<leftarrow> (if B ! slot c H2 = 0
                    then do { h \<leftarrow> CHAIN_HASH c x anchor;
                              Some (B[slot c H2 := LINK_HASH (h XOR 0xFF)]) }
                    else Some B);
             hc6_fill c x stop (anchor + 1) B' }
      else Some B)"
  by pat_completeness auto
termination
  by (relation "measure (\<lambda>(c, x, stop, anchor, B). nat (stop + 1 - anchor))") auto

text \<open>The constants of \<^verbatim>\<open>hc6.c\<close>: \<open>Q = 6\<close>, \<open>S1 = 2\<close>, \<open>S2 = 4\<close>, \<open>S3 = 1\<close>, \<open>ASIZE = 4096\<close>.\<close>

definition hc6 :: hc_params where
  "hc6 = \<lparr>Q = 6, S1 = 2, S2 = 4, S3 = 1, ALPHA = 12, rolling = True\<rparr>"

definition hc6_preprocessing :: "byte list \<Rightarrow> int \<Rightarrow> (u32 list \<times> u32) option" where
  "hc6_preprocessing x m =
     do { B1 \<leftarrow> hc6_anchors hc6 x m (if m < rollingHashLimit hc6 then m else rollingHashLimit hc6)
                  (2 * int (Q hc6) - 1) (replicate (ASIZE hc6) 0);
          H \<leftarrow> ANCHOR_HASH hc6 x (m - 1);
          r \<leftarrow> chain hc6 x (int (Q hc6) - 1) (m - 1 - int (Q hc6)) B1 H;
          B \<leftarrow> hc6_fill hc6 x (if m < 2 * int (Q hc6) then m - 1 else 2 * int (Q hc6) - 1)
                 (int (Q hc6) - 1) (fst r);
          Some (B, snd r) }"

section \<open>Notions for stating the properties\<close>

definition byte_at :: "byte list \<Rightarrow> int \<Rightarrow> u32" where
  "byte_at x p = ucast (x ! nat p)"

fun hashv :: "nat \<Rightarrow> byte list \<Rightarrow> int \<Rightarrow> nat \<Rightarrow> u32" where
  "hashv 0 x p s = 0"
| "hashv (Suc k) x p s = push_bit s (hashv k x p s) + byte_at x (p - int k)"

definition anv :: "hc_params \<Rightarrow> byte list \<Rightarrow> int \<Rightarrow> u32" where
  "anv c x p = hashv (Q c) x p (S1 c)"

definition chv :: "hc_params \<Rightarrow> byte list \<Rightarrow> int \<Rightarrow> u32" where
  "chv c x p = hashv (Q c) x p (S3 c)"

text \<open>\<open>linked c B H H'\<close> is the scanner's test \<^verbatim>\<open>B[H & TABLE_MASK] & LINK_HASH(H')\<close>.\<close>

definition linked :: "hc_params \<Rightarrow> u32 list \<Rightarrow> u32 \<Rightarrow> u32 \<Rightarrow> bool" where
  "linked c B H H' \<longleftrightarrow> B ! slot c H AND LINK_HASH H' \<noteq> 0"

text \<open>Every bit of \<open>B\<close> is a bit of \<open>B'\<close>.\<close>

definition tbl_le :: "u32 list \<Rightarrow> u32 list \<Rightarrow> bool" where
  "tbl_le B B' \<longleftrightarrow> length B' = length B \<and> (\<forall>i < length B. B ! i AND B' ! i = B ! i)"

text \<open>The value of \<open>H\<close> after \<open>i\<close> steps of a chain that starts at \<open>chain_pos\<close>.\<close>

fun roll_from :: "hc_params \<Rightarrow> byte list \<Rightarrow> u32 \<Rightarrow> int \<Rightarrow> nat \<Rightarrow> u32" where
  "roll_from c x H cp 0 = H"
| "roll_from c x H cp (Suc i) =
     ROLL c (roll_from c x H cp i) (chv c x (cp - int i * int (Q c)))"

text \<open>The number of passes of a loop from \<open>cp\<close> down to \<open>stop\<close> in steps of \<open>Q\<close>.\<close>

definition passes :: "hc_params \<Rightarrow> int \<Rightarrow> int \<Rightarrow> nat" where
  "passes c stop cp = (if cp \<ge> stop then nat ((cp - stop) div int (Q c)) + 1 else 0)"


text \<open>
  The recursive equations are used one step at a time in the proofs below, and as code
  equations when a run is evaluated on a concrete input.
\<close>

declare chains.simps [simp del] fill.simps [simp del] anchors.simps [simp del]
  hc6_anchors.simps [simp del] hc6_fill.simps [simp del] verify_alignments.simps [simp del]
  pre_kmp_loop.simps [simp del] match_run.simps [simp del] copy_pattern.simps [simp del]

declare chain.simps [code] total_hash.simps [code] walk.simps [code] base_loop.simps [code]
  qverify_loop.simps [code] weaker_loop.simps [code] kmp_fallback.simps [code]
  kmp_verify.simps [code] lhc4_loop.simps [code] lhc3_loop.simps [code]
  skip_empty.simps [code] thc_loop.simps [code]

subsection \<open>The failure table\<close>

text \<open>\<open>x[a..b)\<close>, empty when \<open>b \<le> a\<close>.\<close>

definition slice :: "'a list \<Rightarrow> int \<Rightarrow> int \<Rightarrow> 'a list" where
  "slice x a b = take (nat (b - a)) (drop (nat a) x)"

text \<open>The first \<open>v\<close> bytes of \<open>x\<close> are the \<open>v\<close> bytes of \<open>x\<close> that end before position \<open>i\<close>.\<close>

definition border :: "byte list \<Rightarrow> int \<Rightarrow> int \<Rightarrow> bool" where
  "border x i v \<longleftrightarrow> (\<forall>k. 0 \<le> k \<and> k < v \<longrightarrow> byte_at x k = byte_at x (i - v + k))"

text \<open>
  What the failure table holds at index \<open>i\<close>: a border \<open>v\<close> of \<open>x[0..i)\<close> shorter than \<open>i\<close>
  (or \<open>-1\<close>) which, inside the pattern, is not followed by the byte \<open>x[i]\<close>, and such that
  every longer border is followed by \<open>x[i]\<close>. At \<open>i = m\<close> there is no longer border:
  the entry is the longest border of the pattern shorter than \<open>m\<close>.
\<close>

definition tab_ok :: "byte list \<Rightarrow> int \<Rightarrow> int \<Rightarrow> int \<Rightarrow> bool" where
  "tab_ok x m i v \<longleftrightarrow>
     - 1 \<le> v \<and> v < i \<and> border x i v \<and> (0 \<le> v \<and> i < m \<longrightarrow> byte_at x v \<noteq> byte_at x i)
     \<and> (\<forall>w. v < w \<and> w < i \<and> border x i w \<longrightarrow> i < m \<and> byte_at x w = byte_at x i)"

definition tab_inv :: "byte list \<Rightarrow> int \<Rightarrow> int option list \<Rightarrow> int \<Rightarrow> bool" where
  "tab_inv x m KMP j \<longleftrightarrow>
     int (length KMP) = m + 1
     \<and> (\<forall>i. 0 \<le> i \<and> i \<le> j \<longrightarrow> (\<exists>v. rdk KMP i = Some v \<and> tab_ok x m i v))"

subsection \<open>The scanner\<close>

text \<open>
  What a chain walk from \<open>p\<close> with hash \<open>H\<close> returns when it starts with the table word
  of \<open>H\<close>: it leaves at the first link that the table does not hold, and reaches the
  limit when the table holds them all.
\<close>

definition walk_post ::
  "hc_params \<Rightarrow> u32 list \<Rightarrow> byte list \<Rightarrow> int \<Rightarrow> int \<Rightarrow> u32 \<Rightarrow> chain_walk \<Rightarrow> bool" where
  "walk_post c B y limit p H w \<longleftrightarrow>
     (case w of
        Shift p' \<Rightarrow>
          (\<exists>k. k < passes c limit p \<and> p' = p - int (Suc k) * int (Q c)
             \<and> (\<forall>i. i < k \<longrightarrow> linked c B (roll_from c y H (p - int (Q c)) i)
                                   (roll_from c y H (p - int (Q c)) (Suc i)))
             \<and> \<not> linked c B (roll_from c y H (p - int (Q c)) k)
                              (roll_from c y H (p - int (Q c)) (Suc k)))
      | Verify p' H' \<Rightarrow>
          p' = p - int (passes c limit p) * int (Q c)
          \<and> H' = roll_from c y H (p - int (Q c)) (passes c limit p)
          \<and> (\<forall>i. i < passes c limit p \<longrightarrow>
                 linked c B (roll_from c y H (p - int (Q c)) i)
                            (roll_from c y H (p - int (Q c)) (Suc i))))"

text \<open>
  A loop \<^verbatim>\<open>while (b) s = f(s)\<close> cut off after \<open>k\<close> passes: \<open>Some\<close> of the state in
  which the loop leaves if it leaves within \<open>k\<close> passes, \<open>None\<close> otherwise.
\<close>

primrec bounded_loop :: "nat \<Rightarrow> ('s \<Rightarrow> bool) \<Rightarrow> ('s \<Rightarrow> 's option) \<Rightarrow> 's \<Rightarrow> 's option" where
  "bounded_loop 0 b f s = (if b s then None else Some s)"
| "bounded_loop (Suc k) b f s = (if b s then Option.bind (f s) (bounded_loop k b f) else Some s)"

text \<open>The state of the verification: the cursor into the pattern stays inside it.\<close>

definition kmp_state :: "int \<Rightarrow> scanner \<Rightarrow> bool" where
  "kmp_state m s \<longleftrightarrow> 0 \<le> pattern_pos s \<and> pattern_pos s < m \<and> pattern_pos s \<le> next_verify_pos s"

subsection \<open>Occurrences of the pattern\<close>

text \<open>\<open>x\<close> occurs in \<open>y\<close> at position \<open>i\<close>: \<open>y[i..i + m) = x\<close>.\<close>

definition occurs_at :: "byte list \<Rightarrow> byte list \<Rightarrow> int \<Rightarrow> bool" where
  "occurs_at x y i \<longleftrightarrow>
     0 \<le> i \<and> i + int (length x) \<le> int (length y) \<and> take (length x) (drop (nat i) y) = x"

text \<open>The number of occurrences that start before position \<open>k\<close>.\<close>

definition occurrences :: "byte list \<Rightarrow> byte list \<Rightarrow> int \<Rightarrow> int" where
  "occurrences x y k = int (length (filter (occurs_at x y) [0..k - 1]))"

text \<open>
  The state of a loop \<^verbatim>\<open>while (b) s = f(s)\<close> at the loop head after exactly \<open>k\<close> passes:
  \<open>None\<close> if the loop has left before, or a pass has no result.
\<close>

primrec loop_state :: "nat \<Rightarrow> ('s \<Rightarrow> bool) \<Rightarrow> ('s \<Rightarrow> 's option) \<Rightarrow> 's \<Rightarrow> 's option" where
  "loop_state 0 b f s = Some s"
| "loop_state (Suc k) b f s = (if b s then Option.bind (f s) (loop_state k b f) else None)"




section \<open>Properties\<close>

lemma slot_less: "slot c H < ASIZE c"
proof (cases "ALPHA c < 32")
  case True
  have "H AND TABLE_MASK c = take_bit (ALPHA c) H"
    by (simp add: TABLE_MASK_def take_bit_eq_mask mask_eq_exp_minus_1)
  moreover have "unat (take_bit (ALPHA c) H) < 2 ^ ALPHA c"
    by (simp add: unsigned_take_bit_eq)
  ultimately show ?thesis by (simp add: slot_def ASIZE_def)
next
  case False
  have "unat (H AND TABLE_MASK c) < 2 ^ 32"
    using unsigned_less [of "H AND TABLE_MASK c"] by simp
  also have "(2::nat) ^ 32 \<le> 2 ^ ALPHA c"
    using False by (intro power_increasing) auto
  finally show ?thesis by (simp add: slot_def ASIZE_def)
qed

lemma and_31_less: "unat ((H::u32) AND 0x1F) < 32"
proof -
  have "H AND 0x1F = take_bit 5 H"
    by (simp add: take_bit_eq_mask mask_eq_exp_minus_1)
  moreover have "unat (take_bit 5 H) < 2 ^ 5"
    using take_bit_nat_less_exp [of 5 "unat H"] by (simp add: unsigned_take_bit_eq)
  ultimately show ?thesis by simp
qed

lemma bit_LINK_HASH: "bit (LINK_HASH H) i \<longleftrightarrow> i = unat (H AND 0x1F)"
  using and_31_less [of H]
  by (auto simp add: LINK_HASH_def bit_exp_iff possible_bit_word)

lemma LINK_HASH_nonzero: "LINK_HASH H \<noteq> 0"
proof
  assume "LINK_HASH H = 0"
  then have "bit (LINK_HASH H) (unat (H AND 0x1F)) = bit (0::u32) (unat (H AND 0x1F))" by simp
  then show False by (simp add: bit_LINK_HASH)
qed

lemma LINK_HASH_eq_iff: "LINK_HASH F = LINK_HASH G \<longleftrightarrow> F AND 0x1F = G AND 0x1F"
proof
  assume "LINK_HASH F = LINK_HASH G"
  then have "bit (LINK_HASH F) (unat (G AND 0x1F)) = bit (LINK_HASH G) (unat (G AND 0x1F))" by simp
  then have "unat (G AND 0x1F) = unat (F AND 0x1F)" by (simp add: bit_LINK_HASH)
  then show "F AND 0x1F = G AND 0x1F" by (simp add: word_unat_eq_iff)
next
  assume "F AND 0x1F = G AND 0x1F"
  then show "LINK_HASH F = LINK_HASH G" by (simp add: LINK_HASH_def)
qed

lemma LINK_HASH_NOT_neq: "LINK_HASH (NOT F) \<noteq> LINK_HASH F"
proof
  assume "LINK_HASH (NOT F) = LINK_HASH F"
  then have "NOT F AND 0x1F = F AND 0x1F" by (simp add: LINK_HASH_eq_iff)
  then have "bit (NOT F AND 0x1F) 0 = bit (F AND 0x1F) 0" by simp
  then show False by (simp add: bit_and_iff bit_not_iff)
qed

lemma LINK_HASH_XOR_neq: "LINK_HASH (F XOR 0xFF) \<noteq> LINK_HASH F"
proof
  assume "LINK_HASH (F XOR 0xFF) = LINK_HASH F"
  then have "(F XOR 0xFF) AND 0x1F = F AND 0x1F" by (simp add: LINK_HASH_eq_iff)
  then have "bit ((F XOR 0xFF) AND 0x1F) 0 = bit (F AND 0x1F) 0" by simp
  then show False by (simp add: bit_and_iff bit_xor_iff)
qed

subsection \<open>Reads and hashes inside a buffer\<close>

lemma rd_eq: "0 \<le> p \<Longrightarrow> p < int (length x) \<Longrightarrow> rd x p = Some (byte_at x p)"
  by (simp add: rd_def byte_at_def)

lemma rd_None_iff: "rd x p = None \<longleftrightarrow> \<not> (0 \<le> p \<and> p < int (length x))"
  by (simp add: rd_def)

lemma HASH_eq:
  "int k - 1 \<le> p \<Longrightarrow> p < int (length x) \<Longrightarrow> HASH k x p s = Some (hashv k x p s)"
  by (induction k) (simp_all add: rd_eq)

lemma HASH_None_iff:
  "HASH k x p s = None \<longleftrightarrow> 0 < k \<and> \<not> (int k - 1 \<le> p \<and> p < int (length x))"
proof (induction k)
  case 0
  show ?case by simp
next
  case (Suc k)
  show ?case
  proof (cases "HASH k x p s")
    case None
    with Suc show ?thesis by auto
  next
    case (Some h)
    with Suc have "k = 0 \<or> (int k - 1 \<le> p \<and> p < int (length x))" by auto
    with Some show ?thesis by (auto simp add: rd_def split: Option.bind_splits if_splits)
  qed
qed

lemma ANCHOR_HASH_eq:
  "END_FIRST_QGRAM c \<le> p \<Longrightarrow> p < int (length x) \<Longrightarrow> ANCHOR_HASH c x p = Some (anv c x p)"
  by (simp add: ANCHOR_HASH_def anv_def END_FIRST_QGRAM_def HASH_eq)

lemma CHAIN_HASH_eq:
  "END_FIRST_QGRAM c \<le> p \<Longrightarrow> p < int (length x) \<Longrightarrow> CHAIN_HASH c x p = Some (chv c x p)"
  by (simp add: CHAIN_HASH_def chv_def END_FIRST_QGRAM_def HASH_eq)


lemma ANCHOR_HASH_None_iff:
  "ANCHOR_HASH c x p = None \<longleftrightarrow> 0 < Q c \<and> \<not> (END_FIRST_QGRAM c \<le> p \<and> p < int (length x))"
  by (simp add: ANCHOR_HASH_def END_FIRST_QGRAM_def HASH_None_iff)

subsection \<open>Tables\<close>

lemma tbl_le_refl: "tbl_le B B"
  by (simp add: tbl_le_def)

lemma tbl_le_trans: "tbl_le A B \<Longrightarrow> tbl_le B C \<Longrightarrow> tbl_le A C"
  unfolding tbl_le_def
proof (intro conjI allI impI)
  assume h: "length B = length A \<and> (\<forall>i<length A. A ! i AND B ! i = A ! i)"
    "length C = length B \<and> (\<forall>i<length B. B ! i AND C ! i = B ! i)"
  then show "length C = length A" by simp
  fix i assume i: "i < length A"
  with h have a: "A ! i AND B ! i = A ! i" and b: "B ! i AND C ! i = B ! i" by auto
  have "A ! i AND C ! i = (A ! i AND B ! i) AND C ! i" by (simp add: a)
  also have "\<dots> = A ! i AND (B ! i AND C ! i)" by (simp add: and.assoc)
  also have "\<dots> = A ! i" by (simp add: a b)
  finally show "A ! i AND C ! i = A ! i" .
qed

lemma and_or_absorb: "(a::u32) AND (a OR v) = a"
  by (auto simp add: bit_eq_iff bit_and_iff bit_or_iff)

lemma tbl_le_or: "i < length B \<Longrightarrow> tbl_le B (B[i := B ! i OR v])"
  by (simp add: tbl_le_def nth_list_update and_or_absorb)

lemma tbl_le_set_zero: "B ! i = 0 \<Longrightarrow> tbl_le B (B[i := v])"
proof (cases "i < length B")
  case True
  assume "B ! i = 0"
  with True show ?thesis by (simp add: tbl_le_def nth_list_update)
next
  case False
  then have "B[i := v] = B" by (intro list_update_beyond) simp
  then show ?thesis by (simp add: tbl_le_refl)
qed

lemma tbl_le_nonzero: "tbl_le B B' \<Longrightarrow> i < length B \<Longrightarrow> B ! i \<noteq> 0 \<Longrightarrow> B' ! i \<noteq> 0"
  by (auto simp add: tbl_le_def)

lemma tbl_le_linked:
  assumes "tbl_le B B'" "length B = ASIZE c" "linked c B H H'"
  shows "linked c B' H H'"
proof -
  have i: "slot c H < length B" using assms(2) slot_less by simp
  with assms(1) have e: "B ! slot c H AND B' ! slot c H = B ! slot c H"
    by (simp add: tbl_le_def)
  show ?thesis
  proof (rule ccontr)
    assume "\<not> linked c B' H H'"
    then have z: "B' ! slot c H AND LINK_HASH H' = 0" by (simp add: linked_def)
    have "B ! slot c H AND LINK_HASH H' = (B ! slot c H AND B' ! slot c H) AND LINK_HASH H'"
      by (simp add: e)
    also have "\<dots> = B ! slot c H AND (B' ! slot c H AND LINK_HASH H')"
      by (simp add: and.assoc)
    also have "\<dots> = 0" by (simp add: z)
    finally show False using assms(3) by (simp add: linked_def)
  qed
qed

lemma linked_update:
  assumes "length B = ASIZE c"
  shows "linked c (B[slot c H := B ! slot c H OR LINK_HASH H']) H H'"
proof -
  have i: "slot c H < length B" using assms slot_less by simp
  have "(B ! slot c H OR LINK_HASH H') AND LINK_HASH H' = LINK_HASH H'"
    by (auto simp add: bit_eq_iff bit_and_iff bit_or_iff)
  then show ?thesis using i LINK_HASH_nonzero by (simp add: linked_def)
qed

lemma linked_nonzero: "linked c B H H' \<Longrightarrow> B ! slot c H \<noteq> 0"
  by (auto simp add: linked_def)

subsection \<open>The chain loop\<close>

lemma roll_from_shift:
  "roll_from c x H cp (Suc i) = roll_from c x (ROLL c H (chv c x cp)) (cp - int (Q c)) i"
  by (induction i) (simp_all add: algebra_simps)

lemma passes_0: "cp < stop \<Longrightarrow> passes c stop cp = 0"
  by (simp add: passes_def)

lemma passes_Suc:
  assumes "0 < Q c" "stop \<le> cp"
  shows "passes c stop cp = Suc (passes c stop (cp - int (Q c)))"
proof (cases "stop \<le> cp - int (Q c)")
  case True
  have "(cp - stop) div int (Q c) = (cp - int (Q c) - stop) div int (Q c) + 1"
    using assms(1) div_add_self2 [of "int (Q c)" "cp - int (Q c) - stop"] by (simp add: algebra_simps)
  moreover have "0 \<le> (cp - int (Q c) - stop) div int (Q c)"
    using True assms(1) by (simp add: pos_imp_zdiv_nonneg_iff)
  ultimately show ?thesis using True assms by (simp add: passes_def nat_add_distrib)
next
  case False
  then have "(cp - stop) div int (Q c) = 0"
    using assms by (simp add: div_pos_pos_trivial)
  with False assms show ?thesis by (simp add: passes_def)
qed

lemma chain_spec:
  assumes "0 < Q c" "END_FIRST_QGRAM c \<le> stop" "cp < int (length x)" "length B = ASIZE c"
  shows "\<exists>B'. chain c x stop cp B H = Some (B', roll_from c x H cp (passes c stop cp))
           \<and> tbl_le B B' \<and> length B' = ASIZE c
           \<and> (\<forall>i < passes c stop cp.
                 linked c B' (roll_from c x H cp i) (roll_from c x H cp (Suc i)))"
  using assms(3,4)
proof (induction "nat (cp - stop + 1)" arbitrary: cp B H rule: less_induct)
  case less
  show ?case
  proof (cases "stop \<le> cp")
    case False
    then show ?thesis
      using less.prems by (subst chain.simps) (simp add: passes_0 tbl_le_refl)
  next
    case True
    let ?h = "chv c x cp"
    let ?H1 = "ROLL c H ?h"
    let ?B1 = "B[slot c H := B ! slot c H OR LINK_HASH ?H1]"
    have hs: "CHAIN_HASH c x cp = Some ?h"
      using True assms(2) less.prems by (simp add: CHAIN_HASH_eq)
    have sl: "slot c H < length B" using less.prems slot_less by simp
    have "nat (cp - int (Q c) - stop + 1) < nat (cp - stop + 1)"
      using True assms(1) by simp
    moreover have "cp - int (Q c) < int (length x)" using less.prems by simp
    moreover have "length ?B1 = ASIZE c" using less.prems by simp
    ultimately obtain B' where
      r: "chain c x stop (cp - int (Q c)) ?B1 ?H1
            = Some (B', roll_from c x ?H1 (cp - int (Q c)) (passes c stop (cp - int (Q c))))"
      and le: "tbl_le ?B1 B'" and len: "length B' = ASIZE c"
      and lk: "\<forall>i < passes c stop (cp - int (Q c)).
                 linked c B' (roll_from c x ?H1 (cp - int (Q c)) i)
                   (roll_from c x ?H1 (cp - int (Q c)) (Suc i))"
      using less.hyps [of "cp - int (Q c)" ?B1 ?H1] by blast
    have ps: "passes c stop cp = Suc (passes c stop (cp - int (Q c)))"
      using assms(1) True by (rule passes_Suc)
    have rs: "roll_from c x H cp (passes c stop cp)
                = roll_from c x ?H1 (cp - int (Q c)) (passes c stop (cp - int (Q c)))"
      unfolding ps by (rule roll_from_shift)
    have e: "chain c x stop cp B H = Some (B', roll_from c x H cp (passes c stop cp))"
      using True hs r by (subst chain.simps) (simp add: rs)
    have le0: "tbl_le B ?B1" using sl by (rule tbl_le_or)
    have l0: "linked c B' H ?H1"
      using le _ linked_update [OF less.prems(2)]
      by (rule tbl_le_linked) (simp add: less.prems)
    have "linked c B' (roll_from c x H cp i) (roll_from c x H cp (Suc i))"
      if "i < passes c stop cp" for i
    proof (cases i)
      case 0
      with l0 show ?thesis by simp
    next
      case (Suc i')
      with that ps have "i' < passes c stop (cp - int (Q c))" by simp
      with lk have "linked c B' (roll_from c x ?H1 (cp - int (Q c)) i')
                   (roll_from c x ?H1 (cp - int (Q c)) (Suc i'))" by blast
      then show ?thesis
        unfolding Suc roll_from_shift [of c x H cp "Suc i'"] roll_from_shift [of c x H cp i'] .
    qed
    with e le0 le len show ?thesis using tbl_le_trans by blast
  qed
qed


lemma passes_iff:
  "0 < Q c \<Longrightarrow> i < passes c stop cp \<longleftrightarrow> stop \<le> cp - int i * int (Q c)"
proof (induction i arbitrary: cp)
  case 0
  then show ?case by (simp add: passes_def)
next
  case (Suc i)
  show ?case
  proof (cases "stop \<le> cp")
    case True
    have "Suc i < passes c stop cp \<longleftrightarrow> i < passes c stop (cp - int (Q c))"
      using passes_Suc [OF Suc.prems True] by simp
    also have "\<dots> \<longleftrightarrow> stop \<le> cp - int (Q c) - int i * int (Q c)"
      using Suc.IH [OF Suc.prems] .
    finally show ?thesis by (simp add: algebra_simps)
  next
    case False
    then have "\<not> stop \<le> cp - int (Suc i) * int (Q c)"
      by (smt (verit) mult_nonneg_nonneg of_nat_0_le_iff)
    with False show ?thesis by (simp add: passes_0)
  qed
qed

lemma roll_from_plain:
  "\<not> rolling c \<Longrightarrow> roll_from c x H cp (Suc i) = chv c x (cp - int i * int (Q c))"
  by (simp add: ROLL_def)

subsection \<open>The fill of the leading q-grams\<close>

lemma fill_spec:
  assumes "END_FIRST_QGRAM c \<le> p" "stop \<le> int (length x)" "length B = ASIZE c"
  shows "\<exists>B'. fill c x stop p B = Some B' \<and> tbl_le B B' \<and> length B' = ASIZE c
           \<and> (\<forall>p'. p \<le> p' \<and> p' < stop \<longrightarrow> B' ! slot c (anv c x p') \<noteq> 0)"
  using assms(1,3)
proof (induction "nat (stop - p)" arbitrary: p B rule: less_induct)
  case less
  show ?case
  proof (cases "p < stop")
    case False
    then show ?thesis
      using less.prems by (subst fill.simps) (auto simp add: tbl_le_refl)
  next
    case True
    let ?F = "anv c x p"
    let ?B1 = "if B ! slot c ?F = 0 then B[slot c ?F := LINK_HASH (NOT ?F)] else B"
    have hs: "ANCHOR_HASH c x p = Some ?F"
      using True less.prems assms(2) by (simp add: ANCHOR_HASH_eq)
    have sl: "slot c ?F < length B" using less.prems slot_less by simp
    have le0: "tbl_le B ?B1" by (simp add: tbl_le_refl tbl_le_set_zero)
    have nz: "?B1 ! slot c ?F \<noteq> 0" using sl LINK_HASH_nonzero by simp
    have len1: "length ?B1 = ASIZE c" using less.prems by simp
    have "nat (stop - (p + 1)) < nat (stop - p)" using True by simp
    moreover have "END_FIRST_QGRAM c \<le> p + 1" using less.prems by simp
    ultimately obtain B' where
      r: "fill c x stop (p + 1) ?B1 = Some B'" and le: "tbl_le ?B1 B'"
      and len: "length B' = ASIZE c"
      and f: "\<forall>p'. p + 1 \<le> p' \<and> p' < stop \<longrightarrow> B' ! slot c (anv c x p') \<noteq> 0"
      using less.hyps [of "p + 1" ?B1] len1 by blast
    have e: "fill c x stop p B = Some B'"
      using True hs r by (subst fill.simps) simp
    have sl1: "slot c ?F < length ?B1" using sl by simp
    from le sl1 nz have nz': "B' ! slot c ?F \<noteq> 0" by (rule tbl_le_nonzero)
    have "B' ! slot c (anv c x p') \<noteq> 0" if "p \<le> p' \<and> p' < stop" for p'
    proof (cases "p' = p")
      case True
      with nz' show ?thesis by simp
    next
      case False
      with that f show ?thesis by simp
    qed
    with e le0 le len show ?thesis using tbl_le_trans by blast
  qed
qed

subsection \<open>Chain construction without a rolling hash\<close>

lemma chains_spec:
  assumes "0 < Q c" "\<not> rolling c" "m \<le> int (length x)"
    and "chain_no \<le> m - END_FIRST_QGRAM c" "length B = ASIZE c"
  shows "\<exists>B' H'. chains c x m chain_no B H = Some (B', H') \<and> tbl_le B B' \<and> length B' = ASIZE c
           \<and> (\<forall>cn i. 1 \<le> cn \<and> cn \<le> chain_no
                 \<and> END_FIRST_QGRAM c \<le> m - cn - int (Suc i) * int (Q c)
               \<longrightarrow> linked c B' (chv c x (m - cn - int i * int (Q c)))
                            (chv c x (m - cn - int (Suc i) * int (Q c))))
           \<and> (1 \<le> chain_no \<longrightarrow>
                H' = roll_from c x (chv c x (m - 1)) (m - 1 - int (Q c))
                       (passes c (END_FIRST_QGRAM c) (m - 1 - int (Q c))))"
  using assms(4,5)
proof (induction "nat chain_no" arbitrary: chain_no B H rule: less_induct)
  case less
  show ?case
  proof (cases "1 \<le> chain_no")
    case False
    then show ?thesis
      using less.prems by (subst chains.simps) (auto simp add: tbl_le_refl)
  next
    case True
    let ?E = "END_FIRST_QGRAM c"
    let ?h = "chv c x (m - chain_no)"
    let ?cp = "m - chain_no - int (Q c)"
    have hs: "CHAIN_HASH c x (m - chain_no) = Some ?h"
      using True less.prems assms(3) by (simp add: CHAIN_HASH_eq)
    have "?cp < int (length x)" using True assms(1,3) by simp
    with assms(1) obtain B1 where
      r1: "chain c x ?E ?cp B ?h = Some (B1, roll_from c x ?h ?cp (passes c ?E ?cp))"
      and le1: "tbl_le B B1" and len1: "length B1 = ASIZE c"
      and lk1: "\<forall>i < passes c ?E ?cp.
                  linked c B1 (roll_from c x ?h ?cp i) (roll_from c x ?h ?cp (Suc i))"
      using chain_spec [of c ?E ?cp x B ?h] less.prems(2) by auto
    let ?H1 = "roll_from c x ?h ?cp (passes c ?E ?cp)"
    have "nat (chain_no - 1) < nat chain_no" using True by simp
    moreover have "chain_no - 1 \<le> m - ?E" using less.prems by simp
    ultimately obtain B' H' where
      r: "chains c x m (chain_no - 1) B1 ?H1 = Some (B', H')"
      and le: "tbl_le B1 B'" and len: "length B' = ASIZE c"
      and lk: "\<forall>cn i. 1 \<le> cn \<and> cn \<le> chain_no - 1
                 \<and> ?E \<le> m - cn - int (Suc i) * int (Q c)
               \<longrightarrow> linked c B' (chv c x (m - cn - int i * int (Q c)))
                            (chv c x (m - cn - int (Suc i) * int (Q c)))"
      and fin: "1 \<le> chain_no - 1 \<longrightarrow>
                H' = roll_from c x (chv c x (m - 1)) (m - 1 - int (Q c))
                       (passes c ?E (m - 1 - int (Q c)))"
      using less.hyps [of "chain_no - 1" B1 ?H1] len1 by blast
    have e: "chains c x m chain_no B H = Some (B', H')"
      using True hs r1 r by (subst chains.simps) simp
    have l: "linked c B' (chv c x (m - cn - int i * int (Q c)))
                (chv c x (m - cn - int (Suc i) * int (Q c)))"
      if h: "1 \<le> cn \<and> cn \<le> chain_no \<and> ?E \<le> m - cn - int (Suc i) * int (Q c)" for cn i
    proof (cases "cn = chain_no")
      case False
      with h lk show ?thesis by simp
    next
      case True
      have "?E \<le> ?cp - int i * int (Q c)" using h True by (simp add: algebra_simps)
      then have "i < passes c ?E ?cp" using assms(1) by (simp add: passes_iff)
      with lk1 have a: "linked c B1 (roll_from c x ?h ?cp i) (roll_from c x ?h ?cp (Suc i))"
        by blast
      have b: "roll_from c x ?h ?cp i = chv c x (m - chain_no - int i * int (Q c))"
        using assms(2) by (cases i) (simp_all add: roll_from_plain algebra_simps del: roll_from.simps(2))
      have d: "roll_from c x ?h ?cp (Suc i) = chv c x (m - chain_no - int (Suc i) * int (Q c))"
        using assms(2) by (simp add: roll_from_plain algebra_simps del: roll_from.simps(2))
      from a have "linked c B1 (chv c x (m - chain_no - int i * int (Q c)))
                (chv c x (m - chain_no - int (Suc i) * int (Q c)))"
        unfolding b d .
      with le len1 show ?thesis unfolding True by (rule tbl_le_linked)
    qed
    have f: "H' = roll_from c x (chv c x (m - 1)) (m - 1 - int (Q c))
                       (passes c ?E (m - 1 - int (Q c)))"
    proof (cases "chain_no = 1")
      case False
      with True fin show ?thesis by simp
    next
      case True
      with r have "H' = ?H1" by (subst (asm) chains.simps) simp
      with True show ?thesis by simp
    qed
    from e le1 le len l f show ?thesis using tbl_le_trans by blast
  qed
qed

subsection \<open>Chain construction with a rolling hash\<close>

lemma anchors_spec:
  assumes "0 < Q c" "m \<le> int (length x)"
    and "END_FIRST_QGRAM c \<le> a" "length B = ASIZE c"
  shows "\<exists>B'. anchors c x m a B = Some B' \<and> tbl_le B B' \<and> length B' = ASIZE c
           \<and> (\<forall>a' i. a \<le> a' \<and> a' < m
                 \<and> max (END_FIRST_QGRAM c) (a' - int (Q c) - CHAIN_LENGTH c)
                     \<le> a' - int (Q c) - int i * int (Q c)
               \<longrightarrow> linked c B' (roll_from c x (anv c x a') (a' - int (Q c)) i)
                            (roll_from c x (anv c x a') (a' - int (Q c)) (Suc i)))"
  using assms(3,4)
proof (induction "nat (m - a)" arbitrary: a B rule: less_induct)
  case less
  show ?case
  proof (cases "a < m")
    case False
    then show ?thesis
      using less.prems by (subst anchors.simps) (auto simp add: tbl_le_refl)
  next
    case True
    let ?H = "anv c x a"
    let ?cp = "a - int (Q c)"
    let ?stop = "max (END_FIRST_QGRAM c) (?cp - CHAIN_LENGTH c)"
    have hs: "ANCHOR_HASH c x a = Some ?H"
      using True less.prems assms(2) by (simp add: ANCHOR_HASH_eq)
    have "?cp < int (length x)" using True assms(1,2) by simp
    moreover have "END_FIRST_QGRAM c \<le> ?stop" by simp
    ultimately obtain B1 where
      r1: "chain c x ?stop ?cp B ?H = Some (B1, roll_from c x ?H ?cp (passes c ?stop ?cp))"
      and le1: "tbl_le B B1" and len1: "length B1 = ASIZE c"
      and lk1: "\<forall>i < passes c ?stop ?cp.
                  linked c B1 (roll_from c x ?H ?cp i) (roll_from c x ?H ?cp (Suc i))"
      using chain_spec [of c ?stop ?cp x B ?H] less.prems(2) assms(1) by auto
    have "nat (m - (a + 1)) < nat (m - a)" using True by simp
    moreover have "END_FIRST_QGRAM c \<le> a + 1" using less.prems by simp
    ultimately obtain B' where
      r: "anchors c x m (a + 1) B1 = Some B'"
      and le: "tbl_le B1 B'" and len: "length B' = ASIZE c"
      and lk: "\<forall>a' i. a + 1 \<le> a' \<and> a' < m
                 \<and> max (END_FIRST_QGRAM c) (a' - int (Q c) - CHAIN_LENGTH c)
                     \<le> a' - int (Q c) - int i * int (Q c)
               \<longrightarrow> linked c B' (roll_from c x (anv c x a') (a' - int (Q c)) i)
                            (roll_from c x (anv c x a') (a' - int (Q c)) (Suc i))"
      using less.hyps [of "a + 1" B1] len1 by blast
    have e: "anchors c x m a B = Some B'"
      using True hs r1 r by (subst anchors.simps) simp
    have l: "linked c B' (roll_from c x (anv c x a') (a' - int (Q c)) i)
                (roll_from c x (anv c x a') (a' - int (Q c)) (Suc i))"
      if h: "a \<le> a' \<and> a' < m
              \<and> max (END_FIRST_QGRAM c) (a' - int (Q c) - CHAIN_LENGTH c)
                  \<le> a' - int (Q c) - int i * int (Q c)" for a' i
    proof (cases "a' = a")
      case False
      with h lk show ?thesis by simp
    next
      case True
      with h have "i < passes c ?stop ?cp" using assms(1) by (simp add: passes_iff)
      with lk1 have "linked c B1 (roll_from c x ?H ?cp i) (roll_from c x ?H ?cp (Suc i))"
        by blast
      with le len1 show ?thesis unfolding True by (rule tbl_le_linked)
    qed
    from e le1 le len l show ?thesis using tbl_le_trans by blast
  qed
qed

lemma total_hash_spec:
  assumes "0 < Q c" "cp < int (length x)"
  shows "total_hash c x cp H = Some (roll_from c x H cp (passes c (END_FIRST_QGRAM c) cp))"
  using assms(2)
proof (induction "nat (cp - END_FIRST_QGRAM c + 1)" arbitrary: cp H rule: less_induct)
  case less
  show ?case
  proof (cases "END_FIRST_QGRAM c \<le> cp")
    case False
    then show ?thesis by (subst total_hash.simps) (simp add: passes_0)
  next
    case True
    let ?H1 = "ROLL c H (chv c x cp)"
    have hs: "CHAIN_HASH c x cp = Some (chv c x cp)"
      using True less.prems by (simp add: CHAIN_HASH_eq)
    have "nat (cp - int (Q c) - END_FIRST_QGRAM c + 1) < nat (cp - END_FIRST_QGRAM c + 1)"
      using True assms(1) by simp
    moreover have "cp - int (Q c) < int (length x)" using less.prems by simp
    ultimately have r: "total_hash c x (cp - int (Q c)) ?H1
        = Some (roll_from c x ?H1 (cp - int (Q c)) (passes c (END_FIRST_QGRAM c) (cp - int (Q c))))"
      using less.hyps [of "cp - int (Q c)" ?H1] by blast
    have ps: "passes c (END_FIRST_QGRAM c) cp = Suc (passes c (END_FIRST_QGRAM c) (cp - int (Q c)))"
      using assms(1) True by (rule passes_Suc)
    have rs: "roll_from c x H cp (passes c (END_FIRST_QGRAM c) cp)
                = roll_from c x ?H1 (cp - int (Q c)) (passes c (END_FIRST_QGRAM c) (cp - int (Q c)))"
      unfolding ps by (rule roll_from_shift)
    show ?thesis using True hs r by (subst total_hash.simps) (simp add: rs)
  qed
qed


lemma params_simps:
  "Q hc3 = 3" "S1 hc3 = 3" "S2 hc3 = 4" "S3 hc3 = 1" "ALPHA hc3 = 11" "rolling hc3"
  "Q hc4qv = 4" "S1 hc4qv = 3" "S3 hc4qv = 3" "ALPHA hc4qv = 12" "\<not> rolling hc4qv"
  "Q hc6 = 6" "S1 hc6 = 2" "S2 hc6 = 4" "S3 hc6 = 1" "ALPHA hc6 = 12" "rolling hc6"
  by (simp_all add: hc3_def hc4qv_def hc6_def)

lemma hc6_anchors_spec:
  assumes "0 < Q c" "m \<le> int (length x)"
    and "END_FIRST_QGRAM c \<le> a" "length B = ASIZE c"
  shows "\<exists>B'. hc6_anchors c x m fct a B = Some B' \<and> tbl_le B B' \<and> length B' = ASIZE c"
  using assms(3,4)
proof (induction "nat (m - a)" arbitrary: a B rule: less_induct)
  case less
  show ?case
  proof (cases "a < m - 1")
    case False
    then show ?thesis
      using less.prems by (subst hc6_anchors.simps) (auto simp add: tbl_le_refl)
  next
    case True
    let ?H = "anv c x a"
    let ?cp = "a - int (Q c)"
    let ?stop = "if a - fct + 1 > int (Q c) - 1 then a - fct + 1 else int (Q c) - 1"
    have hs: "ANCHOR_HASH c x a = Some ?H"
      using True less.prems assms(2) by (simp add: ANCHOR_HASH_eq)
    have "?cp < int (length x)" using True assms(1,2) by simp
    moreover have "END_FIRST_QGRAM c \<le> ?stop" by (simp add: END_FIRST_QGRAM_def)
    ultimately obtain B1 H1 where
      r1: "chain c x ?stop ?cp B ?H = Some (B1, H1)"
      and le1: "tbl_le B B1" and len1: "length B1 = ASIZE c"
      using chain_spec [of c ?stop ?cp x B ?H] less.prems(2) assms(1) by blast
    have "nat (m - (a + 1)) < nat (m - a)" using True by simp
    moreover have "END_FIRST_QGRAM c \<le> a + 1" using less.prems by simp
    ultimately obtain B' where
      r: "hc6_anchors c x m fct (a + 1) B1 = Some B'"
      and le: "tbl_le B1 B'" and len: "length B' = ASIZE c"
      using less.hyps [of "a + 1" B1] len1 by blast
    have e: "hc6_anchors c x m fct a B = Some B'"
      using True hs r1 r by (subst hc6_anchors.simps) simp
    from e le1 le len show ?thesis using tbl_le_trans by blast
  qed
qed

lemma hc6_fill_spec:
  assumes "END_FIRST_QGRAM c \<le> p" "stop < int (length x)" "length B = ASIZE c"
  shows "\<exists>B'. hc6_fill c x stop p B = Some B' \<and> tbl_le B B' \<and> length B' = ASIZE c
           \<and> (\<forall>p'. p \<le> p' \<and> p' \<le> stop \<longrightarrow> B' ! slot c (anv c x p') \<noteq> 0)"
  using assms(1,3)
proof (induction "nat (stop + 1 - p)" arbitrary: p B rule: less_induct)
  case less
  show ?case
  proof (cases "p \<le> stop")
    case False
    then show ?thesis
      using less.prems by (subst hc6_fill.simps) (auto simp add: tbl_le_refl)
  next
    case True
    let ?F = "anv c x p"
    let ?B1 = "if B ! slot c ?F = 0 then B[slot c ?F := LINK_HASH (chv c x p XOR 0xFF)] else B"
    have hs: "ANCHOR_HASH c x p = Some ?F"
      using True less.prems assms(2) by (simp add: ANCHOR_HASH_eq)
    have hc: "CHAIN_HASH c x p = Some (chv c x p)"
      using True less.prems assms(2) by (simp add: CHAIN_HASH_eq)
    have sl: "slot c ?F < length B" using less.prems slot_less by simp
    have le0: "tbl_le B ?B1" by (simp add: tbl_le_refl tbl_le_set_zero)
    have nz: "?B1 ! slot c ?F \<noteq> 0" using sl LINK_HASH_nonzero by simp
    have len1: "length ?B1 = ASIZE c" using less.prems by simp
    have "nat (stop + 1 - (p + 1)) < nat (stop + 1 - p)" using True by simp
    moreover have "END_FIRST_QGRAM c \<le> p + 1" using less.prems by simp
    ultimately obtain B' where
      r: "hc6_fill c x stop (p + 1) ?B1 = Some B'" and le: "tbl_le ?B1 B'"
      and len: "length B' = ASIZE c"
      and f: "\<forall>p'. p + 1 \<le> p' \<and> p' \<le> stop \<longrightarrow> B' ! slot c (anv c x p') \<noteq> 0"
      using less.hyps [of "p + 1" ?B1] len1 by blast
    have e: "hc6_fill c x stop p B = Some B'"
      using True hs hc r by (subst hc6_fill.simps) (cases "B ! slot c ?F = 0"; simp)
    have sl1: "slot c ?F < length ?B1" using sl by simp
    from le sl1 nz have nz': "B' ! slot c ?F \<noteq> 0" by (rule tbl_le_nonzero)
    have "B' ! slot c (anv c x p') \<noteq> 0" if "p \<le> p' \<and> p' \<le> stop" for p'
    proof (cases "p' = p")
      case True
      with nz' show ?thesis by simp
    next
      case False
      with that f show ?thesis by simp
    qed
    with e le0 le len show ?thesis using tbl_le_trans by blast
  qed
qed

text \<open>What \<open>rolling_preprocessing\<close> returns.\<close>

lemma rolling_preprocessing_spec:
  assumes "0 < Q c" "m = int (length x)" "int (Q c) \<le> m"
  shows "\<exists>B. rolling_preprocessing c x m
               = Some (B, roll_from c x (anv c x (m - 1)) (m - 1 - int (Q c))
                            (passes c (END_FIRST_QGRAM c) (m - 1 - int (Q c))))
           \<and> length B = ASIZE c
           \<and> (\<forall>p. END_FIRST_QGRAM c \<le> p \<and> p < min m (END_SECOND_QGRAM c)
                 \<longrightarrow> B ! slot c (anv c x p) \<noteq> 0)
           \<and> (\<forall>a i. END_SECOND_QGRAM c \<le> a \<and> a < m
                 \<and> max (END_FIRST_QGRAM c) (a - int (Q c) - CHAIN_LENGTH c)
                     \<le> a - int (Q c) - int i * int (Q c)
               \<longrightarrow> linked c B (roll_from c x (anv c x a) (a - int (Q c)) i)
                            (roll_from c x (anv c x a) (a - int (Q c)) (Suc i)))"
proof -
  let ?E = "END_FIRST_QGRAM c"
  have e2: "?E \<le> END_SECOND_QGRAM c"
    by (simp add: END_FIRST_QGRAM_def END_SECOND_QGRAM_def Q2_def)
  have len0: "length (replicate (ASIZE c) (0::u32)) = ASIZE c" by simp
  obtain B1 where
    r1: "anchors c x m (END_SECOND_QGRAM c) (replicate (ASIZE c) 0) = Some B1"
    and len1: "length B1 = ASIZE c"
    and lk1: "\<forall>a i. END_SECOND_QGRAM c \<le> a \<and> a < m
                 \<and> max ?E (a - int (Q c) - CHAIN_LENGTH c) \<le> a - int (Q c) - int i * int (Q c)
               \<longrightarrow> linked c B1 (roll_from c x (anv c x a) (a - int (Q c)) i)
                            (roll_from c x (anv c x a) (a - int (Q c)) (Suc i))"
    using anchors_spec [where c=c and m=m and x=x and a="END_SECOND_QGRAM c"
        and B="replicate (ASIZE c) 0"] assms(1,2) e2 by auto
  obtain B where
    r2: "fill c x (min m (END_SECOND_QGRAM c)) ?E B1 = Some B"
    and le2: "tbl_le B1 B" and len2: "length B = ASIZE c"
    and nz: "\<forall>p. ?E \<le> p \<and> p < min m (END_SECOND_QGRAM c) \<longrightarrow> B ! slot c (anv c x p) \<noteq> 0"
    using fill_spec [where c=c and p="?E" and stop="min m (END_SECOND_QGRAM c)" and x=x
        and B=B1] len1 assms(2) by auto
  have r3: "ANCHOR_HASH c x (m - 1) = Some (anv c x (m - 1))"
    using assms by (simp add: ANCHOR_HASH_eq END_FIRST_QGRAM_def)
  have r4: "total_hash c x (m - 1 - int (Q c)) (anv c x (m - 1))
              = Some (roll_from c x (anv c x (m - 1)) (m - 1 - int (Q c))
                            (passes c ?E (m - 1 - int (Q c))))"
    using assms by (intro total_hash_spec) simp_all
  have "rolling_preprocessing c x m
               = Some (B, roll_from c x (anv c x (m - 1)) (m - 1 - int (Q c))
                            (passes c ?E (m - 1 - int (Q c))))"
    by (simp add: rolling_preprocessing_def r1 r2 r3 r4)
  moreover have "linked c B (roll_from c x (anv c x a) (a - int (Q c)) i)
                            (roll_from c x (anv c x a) (a - int (Q c)) (Suc i))"
    if "END_SECOND_QGRAM c \<le> a \<and> a < m
                 \<and> max ?E (a - int (Q c) - CHAIN_LENGTH c) \<le> a - int (Q c) - int i * int (Q c)"
    for a i
    using tbl_le_linked [OF le2 len1] lk1 that by blast
  ultimately show ?thesis using len2 nz by blast
qed

lemma hc6_preprocessing_spec:
  assumes "m = int (length x)" "int (Q hc6) \<le> m"
  shows "\<exists>B Hm. hc6_preprocessing x m = Some (B, Hm) \<and> length B = ASIZE hc6
           \<and> (\<forall>p. END_FIRST_QGRAM hc6 \<le> p \<and> p < min m (END_SECOND_QGRAM hc6)
                 \<longrightarrow> B ! slot hc6 (anv hc6 x p) \<noteq> 0)"
proof -
  let ?c = hc6
  let ?E = "END_FIRST_QGRAM ?c"
  have q: "0 < Q ?c" by (simp add: params_simps)
  have e2: "?E \<le> 2 * int (Q ?c) - 1" by (simp add: END_FIRST_QGRAM_def)
  have len0: "length (replicate (ASIZE ?c) (0::u32)) = ASIZE ?c" by simp
  let ?fct = "if m < rollingHashLimit ?c then m else rollingHashLimit ?c"
  let ?stop = "if m < 2 * int (Q ?c) then m - 1 else 2 * int (Q ?c) - 1"
  obtain B1 where
    r1: "hc6_anchors ?c x m ?fct (2 * int (Q ?c) - 1) (replicate (ASIZE ?c) 0) = Some B1"
    and len1: "length B1 = ASIZE ?c"
    using hc6_anchors_spec [where c="?c" and m=m and x=x and a="2 * int (Q ?c) - 1"
        and B="replicate (ASIZE ?c) 0" and fct="?fct"] q e2 assms(1) by auto
  have r2: "ANCHOR_HASH ?c x (m - 1) = Some (anv ?c x (m - 1))"
    using assms by (simp add: ANCHOR_HASH_eq END_FIRST_QGRAM_def)
  have "m - 1 - int (Q ?c) < int (length x)" using assms by simp
  then obtain B2 H2 where
    r3: "chain ?c x (int (Q ?c) - 1) (m - 1 - int (Q ?c)) B1 (anv ?c x (m - 1)) = Some (B2, H2)"
    and len2: "length B2 = ASIZE ?c"
    using chain_spec [where c="?c" and stop="int (Q ?c) - 1" and cp="m - 1 - int (Q ?c)"
        and x=x and B=B1 and H="anv ?c x (m - 1)"] q len1
    by (auto simp add: END_FIRST_QGRAM_def)
  have "?stop < int (length x)" using assms by simp
  then obtain B where
    r4: "hc6_fill ?c x ?stop (int (Q ?c) - 1) B2 = Some B"
    and len: "length B = ASIZE ?c"
    and nz: "\<forall>p. int (Q ?c) - 1 \<le> p \<and> p \<le> ?stop \<longrightarrow> B ! slot ?c (anv ?c x p) \<noteq> 0"
    using hc6_fill_spec [where c="?c" and p="int (Q ?c) - 1" and stop="?stop" and x=x
        and B=B2] len2
    by (auto simp add: END_FIRST_QGRAM_def)
  have "hc6_preprocessing x m = Some (B, H2)"
    by (simp add: hc6_preprocessing_def r1 r2 r3 r4)
  moreover have "B ! slot ?c (anv ?c x p) \<noteq> 0"
    if "?E \<le> p \<and> p < min m (END_SECOND_QGRAM ?c)" for p
    using nz that by (auto simp add: END_FIRST_QGRAM_def END_SECOND_QGRAM_def Q2_def)
  ultimately show ?thesis using len by blast
qed


subsection \<open>The failure table of the linear files\<close>

lemma border_trans:
  assumes "border x j t" "border x t v" "v \<le> t" "0 \<le> v"
  shows "border x j v"
  unfolding border_def
proof (intro allI impI)
  fix k assume k: "0 \<le> k \<and> k < v"
  have "byte_at x k = byte_at x (t - v + k)" using assms(2) k by (simp add: border_def)
  also have "\<dots> = byte_at x (j - t + (t - v + k))"
    using assms(1,3) k by (simp add: border_def)
  finally show "byte_at x k = byte_at x (j - v + k)" by (simp add: algebra_simps)
qed

lemma border_extend:
  assumes "border x j t" "byte_at x j = byte_at x t" "0 \<le> t"
  shows "border x (j + 1) (t + 1)"
  unfolding border_def
proof (intro allI impI)
  fix k assume k: "0 \<le> k \<and> k < t + 1"
  show "byte_at x k = byte_at x (j + 1 - (t + 1) + k)"
  proof (cases "k = t")
    case True
    with assms(2) show ?thesis by simp
  next
    case False
    with k assms(1) show ?thesis by (simp add: border_def)
  qed
qed

lemma border_neg: "v \<le> 0 \<Longrightarrow> border x i v"
  by (auto simp add: border_def)

lemma border_restrict:
  assumes "border x j t" "border x j w" "w \<le> t"
  shows "border x t w"
  unfolding border_def
proof (intro allI impI)
  fix k assume k: "0 \<le> k \<and> k < w"
  have "byte_at x (t - w + k) = byte_at x (j - t + (t - w + k))"
    using assms(1,3) k by (simp add: border_def)
  also have "\<dots> = byte_at x (j - w + k)" by (simp add: algebra_simps)
  also have "\<dots> = byte_at x k" using assms(2) k by (simp add: border_def)
  finally show "byte_at x k = byte_at x (t - w + k)" by simp
qed

lemma border_shrink:
  assumes "border x (j + 1) w" "1 \<le> w"
  shows "border x j (w - 1) \<and> byte_at x (w - 1) = byte_at x j"
proof
  show "border x j (w - 1)"
    unfolding border_def
  proof (intro allI impI)
    fix k assume k: "0 \<le> k \<and> k < w - 1"
    then have "byte_at x k = byte_at x (j + 1 - w + k)" using assms(1) by (simp add: border_def)
    then show "byte_at x k = byte_at x (j - (w - 1) + k)" by (simp add: algebra_simps)
  qed
  have "byte_at x (w - 1) = byte_at x (j + 1 - w + (w - 1))"
    using assms by (simp add: border_def)
  then show "byte_at x (w - 1) = byte_at x j" by simp
qed

lemma kmp_fallback_spec:
  assumes "m \<le> int (length x)" "0 \<le> j" "j < m" "tab_inv x m KMP j"
    and "- 1 \<le> t" "t < j" "border x j t"
    and "\<forall>w. t < w \<and> w < j \<and> border x j w \<longrightarrow> byte_at x w \<noteq> byte_at x j"
  shows "\<exists>t1. kmp_fallback x KMP j t = Some t1 \<and> - 1 \<le> t1 \<and> t1 \<le> t \<and> border x j t1
           \<and> (0 \<le> t1 \<longrightarrow> byte_at x j = byte_at x t1)
           \<and> (\<forall>w. t1 < w \<and> w < j \<and> border x j w \<longrightarrow> byte_at x w \<noteq> byte_at x j)"
  using assms(5-8)
proof (induction "nat (t + 1)" arbitrary: t rule: less_induct)
  case less
  show ?case
  proof (cases "t > - 1")
    case False
    with less.prems show ?thesis by (subst kmp_fallback.simps) simp
  next
    case True
    have rj: "rd x j = Some (byte_at x j)" using assms(1-3) by (simp add: rd_eq)
    have rt: "rd x t = Some (byte_at x t)" using True less.prems assms(1-3) by (simp add: rd_eq)
    show ?thesis
    proof (cases "byte_at x j = byte_at x t")
      case True
      with rj rt \<open>t > - 1\<close> less.prems show ?thesis by (subst kmp_fallback.simps) simp
    next
      case False
      have "0 \<le> t \<and> t \<le> j" using True less.prems by simp
      with assms(4) obtain v where
        v: "rdk KMP t = Some v" "tab_ok x m t v"
        unfolding tab_inv_def by blast
      then have vb: "- 1 \<le> v" "v < t" "border x t v" by (simp_all add: tab_ok_def)
      from v(2) have vm: "\<forall>w. v < w \<and> w < t \<and> border x t w \<longrightarrow> byte_at x w = byte_at x t"
        by (simp add: tab_ok_def)
      have mx: "\<forall>w. v < w \<and> w < j \<and> border x j w \<longrightarrow> byte_at x w \<noteq> byte_at x j"
      proof (intro allI impI)
        fix w assume w: "v < w \<and> w < j \<and> border x j w"
        consider "t < w" | "w = t" | "w < t" by linarith
        then show "byte_at x w \<noteq> byte_at x j"
        proof cases
          case 1
          with w less.prems(4) show ?thesis by blast
        next
          case 2
          with False show ?thesis by simp
        next
          case 3
          with w less.prems(3) have "border x t w" by (intro border_restrict [of x j t w]) simp_all
          with w 3 vm have "byte_at x w = byte_at x t" by blast
          with False show ?thesis by simp
        qed
      qed
      have bv: "border x j v"
      proof (cases "0 \<le> v")
        case True
        with less.prems(3) vb show ?thesis by (intro border_trans [of x j t v]) simp_all
      next
        case False
        then show ?thesis by (simp add: border_neg)
      qed
      have "nat (v + 1) < nat (t + 1)" using vb True by simp
      moreover have "v < j" using vb less.prems by simp
      ultimately obtain t1 where
        r: "kmp_fallback x KMP j v = Some t1" "- 1 \<le> t1" "t1 \<le> v" "border x j t1"
          "0 \<le> t1 \<longrightarrow> byte_at x j = byte_at x t1"
          "\<forall>w. t1 < w \<and> w < j \<and> border x j w \<longrightarrow> byte_at x w \<noteq> byte_at x j"
        using less.hyps [of v] vb bv mx by blast
      have "kmp_fallback x KMP j t = Some t1"
        using True rj rt False v r(1) by (subst kmp_fallback.simps) simp
      with r vb show ?thesis by auto
    qed
  qed
qed

lemma rdk_update:
  "0 \<le> j \<Longrightarrow> j < int (length KMP) \<Longrightarrow>
     rdk (KMP[nat j := Some v]) i = (if i = j then Some v else rdk KMP i)"
  by (auto simp add: rdk_def nth_list_update)

lemma tab_inv_update:
  assumes "tab_inv x m KMP j" "0 \<le> j" "j < m" "tab_ok x m (j + 1) v"
  shows "tab_inv x m (KMP[nat (j + 1) := Some v]) (j + 1)"
  unfolding tab_inv_def
proof (intro conjI allI impI)
  show "int (length (KMP[nat (j + 1) := Some v])) = m + 1"
    using assms(1) by (simp add: tab_inv_def)
  fix i assume i: "0 \<le> i \<and> i \<le> j + 1"
  have l: "j + 1 < int (length KMP)" using assms(1,3) by (simp add: tab_inv_def)
  show "\<exists>w. rdk (KMP[nat (j + 1) := Some v]) i = Some w \<and> tab_ok x m i w"
  proof (cases "i = j + 1")
    case True
    with l assms(2,4) show ?thesis by (simp add: rdk_update)
  next
    case False
    with i have "0 \<le> i \<and> i \<le> j" by simp
    with assms(1) obtain w where "rdk KMP i = Some w" "tab_ok x m i w"
      unfolding tab_inv_def by blast
    with False l assms(2) show ?thesis by (simp add: rdk_update)
  qed
qed

lemma pre_kmp_loop_spec:
  assumes "m \<le> int (length x)"
    and "0 \<le> j" "j \<le> m" "tab_inv x m KMP j" "- 1 \<le> t" "t < j" "border x j t"
    and "\<forall>w. t < w \<and> w < j \<longrightarrow> \<not> border x j w"
  shows "\<exists>KMP'. pre_kmp_loop x m KMP j t = Some KMP' \<and> tab_inv x m KMP' m"
  using assms(2-8)
proof (induction "nat (m - j)" arbitrary: j t KMP rule: less_induct)
  case less
  show ?case
  proof (cases "j < m")
    case False
    with less.prems have "j = m" by simp
    with less.prems show ?thesis by (subst pre_kmp_loop.simps) simp
  next
    case True
    have "\<forall>w. t < w \<and> w < j \<and> border x j w \<longrightarrow> byte_at x w \<noteq> byte_at x j"
      using less.prems(7) by blast
    from kmp_fallback_spec [OF assms(1) less.prems(1) True less.prems(3,4,5,6) this] obtain t1 where
      f: "kmp_fallback x KMP j t = Some t1" "- 1 \<le> t1" "t1 \<le> t" "border x j t1"
        "0 \<le> t1 \<longrightarrow> byte_at x j = byte_at x t1"
      and fm: "\<forall>w. t1 < w \<and> w < j \<and> border x j w \<longrightarrow> byte_at x w \<noteq> byte_at x j"
      by blast
    let ?j = "j + 1" and ?t = "t1 + 1"
    have tj: "0 \<le> ?t" "?t < ?j" "?t \<le> j" using f less.prems by simp_all
    have lg: "\<forall>w. ?t < w \<and> w < ?j \<longrightarrow> \<not> border x ?j w"
    proof (intro allI impI notI)
      fix w assume w: "?t < w \<and> w < ?j" and b: "border x ?j w"
      from w tj have "1 \<le> w" by simp
      from border_shrink [OF b this] have "border x j (w - 1)" "byte_at x (w - 1) = byte_at x j"
        by simp_all
      moreover have "t1 < w - 1 \<and> w - 1 < j" using w by simp
      ultimately show False using fm by blast
    qed
    have b': "border x ?j ?t"
    proof (cases "0 \<le> t1")
      case True
      with f show ?thesis by (intro border_extend) simp_all
    next
      case False
      then show ?thesis by (simp add: border_neg)
    qed
    let ?same = "?j < m \<and> byte_at x ?j = byte_at x ?t"
    have same: "(if ?j < m then do { a \<leftarrow> rd x ?j; b \<leftarrow> rd x ?t; Some (a = b) } else Some False)
                  = Some ?same"
      using tj assms(1) less.prems True by (simp add: rd_eq)
    have l: "0 \<le> ?j" "?j < int (length KMP)"
      using less.prems True by (simp_all add: tab_inv_def)
    obtain w where w: "rdk KMP ?t = Some w" "tab_ok x m ?t w"
      using less.prems(3) tj unfolding tab_inv_def by blast
    let ?v = "if ?same then w else ?t"
    have wr: "(if ?same then do { v \<leftarrow> rdk KMP ?t; wrk KMP ?j v } else wrk KMP ?j ?t)
                = Some (KMP[nat ?j := Some ?v])"
      using l w by (simp add: wrk_def)
    have ok: "tab_ok x m ?j ?v"
    proof (cases ?same)
      case False
      then have "?v = ?t" by auto
      moreover have "tab_ok x m ?j ?t"
        using tj b' False lg by (auto simp add: tab_ok_def)
      ultimately show ?thesis by simp
    next
      case True
      then have v: "?v = w" by auto
      from w have wb: "- 1 \<le> w" "w < ?t" "border x ?t w"
        "0 \<le> w \<and> ?t < m \<longrightarrow> byte_at x w \<noteq> byte_at x ?t"
        and wm: "\<forall>u. w < u \<and> u < ?t \<and> border x ?t u \<longrightarrow> byte_at x u = byte_at x ?t"
        by (simp_all add: tab_ok_def)
      have mx: "\<forall>u. w < u \<and> u < ?j \<and> border x ?j u \<longrightarrow> ?j < m \<and> byte_at x u = byte_at x ?j"
      proof (intro allI impI)
        fix u assume u: "w < u \<and> u < ?j \<and> border x ?j u"
        consider "?t < u" | "u = ?t" | "u < ?t" by linarith
        then show "?j < m \<and> byte_at x u = byte_at x ?j"
        proof cases
          case 1
          with u lg show ?thesis by blast
        next
          case 2
          with True show ?thesis by simp
        next
          case 3
          with u b' have "border x ?t u" by (intro border_restrict [of x ?j ?t u]) simp_all
          with u 3 wm have "byte_at x u = byte_at x ?t" by blast
          with True show ?thesis by simp
        qed
      qed
      have "border x ?j w"
      proof (cases "0 \<le> w")
        case True
        with b' wb show ?thesis by (intro border_trans [of x ?j ?t w]) simp_all
      next
        case False
        then show ?thesis by (simp add: border_neg)
      qed
      moreover have "0 \<le> w \<longrightarrow> byte_at x w \<noteq> byte_at x ?j"
        using wb True tj \<open>j < m\<close> by auto
      ultimately show ?thesis using wb tj mx unfolding v tab_ok_def by simp
    qed
    have inv': "tab_inv x m (KMP[nat ?j := Some ?v]) ?j"
      using less.prems(3,1) True ok by (rule tab_inv_update)
    have "nat (m - ?j) < nat (m - j)" using True by simp
    moreover have "?j \<le> m" using True by simp
    moreover have "- 1 \<le> ?t" using tj by simp
    ultimately obtain KMP' where
      r: "pre_kmp_loop x m (KMP[nat ?j := Some ?v]) ?j ?t = Some KMP'" "tab_inv x m KMP' m"
      using less.hyps [of ?j "KMP[nat ?j := Some ?v]" ?t] l(1) inv' tj b' lg by blast
    have "pre_kmp_loop x m KMP j t = Some KMP'"
      by (subst pre_kmp_loop.simps) (simp only: True if_True f(1) same wr r(1) bind.bind_lunit)
    with r show ?thesis by blast
  qed
qed

lemma pre_kmp_spec:
  assumes "m \<le> int (length x)" "0 \<le> m" "int (length KMP0) = m + 1"
  shows "\<exists>KMP. pre_kmp x m KMP0 = Some KMP \<and> tab_inv x m KMP m"
proof -
  let ?K0 = "KMP0[nat 0 := Some (- 1)]"
  have w0: "wrk KMP0 0 (- 1) = Some ?K0"
    using assms(2,3) by (simp add: wrk_def)
  have l0: "0 < length KMP0" using assms(2,3) by linarith
  have "tab_inv x m ?K0 0"
    unfolding tab_inv_def
  proof (intro conjI allI impI)
    show "int (length ?K0) = m + 1" using assms(3) by simp
    fix i :: int assume "0 \<le> i \<and> i \<le> 0"
    then have i: "i = 0" by simp
    have "rdk ?K0 0 = Some (- 1)" using l0 by (simp add: rdk_def)
    moreover have "tab_ok x m 0 (- 1)" by (auto simp add: tab_ok_def border_neg)
    ultimately show "\<exists>v. rdk ?K0 i = Some v \<and> tab_ok x m i v" unfolding i by blast
  qed
  then obtain KMP where "pre_kmp_loop x m ?K0 0 (- 1) = Some KMP" "tab_inv x m KMP m"
    using pre_kmp_loop_spec [OF assms(1), of 0 ?K0 "- 1"] assms(2) by (auto simp add: border_neg)
  then show ?thesis by (simp add: pre_kmp_def w0)
qed

text \<open>Bytes and their promoted values.\<close>

lemma ucast_byte_eq_iff: "(ucast (a :: byte) :: u32) = ucast b \<longleftrightarrow> a = b"
proof
  assume h: "(ucast a :: u32) = ucast b"
  have "bit a n = bit b n" for n
  proof (cases "n < 8")
    case True
    from h have "bit (ucast a :: u32) n = bit (ucast b :: u32) n" by simp
    with True show ?thesis by (simp add: bit_ucast_iff)
  next
    case False
    then show ?thesis by (simp add: bit_word_iff_drop_bit_and [of a] bit_imp_le_length [of a n] impossible_bit)
  qed
  then show "a = b" by (simp add: bit_eq_iff)
qed simp

lemma border_slice:
  assumes "0 \<le> v" "v \<le> i" "i \<le> int (length x)"
  shows "border x i v \<longleftrightarrow> slice x 0 v = slice x (i - v) i"
proof
  assume b: "border x i v"
  show "slice x 0 v = slice x (i - v) i"
  proof (rule nth_equalityI)
    show "length (slice x 0 v) = length (slice x (i - v) i)"
      using assms by (simp add: slice_def)
    fix k assume "k < length (slice x 0 v)"
    then have k: "int k < v" using assms by (simp add: slice_def)
    with b have "byte_at x (int k) = byte_at x (i - v + int k)" by (simp add: border_def)
    then have "x ! k = x ! nat (i - v + int k)"
      by (simp add: byte_at_def ucast_byte_eq_iff)
    moreover have "nat (i - v + int k) = nat (i - v) + k" using assms by (simp add: nat_add_distrib)
    ultimately show "slice x 0 v ! k = slice x (i - v) i ! k"
      using k assms by (simp add: slice_def)
  qed
next
  assume s: "slice x 0 v = slice x (i - v) i"
  show "border x i v"
    unfolding border_def
  proof (intro allI impI)
    fix k assume k: "0 \<le> k \<and> k < v"
    from s have "slice x 0 v ! nat k = slice x (i - v) i ! nat k" by simp
    moreover have "nat (i - v + k) = nat (i - v) + nat k" using assms k by (simp add: nat_add_distrib)
    ultimately have "x ! nat k = x ! nat (i - v + k)"
      using k assms by (simp add: slice_def)
    then show "byte_at x k = byte_at x (i - v + k)" by (simp add: byte_at_def)
  qed
qed

subsection \<open>The chain walk\<close>

lemma walk_spec:
  assumes "0 < Q c" "END_SECOND_QGRAM c \<le> limit" "p < int (length y)"
  shows "\<exists>w. walk c B y limit p H (B ! slot c H) = Some w \<and> walk_post c B y limit p H w"
  using assms(3)
proof (induction "nat (p - limit + 1)" arbitrary: p H rule: less_induct)
  case less
  show ?case
  proof (cases "limit \<le> p")
    case False
    then show ?thesis
      by (subst walk.simps) (simp add: walk_post_def passes_0)
  next
    case True
    let ?q = "int (Q c)"
    let ?h = "chv c y (p - ?q)"
    let ?H1 = "ROLL c H ?h"
    have hs: "CHAIN_HASH c y (p - ?q) = Some ?h"
      using True assms(1,2) less.prems
      by (simp add: CHAIN_HASH_eq END_FIRST_QGRAM_def END_SECOND_QGRAM_def Q2_def)
    have ps: "passes c limit p = Suc (passes c limit (p - ?q))"
      using assms(1) True by (rule passes_Suc)
    have r1: "roll_from c y H (p - ?q) (Suc 0) = ?H1" by simp
    have sh: "roll_from c y H (p - ?q) (Suc i) = roll_from c y ?H1 (p - ?q - ?q) i" for i
      by (rule roll_from_shift)
    show ?thesis
    proof (cases "linked c B H ?H1")
      case False
      then have "walk c B y limit p H (B ! slot c H) = Some (Shift (p - ?q))"
        using True hs by (subst walk.simps) (simp add: linked_def)
      moreover have "walk_post c B y limit p H (Shift (p - ?q))"
        unfolding walk_post_def chain_walk.case
      proof (intro exI [of _ 0] conjI)
        show "0 < passes c limit p" using ps by simp
        show "p - ?q = p - int (Suc 0) * ?q" by simp
        show "\<forall>i. i < 0 \<longrightarrow> linked c B (roll_from c y H (p - ?q) i)
                                   (roll_from c y H (p - ?q) (Suc i))" by simp
        show "\<not> linked c B (roll_from c y H (p - ?q) 0) (roll_from c y H (p - ?q) (Suc 0))"
          using False by simp
      qed
      ultimately show ?thesis by blast
    next
      case lk: True
      have "nat (p - ?q - limit + 1) < nat (p - limit + 1)" using True assms(1) by simp
      moreover have "p - ?q < int (length y)" using less.prems by simp
      ultimately obtain w where
        r: "walk c B y limit (p - ?q) ?H1 (B ! slot c ?H1) = Some w"
        and post: "walk_post c B y limit (p - ?q) ?H1 w"
        using less.hyps [of "p - ?q" ?H1] by blast
      have e: "walk c B y limit p H (B ! slot c H) = Some w"
        using True hs lk r by (subst walk.simps) (simp add: linked_def)
      have "walk_post c B y limit p H w"
      proof (cases w)
        case (Shift p')
        with post obtain k where
          k: "k < passes c limit (p - ?q)" "p' = p - ?q - int (Suc k) * ?q"
          and a: "\<forall>i. i < k \<longrightarrow> linked c B (roll_from c y ?H1 (p - ?q - ?q) i)
                                   (roll_from c y ?H1 (p - ?q - ?q) (Suc i))"
          and f: "\<not> linked c B (roll_from c y ?H1 (p - ?q - ?q) k)
                              (roll_from c y ?H1 (p - ?q - ?q) (Suc k))"
          unfolding walk_post_def by auto
        have a': "linked c B (roll_from c y H (p - ?q) i) (roll_from c y H (p - ?q) (Suc i))"
          if "i < Suc k" for i
        proof (cases i)
          case 0
          with lk show ?thesis by simp
        next
          case (Suc i')
          with that a have "linked c B (roll_from c y ?H1 (p - ?q - ?q) i')
                                   (roll_from c y ?H1 (p - ?q - ?q) (Suc i'))" by simp
          then show ?thesis unfolding Suc sh .
        qed
        have f': "\<not> linked c B (roll_from c y H (p - ?q) (Suc k))
                              (roll_from c y H (p - ?q) (Suc (Suc k)))"
          using f unfolding sh .
        show ?thesis
          unfolding walk_post_def Shift chain_walk.case
        proof (intro exI [of _ "Suc k"] conjI)
          show "Suc k < passes c limit p" using k ps by simp
          show "p' = p - int (Suc (Suc k)) * ?q" using k by (simp add: algebra_simps)
          show "\<forall>i. i < Suc k \<longrightarrow> linked c B (roll_from c y H (p - ?q) i)
                                   (roll_from c y H (p - ?q) (Suc i))" using a' by blast
          show "\<not> linked c B (roll_from c y H (p - ?q) (Suc k))
                              (roll_from c y H (p - ?q) (Suc (Suc k)))" by (rule f')
        qed
      next
        case (Verify p' H')
        let ?K = "passes c limit (p - ?q)"
        from post Verify have
          k: "p' = p - ?q - int ?K * ?q" "H' = roll_from c y ?H1 (p - ?q - ?q) ?K"
          and a: "\<forall>i. i < ?K \<longrightarrow> linked c B (roll_from c y ?H1 (p - ?q - ?q) i)
                                   (roll_from c y ?H1 (p - ?q - ?q) (Suc i))"
          unfolding walk_post_def by auto
        have a': "linked c B (roll_from c y H (p - ?q) i) (roll_from c y H (p - ?q) (Suc i))"
          if "i < Suc ?K" for i
        proof (cases i)
          case 0
          with lk show ?thesis by simp
        next
          case (Suc i')
          with that a have "linked c B (roll_from c y ?H1 (p - ?q - ?q) i')
                                   (roll_from c y ?H1 (p - ?q - ?q) (Suc i'))" by simp
          then show ?thesis unfolding Suc sh .
        qed
        show ?thesis
          unfolding walk_post_def Verify chain_walk.case ps
        proof (intro conjI)
          show "p' = p - int (Suc ?K) * ?q" using k by (simp add: algebra_simps)
          show "H' = roll_from c y H (p - ?q) (Suc ?K)" using k unfolding sh by simp
          show "\<forall>i. i < Suc ?K \<longrightarrow> linked c B (roll_from c y H (p - ?q) i)
                                   (roll_from c y H (p - ?q) (Suc i))" using a' by blast
        qed
      qed
      with e show ?thesis by blast
    qed
  qed
qed

lemma walk_post_Shift:
  assumes "0 < Q c" "walk_post c B y limit p H (Shift p')"
  shows "limit - int (Q c) \<le> p' \<and> p' \<le> p - int (Q c)"
proof -
  from assms(2) obtain k where k: "k < passes c limit p" "p' = p - int (Suc k) * int (Q c)"
    unfolding walk_post_def by auto
  define d where "d = int k * int (Q c)"
  from k(1) have "limit \<le> p - d" using assms(1) by (simp add: passes_iff d_def)
  moreover have "0 \<le> d" by (simp add: d_def)
  moreover have "p' = p - d - int (Q c)" using k(2) by (simp add: d_def algebra_simps)
  ultimately show ?thesis by simp
qed

lemma walk_post_Verify:
  assumes "0 < Q c" "walk_post c B y limit p H (Verify p' H')"
  shows "p' < limit \<and> p' \<le> p"
proof -
  let ?K = "passes c limit p"
  from assms(2) have k: "p' = p - int ?K * int (Q c)"
    unfolding walk_post_def by auto
  define d where "d = int ?K * int (Q c)"
  have "\<not> limit \<le> p - d" using passes_iff [OF assms(1), of ?K limit p] by (simp add: d_def)
  moreover have "0 \<le> d" by (simp add: d_def)
  moreover have "p' = p - d" using k by (simp add: d_def)
  ultimately show ?thesis by simp
qed

lemma memcmp_eq_Some:
  "0 \<le> start \<Longrightarrow> 0 \<le> m \<Longrightarrow> start + m \<le> int (length y) \<Longrightarrow> m \<le> int (length x) \<Longrightarrow>
     memcmp_eq y start x m = Some (take (nat m) (drop (nat start) y) = take (nat m) x)"
  by (simp add: memcmp_eq_def)

subsection \<open>Bounded loops\<close>

lemma bounded_loop_exit:
  assumes step: "\<And>s. I s \<Longrightarrow> b s \<Longrightarrow> \<exists>s'. f s = Some s' \<and> I s' \<and> \<mu> s' < (\<mu> s :: nat)"
  shows "I s \<Longrightarrow> \<mu> s \<le> k \<Longrightarrow> \<exists>t. bounded_loop k b f s = Some t \<and> \<not> b t \<and> I t"
proof (induction k arbitrary: s)
  case 0
  show ?case
  proof (cases "b s")
    case True
    with step [OF "0.prems"(1)] "0.prems"(2) show ?thesis by auto
  next
    case False
    with "0.prems" show ?thesis by simp
  qed
next
  case (Suc k)
  show ?case
  proof (cases "b s")
    case False
    with Suc.prems show ?thesis by simp
  next
    case True
    from step [OF Suc.prems(1) True] obtain s' where
      s': "f s = Some s'" "I s'" "\<mu> s' < \<mu> s" by blast
    with Suc.prems have "\<mu> s' \<le> k" by simp
    from Suc.IH [OF s'(2) this] obtain t where
      "bounded_loop k b f s' = Some t" "\<not> b t" "I t" by blast
    with True s' show ?thesis by simp
  qed
qed

lemma base_loop_bounded:
  "bounded_loop k (\<lambda>s. pos s < n) (base_iteration c B Hm x m y) s = Some t
     \<Longrightarrow> base_loop c B Hm x m y n s = Some (count t)"
proof (induction k arbitrary: s)
  case 0
  then show ?case by (subst base_loop.simps) (simp split: if_splits)
next
  case (Suc k)
  show ?case
  proof (cases "pos s < n")
    case False
    with Suc.prems show ?thesis by (subst base_loop.simps) simp
  next
    case True
    with Suc.prems obtain s' where
      s': "base_iteration c B Hm x m y s = Some s'"
        "bounded_loop k (\<lambda>s. pos s < n) (base_iteration c B Hm x m y) s' = Some t"
      by (auto split: Option.bind_splits)
    from Suc.IH [OF s'(2)] s'(1) True show ?thesis by (subst base_loop.simps) simp
  qed
qed

subsection \<open>One pass of the scanner of \<^verbatim>\<open>hc3.c\<close>\<close>

lemma base_iteration_progress:
  assumes "0 < Q c" "int (Q c) \<le> m" "m = int (length x)" "n = int (length y)"
    and "m - 1 \<le> pos s" "pos s < n"
  shows "\<exists>s'. base_iteration c B Hm x m y s = Some s' \<and> pos s + 1 \<le> pos s'
           \<and> pos s' \<le> n + m
           \<and> count s \<le> count s' \<and> count s' \<le> count s + 1"
proof -
  let ?p = "pos s"
  let ?H = "anv c y ?p"
  have hs: "ANCHOR_HASH c y ?p = Some ?H"
    using assms by (simp add: ANCHOR_HASH_eq END_FIRST_QGRAM_def)
  show ?thesis
  proof (cases "B ! slot c ?H = 0")
    case True
    then have "base_iteration c B Hm x m y s = Some (s\<lparr>pos := ?p + MQ1 c m\<rparr>)"
      by (simp add: base_iteration_def hs)
    then show ?thesis using assms(1,2,6) by (simp add: MQ1_def)
  next
    case False
    let ?limit = "?p - m + Q2 c"
    have "END_SECOND_QGRAM c \<le> ?limit" using assms(5) by (simp add: END_SECOND_QGRAM_def)
    with walk_spec [OF assms(1), of ?limit ?p y B ?H] assms(4,6) obtain w where
      w: "walk c B y ?limit ?p ?H (B ! slot c ?H) = Some w" "walk_post c B y ?limit ?p ?H w"
      by auto
    show ?thesis
    proof (cases w)
      case (Shift p')
      with w(2) assms(1) have "?limit - int (Q c) \<le> p'" using walk_post_Shift by blast
      moreover have "base_iteration c B Hm x m y s = Some (s\<lparr>pos := p' + MQ1 c m\<rparr>)"
        using False w(1) Shift by (simp add: base_iteration_def hs)
      moreover have "p' \<le> ?p"
        using w(2) assms(1) Shift walk_post_Shift [of c B y ?limit ?p ?H p'] by simp
      ultimately show ?thesis using assms(1,6) by (simp add: MQ1_def Q2_def)
    next
      case (Verify p' H')
      let ?start = "?p - m + Q2 c - int (Q c) - END_FIRST_QGRAM c"
      have st: "?start = ?p - m + 1" by (simp add: Q2_def END_FIRST_QGRAM_def)
      have "memcmp_eq y ?start x m
              = Some (take (nat m) (drop (nat ?start) y) = take (nat m) x)"
        unfolding st using assms by (intro memcmp_eq_Some) simp_all
      then obtain hit where
        hit: "(if H' = Hm then memcmp_eq y ?start x m else Some False) = Some hit"
        by (cases "H' = Hm") simp_all
      have "base_iteration c B Hm x m y s
              = Some (s\<lparr>pos := ?p - m + Q2 c - int (Q c) + MQ1 c m,
                        count := (if hit then count s + 1 else count s)\<rparr>)"
        using False w(1) Verify hit by (simp add: base_iteration_def hs)
      then show ?thesis using assms(2,6) by (simp add: MQ1_def Q2_def)
    qed
  qed
qed

lemma base_loop_total:
  assumes "0 < Q c" "int (Q c) \<le> m" "m = int (length x)" "n = int (length y)"
  shows "\<exists>t. bounded_loop (nat n) (\<lambda>s. pos s < n) (base_iteration c B Hm x m y) (scanner_init m)
                = Some t
           \<and> base_loop c B Hm x m y n (scanner_init m) = Some (count t) \<and> 0 \<le> count t"
proof -
  let ?I = "\<lambda>s. m - 1 \<le> pos s \<and> 0 \<le> count s"
  let ?\<mu> = "\<lambda>s. nat (n - pos s)"
  have step: "\<exists>s'. base_iteration c B Hm x m y s = Some s' \<and> ?I s' \<and> ?\<mu> s' < ?\<mu> s"
    if "?I s" "pos s < n" for s
  proof -
    from base_iteration_progress [OF assms, of s B Hm] that obtain s' where
      "base_iteration c B Hm x m y s = Some s'" "pos s + 1 \<le> pos s'" "count s \<le> count s'"
      by blast
    with that show ?thesis by auto
  qed
  have i0: "?I (scanner_init m)" by (simp add: scanner_init_def)
  have m0: "?\<mu> (scanner_init m) \<le> nat n" using assms(1,2) by (simp add: scanner_init_def)
  from bounded_loop_exit [of ?I "\<lambda>s. pos s < n" "base_iteration c B Hm x m y" ?\<mu>,
      OF step i0 m0]
  obtain t where
    t: "bounded_loop (nat n) (\<lambda>s. pos s < n) (base_iteration c B Hm x m y) (scanner_init m) = Some t"
      "?I t"
    by blast
  from base_loop_bounded [OF t(1)] t show ?thesis by blast
qed

subsection \<open>Preprocessing without a rolling hash\<close>

lemma anv_eq_chv: "S1 c = S3 c \<Longrightarrow> anv c x p = chv c x p"
  by (simp add: anv_def chv_def)

text \<open>Every position from \<open>2Q - 1\<close> on lies on one of the \<open>Q\<close> chains.\<close>

lemma on_a_chain:
  assumes "0 < Q c" "p < m"
  shows "\<exists>cn i. 1 \<le> cn \<and> cn \<le> int (Q c) \<and> p = m - cn - int i * int (Q c)"
proof -
  let ?q = "int (Q c)"
  let ?d = "m - 1 - p"
  have d: "0 \<le> ?d" using assms(2) by simp
  have q: "0 < ?q" using assms(1) by simp
  let ?cn = "?d mod ?q + 1" and ?i = "nat (?d div ?q)"
  have "0 \<le> ?d mod ?q" "?d mod ?q < ?q" using q by simp_all
  moreover have "0 \<le> ?d div ?q" using d q by (simp add: pos_imp_zdiv_nonneg_iff)
  moreover have "?d = ?q * (?d div ?q) + ?d mod ?q" by simp
  ultimately have "1 \<le> ?cn \<and> ?cn \<le> ?q \<and> p = m - ?cn - int ?i * ?q"
    by (simp add: algebra_simps)
  then show ?thesis by blast
qed

lemma plain_preprocessing_spec:
  assumes "0 < Q c" "\<not> rolling c" "S1 c = S3 c" "m = int (length x)"
    and "1 \<le> start" "start \<le> m - END_FIRST_QGRAM c"
  shows "\<exists>B. plain_preprocessing c start x m
               = Some (B, roll_from c x (chv c x (m - 1)) (m - 1 - int (Q c))
                            (passes c (END_FIRST_QGRAM c) (m - 1 - int (Q c))))
           \<and> length B = ASIZE c
           \<and> (\<forall>p. END_FIRST_QGRAM c \<le> p \<and> p < min m (END_SECOND_QGRAM c)
                 \<longrightarrow> B ! slot c (chv c x p) \<noteq> 0)
           \<and> (\<forall>cn i. 1 \<le> cn \<and> cn \<le> start
                 \<and> END_FIRST_QGRAM c \<le> m - cn - int (Suc i) * int (Q c)
               \<longrightarrow> linked c B (chv c x (m - cn - int i * int (Q c)))
                            (chv c x (m - cn - int (Suc i) * int (Q c))))"
proof -
  let ?E = "END_FIRST_QGRAM c"
  let ?Hm = "roll_from c x (chv c x (m - 1)) (m - 1 - int (Q c)) (passes c ?E (m - 1 - int (Q c)))"
  have len0: "length (replicate (ASIZE c) (0::u32)) = ASIZE c" by simp
  have ml: "m \<le> int (length x)" using assms(4) by simp
  from chains_spec [OF assms(1,2) ml assms(6) len0, of 0] assms(5) obtain B1 where
    r1: "chains c x m start (replicate (ASIZE c) 0) 0 = Some (B1, ?Hm)"
    and len1: "length B1 = ASIZE c"
    and lk1: "\<forall>cn i. 1 \<le> cn \<and> cn \<le> start \<and> ?E \<le> m - cn - int (Suc i) * int (Q c)
               \<longrightarrow> linked c B1 (chv c x (m - cn - int i * int (Q c)))
                            (chv c x (m - cn - int (Suc i) * int (Q c)))"
    by auto
  obtain B where
    r2: "fill c x (min m (END_SECOND_QGRAM c)) ?E B1 = Some B"
    and le2: "tbl_le B1 B" and len2: "length B = ASIZE c"
    and nz: "\<forall>p. ?E \<le> p \<and> p < min m (END_SECOND_QGRAM c) \<longrightarrow> B ! slot c (anv c x p) \<noteq> 0"
    using fill_spec [where c=c and p="?E" and stop="min m (END_SECOND_QGRAM c)" and x=x
        and B=B1] len1 assms(4) by auto
  have "plain_preprocessing c start x m = Some (B, ?Hm)"
    by (simp add: plain_preprocessing_def r1 r2)
  moreover have "linked c B (chv c x (m - cn - int i * int (Q c)))
                            (chv c x (m - cn - int (Suc i) * int (Q c)))"
    if "1 \<le> cn \<and> cn \<le> start \<and> ?E \<le> m - cn - int (Suc i) * int (Q c)" for cn i
    using tbl_le_linked [OF le2 len1] lk1 that by blast
  moreover have "\<forall>p. ?E \<le> p \<and> p < min m (END_SECOND_QGRAM c) \<longrightarrow> B ! slot c (chv c x p) \<noteq> 0"
    using nz assms(3) by (simp add: anv_eq_chv)
  ultimately show ?thesis using len2 by blast
qed

text \<open>After preprocessing, the table word of every q-gram of the pattern is non-zero.\<close>

lemma plain_all_nonzero:
  assumes "0 < Q c"
    and nz: "\<forall>p. END_FIRST_QGRAM c \<le> p \<and> p < min m (END_SECOND_QGRAM c)
                 \<longrightarrow> B ! slot c (chv c x p) \<noteq> 0"
    and lk: "\<forall>p. END_SECOND_QGRAM c \<le> p \<and> p < m
                 \<longrightarrow> linked c B (chv c x p) (chv c x (p - int (Q c)))"
    and p: "END_FIRST_QGRAM c \<le> p" "p < m"
  shows "B ! slot c (chv c x p) \<noteq> 0"
proof (cases "p < END_SECOND_QGRAM c")
  case True
  with nz p show ?thesis by simp
next
  case False
  with lk p have "linked c B (chv c x p) (chv c x (p - int (Q c)))" by simp
  then show ?thesis by (rule linked_nonzero)
qed

lemma plain_links_all:
  assumes "0 < Q c"
    and lk: "\<forall>cn i. 1 \<le> cn \<and> cn \<le> int (Q c)
                 \<and> END_FIRST_QGRAM c \<le> m - cn - int (Suc i) * int (Q c)
               \<longrightarrow> linked c B (chv c x (m - cn - int i * int (Q c)))
                            (chv c x (m - cn - int (Suc i) * int (Q c)))"
    and p: "END_SECOND_QGRAM c \<le> p" "p < m"
  shows "linked c B (chv c x p) (chv c x (p - int (Q c)))"
proof -
  from on_a_chain [OF assms(1) p(2)] obtain cn i where
    ci: "1 \<le> cn" "cn \<le> int (Q c)" "p = m - cn - int i * int (Q c)" by blast
  have e: "m - cn - int (Suc i) * int (Q c) = p - int (Q c)"
    using ci(3) by (simp add: algebra_simps)
  have "END_FIRST_QGRAM c \<le> p - int (Q c)"
    using p(1) by (simp add: END_FIRST_QGRAM_def END_SECOND_QGRAM_def Q2_def)
  then have "END_FIRST_QGRAM c \<le> m - cn - int (Suc i) * int (Q c)" unfolding e .
  with lk ci(1,2) have "linked c B (chv c x (m - cn - int i * int (Q c)))
                            (chv c x (m - cn - int (Suc i) * int (Q c)))" by blast
  then show ?thesis unfolding e ci(3) [symmetric] .
qed

lemma guarded_preprocessing_spec:
  assumes "0 < Q c" "\<not> rolling c" "S1 c = S3 c" "m = int (length x)" "int (Q c) \<le> m"
  shows "\<exists>B H. guarded_preprocessing c x m = Some (B, H) \<and> length B = ASIZE c
           \<and> (\<forall>p. END_FIRST_QGRAM c \<le> p \<and> p < min m (END_SECOND_QGRAM c)
                 \<longrightarrow> B ! slot c (chv c x p) \<noteq> 0)
           \<and> (\<forall>p. END_SECOND_QGRAM c \<le> p \<and> p < m
                 \<longrightarrow> linked c B (chv c x p) (chv c x (p - int (Q c))))"
proof -
  let ?start = "if m < Q2 c then m - END_FIRST_QGRAM c else int (Q c)"
  have s: "1 \<le> ?start" "?start \<le> m - END_FIRST_QGRAM c"
    using assms(1,5) by (auto simp add: END_FIRST_QGRAM_def Q2_def)
  from plain_preprocessing_spec [OF assms(1-4) s] obtain B H where
    r: "plain_preprocessing c ?start x m = Some (B, H)" and len: "length B = ASIZE c"
    and nz: "\<forall>p. END_FIRST_QGRAM c \<le> p \<and> p < min m (END_SECOND_QGRAM c)
                 \<longrightarrow> B ! slot c (chv c x p) \<noteq> 0"
    and lk: "\<forall>cn i. 1 \<le> cn \<and> cn \<le> ?start
                 \<and> END_FIRST_QGRAM c \<le> m - cn - int (Suc i) * int (Q c)
               \<longrightarrow> linked c B (chv c x (m - cn - int i * int (Q c)))
                            (chv c x (m - cn - int (Suc i) * int (Q c)))"
    by blast
  have "linked c B (chv c x p) (chv c x (p - int (Q c)))"
    if p: "END_SECOND_QGRAM c \<le> p \<and> p < m" for p
  proof -
    from p have "\<not> m < Q2 c" by (simp add: END_SECOND_QGRAM_def)
    then have "?start = int (Q c)" by simp
    with lk have "\<forall>cn i. 1 \<le> cn \<and> cn \<le> int (Q c)
                 \<and> END_FIRST_QGRAM c \<le> m - cn - int (Suc i) * int (Q c)
               \<longrightarrow> linked c B (chv c x (m - cn - int i * int (Q c)))
                            (chv c x (m - cn - int (Suc i) * int (Q c)))" by simp
    from plain_links_all [OF assms(1) this] p show ?thesis by blast
  qed
  with r len nz show ?thesis unfolding guarded_preprocessing_def by blast
qed

subsection \<open>The scanner of \<^verbatim>\<open>whc3.c\<close>\<close>

lemma weaker_loop_bounded:
  "bounded_loop k (\<lambda>s. pos s < n) (weaker_iteration c B x m y) s = Some t
     \<Longrightarrow> weaker_loop c B x m y n s = Some (count t)"
proof (induction k arbitrary: s)
  case 0
  then show ?case by (subst weaker_loop.simps) (simp split: if_splits)
next
  case (Suc k)
  show ?case
  proof (cases "pos s < n")
    case False
    with Suc.prems show ?thesis by (subst weaker_loop.simps) simp
  next
    case True
    with Suc.prems obtain s' where
      s': "weaker_iteration c B x m y s = Some s'"
        "bounded_loop k (\<lambda>s. pos s < n) (weaker_iteration c B x m y) s' = Some t"
      by (auto split: Option.bind_splits)
    from Suc.IH [OF s'(2)] s'(1) True show ?thesis by (subst weaker_loop.simps) simp
  qed
qed

lemma weaker_iteration_progress:
  assumes "0 < Q c" "int (Q c) \<le> m" "m = int (length x)" "n = int (length y)"
    and "m - 1 \<le> pos s" "pos s < n"
  shows "\<exists>s'. weaker_iteration c B x m y s = Some s' \<and> pos s + 1 \<le> pos s'
           \<and> pos s' \<le> n + m
           \<and> count s \<le> count s' \<and> count s' \<le> count s + 1"
proof -
  let ?p = "pos s"
  let ?H = "chv c y ?p"
  have hs: "CHAIN_HASH c y ?p = Some ?H"
    using assms by (simp add: CHAIN_HASH_eq END_FIRST_QGRAM_def)
  show ?thesis
  proof (cases "B ! slot c ?H = 0")
    case True
    then have "weaker_iteration c B x m y s = Some (s\<lparr>pos := ?p + MQ1 c m\<rparr>)"
      by (simp add: weaker_iteration_def hs)
    then show ?thesis using assms(1,2,6) by (simp add: MQ1_def)
  next
    case False
    let ?limit = "max (?p - m + int (Q c)) (rightmost_match_pos s) + int (Q c)"
    have l: "END_SECOND_QGRAM c \<le> ?limit" "?p - m + int (Q c) + int (Q c) \<le> ?limit"
      using assms(5) by (simp_all add: END_SECOND_QGRAM_def Q2_def)
    with walk_spec [OF assms(1), of ?limit ?p y B ?H] assms(4,6) obtain w where
      w: "walk c B y ?limit ?p ?H (B ! slot c ?H) = Some w" "walk_post c B y ?limit ?p ?H w"
      by auto
    show ?thesis
    proof (cases w)
      case (Shift p')
      with w(2) assms(1) have "?limit - int (Q c) \<le> p'" using walk_post_Shift by blast
      moreover have "weaker_iteration c B x m y s
                       = Some (s\<lparr>pos := p' + MQ1 c m, rightmost_match_pos := ?p\<rparr>)"
        using False w(1) Shift by (simp add: weaker_iteration_def hs)
      moreover have "p' \<le> ?p"
        using w(2) assms(1) Shift walk_post_Shift [of c B y ?limit ?p ?H p'] by simp
      ultimately show ?thesis using l(2) assms(1,6) by (simp add: MQ1_def)
    next
      case (Verify p' H')
      let ?start = "?p - m + int (Q c) - END_FIRST_QGRAM c"
      have st: "?start = ?p - m + 1" by (simp add: END_FIRST_QGRAM_def)
      have "memcmp_eq y ?start x m
              = Some (take (nat m) (drop (nat ?start) y) = take (nat m) x)"
        unfolding st using assms by (intro memcmp_eq_Some) simp_all
      then have "weaker_iteration c B x m y s
              = Some (s\<lparr>pos := ?p - m + int (Q c) + MQ1 c m,
                        count := (if take (nat m) (drop (nat ?start) y) = take (nat m) x
                                  then count s + 1 else count s),
                        rightmost_match_pos := ?p\<rparr>)"
        using False w(1) Verify by (simp add: weaker_iteration_def hs)
      then show ?thesis using assms(2,6) by (simp add: MQ1_def)
    qed
  qed
qed

lemma weaker_loop_total:
  assumes "0 < Q c" "int (Q c) \<le> m" "m = int (length x)" "n = int (length y)"
  shows "\<exists>t. bounded_loop (nat n) (\<lambda>s. pos s < n) (weaker_iteration c B x m y) (scanner_init m)
                = Some t
           \<and> weaker_loop c B x m y n (scanner_init m) = Some (count t) \<and> 0 \<le> count t"
proof -
  let ?I = "\<lambda>s. m - 1 \<le> pos s \<and> 0 \<le> count s"
  let ?\<mu> = "\<lambda>s. nat (n - pos s)"
  have step: "\<exists>s'. weaker_iteration c B x m y s = Some s' \<and> ?I s' \<and> ?\<mu> s' < ?\<mu> s"
    if "?I s" "pos s < n" for s
  proof -
    from weaker_iteration_progress [OF assms, of s B] that obtain s' where
      "weaker_iteration c B x m y s = Some s'" "pos s + 1 \<le> pos s'" "count s \<le> count s'"
      by blast
    with that show ?thesis by auto
  qed
  have i0: "?I (scanner_init m)" by (simp add: scanner_init_def)
  have m0: "?\<mu> (scanner_init m) \<le> nat n" using assms(1,2) by (simp add: scanner_init_def)
  from bounded_loop_exit [of ?I "\<lambda>s. pos s < n" "weaker_iteration c B x m y" ?\<mu>,
      OF step i0 m0]
  obtain t where
    t: "bounded_loop (nat n) (\<lambda>s. pos s < n) (weaker_iteration c B x m y) (scanner_init m) = Some t"
      "?I t"
    by blast
  from weaker_loop_bounded [OF t(1)] t show ?thesis by blast
qed

subsection \<open>Verification with the failure table\<close>

lemma match_run_spec:
  assumes "m = int (length x)" "n = int (length y)"
    and "0 \<le> pp" "pp \<le> m" "0 \<le> nv" "nv + (m - pp) \<le> n"
  shows "\<exists>d. match_run x m y pp nv = Some (pp + d, nv + d) \<and> 0 \<le> d \<and> pp + d \<le> m
           \<and> (\<forall>i. 0 \<le> i \<and> i < d \<longrightarrow> byte_at x (pp + i) = byte_at y (nv + i))
           \<and> (pp + d < m \<longrightarrow> byte_at x (pp + d) \<noteq> byte_at y (nv + d))"
  using assms(3-6)
proof (induction "nat (m - pp)" arbitrary: pp nv rule: less_induct)
  case less
  show ?case
  proof (cases "pp < m")
    case False
    with less.prems have "match_run x m y pp nv = Some (pp + 0, nv + 0)"
      by (subst match_run.simps) simp
    with False less.prems show ?thesis by (intro exI [of _ 0]) auto
  next
    case True
    have rx: "rd x pp = Some (byte_at x pp)" using True less.prems assms(1) by (simp add: rd_eq)
    have ry: "rd y nv = Some (byte_at y nv)" using True less.prems assms(2) by (simp add: rd_eq)
    show ?thesis
    proof (cases "byte_at x pp = byte_at y nv")
      case False
      then have "match_run x m y pp nv = Some (pp + 0, nv + 0)"
        using True rx ry by (subst match_run.simps) simp
      with False True less.prems show ?thesis by (intro exI [of _ 0]) auto
    next
      case eq: True
      have "nat (m - (pp + 1)) < nat (m - pp)" using True by simp
      moreover have "0 \<le> pp + 1" "pp + 1 \<le> m" "0 \<le> nv + 1" "nv + 1 + (m - (pp + 1)) \<le> n"
        using True less.prems by simp_all
      ultimately obtain d where
        d: "match_run x m y (pp + 1) (nv + 1) = Some (pp + 1 + d, nv + 1 + d)" "0 \<le> d"
          "pp + 1 + d \<le> m"
          "\<forall>i. 0 \<le> i \<and> i < d \<longrightarrow> byte_at x (pp + 1 + i) = byte_at y (nv + 1 + i)"
          "pp + 1 + d < m \<longrightarrow> byte_at x (pp + 1 + d) \<noteq> byte_at y (nv + 1 + d)"
        using less.hyps [of "pp + 1" "nv + 1"] by blast
      have e: "match_run x m y pp nv = Some (pp + (d + 1), nv + (d + 1))"
        using True rx ry eq d(1) by (subst match_run.simps) (simp add: algebra_simps)
      have a: "byte_at x (pp + i) = byte_at y (nv + i)" if "0 \<le> i \<and> i < d + 1" for i
      proof (cases "i = 0")
        case True
        with eq show ?thesis by simp
      next
        case False
        with that have "0 \<le> i - 1 \<and> i - 1 < d" by simp
        with d(4) have "byte_at x (pp + 1 + (i - 1)) = byte_at y (nv + 1 + (i - 1))" by blast
        then show ?thesis by simp
      qed
      have "pp + (d + 1) < m \<longrightarrow> byte_at x (pp + (d + 1)) \<noteq> byte_at y (nv + (d + 1))"
        using d(5) by (simp add: algebra_simps)
      with e a d(2,3) show ?thesis by (intro exI [of _ "d + 1"]) simp
    qed
  qed
qed

lemma tab_inv_entry:
  assumes "tab_inv x m KMP m" "0 \<le> i" "i \<le> m"
  shows "\<exists>k. rdk KMP i = Some k \<and> - 1 \<le> k \<and> k < i \<and> (i = m \<and> 1 \<le> m \<longrightarrow> 0 \<le> k)"
proof -
  from assms obtain k where k: "rdk KMP i = Some k" "tab_ok x m i k"
    unfolding tab_inv_def by blast
  have "0 \<le> k" if "i = m \<and> 1 \<le> m"
  proof (rule ccontr)
    assume "\<not> 0 \<le> k"
    then have "k < 0 \<and> 0 < i \<and> border x i 0" using that by (simp add: border_neg)
    with k(2) have "i < m" unfolding tab_ok_def by blast
    with that show False by simp
  qed
  with k show ?thesis by (auto simp add: tab_ok_def)
qed

lemma kmp_verify_spec:
  assumes "tab_inv x m KMP m" "m = int (length x)" "n = int (length y)" "ws + m \<le> n"
    and "kmp_state m s" "next_verify_pos s \<le> n"
  shows "\<exists>s'. kmp_verify x m y KMP ws s = Some s' \<and> kmp_state m s'
           \<and> next_verify_pos s' \<le> n
           \<and> ws < next_verify_pos s' - pattern_pos s'
           \<and> pos s' = pos s \<and> rightmost_match_pos s' = rightmost_match_pos s
           \<and> count s \<le> count s'"
  using assms(5,6)
proof (induction "nat (ws - (next_verify_pos s - pattern_pos s) + 1)" arbitrary: s
    rule: less_induct)
  case less
  let ?pp = "pattern_pos s" and ?nv = "next_verify_pos s"
  from less.prems(1) have st: "0 \<le> ?pp" "?pp < m" "?pp \<le> ?nv" by (simp_all add: kmp_state_def)
  show ?case
  proof (cases "?pp \<ge> ?nv - ws")
    case False
    then show ?thesis using less.prems by (subst kmp_verify.simps) simp
  next
    case True
    have nm: "?nv + (m - ?pp) \<le> n" using True assms(4) by simp
    with match_run_spec [OF assms(2,3) st(1), of ?nv] st obtain d where
      d: "match_run x m y ?pp ?nv = Some (?pp + d, ?nv + d)" "0 \<le> d" "?pp + d \<le> m"
      by force
    from tab_inv_entry [OF assms(1), of "?pp + d"] d st obtain k where
      k: "rdk KMP (?pp + d) = Some k" "- 1 \<le> k" "k < ?pp + d"
        "?pp + d = m \<and> 1 \<le> m \<longrightarrow> 0 \<le> k"
      by auto
    let ?s1 = "s\<lparr>count := (if ?pp + d = m then count s + 1 else count s),
                  pattern_pos := (if k < 0 then k + 1 else k),
                  next_verify_pos := (if k < 0 then ?nv + d + 1 else ?nv + d)\<rparr>"
    have st1: "kmp_state m ?s1"
      using k(2,3) d st by (auto simp add: kmp_state_def)
    have nv1: "next_verify_pos ?s1 \<le> n"
    proof (cases "k < 0")
      case True
      with k(4) st have "?pp + d \<noteq> m" by auto
      with d(3) have "d < m - ?pp" by simp
      with nm True show ?thesis by simp
    next
      case False
      with nm d(3) show ?thesis by simp
    qed
    have gt: "?nv - ?pp < next_verify_pos ?s1 - pattern_pos ?s1"
      using k(2,3) d st by auto
    then have "nat (ws - (next_verify_pos ?s1 - pattern_pos ?s1) + 1) < nat (ws - (?nv - ?pp) + 1)"
      using True by simp
    from less.hyps [OF this st1 nv1] obtain s' where
      r: "kmp_verify x m y KMP ws ?s1 = Some s'" "kmp_state m s'"
        "next_verify_pos s' \<le> n"
        "ws < next_verify_pos s' - pattern_pos s'"
        "pos s' = pos ?s1" "rightmost_match_pos s' = rightmost_match_pos ?s1"
        "count ?s1 \<le> count s'"
      by blast
    have "kmp_verify x m y KMP ws s = Some s'"
      by (subst kmp_verify.simps)
        (simp only: True if_True d(1) k(1) bind.bind_lunit fst_conv snd_conv r(1))
    with r show ?thesis by (auto split: if_splits)
  qed
qed

subsection \<open>The scanners of \<^verbatim>\<open>lhc4.c\<close> and \<^verbatim>\<open>lhc3-kmp.c\<close>\<close>

lemma lhc4_loop_bounded:
  "bounded_loop k (\<lambda>s. pos s < n) (lhc4_iteration c B KMP x m y) s = Some t
     \<Longrightarrow> lhc4_loop c B KMP x m y n s = Some (count t)"
proof (induction k arbitrary: s)
  case 0
  then show ?case by (subst lhc4_loop.simps) (simp split: if_splits)
next
  case (Suc k)
  show ?case
  proof (cases "pos s < n")
    case False
    with Suc.prems show ?thesis by (subst lhc4_loop.simps) simp
  next
    case True
    with Suc.prems obtain s' where
      s': "lhc4_iteration c B KMP x m y s = Some s'"
        "bounded_loop k (\<lambda>s. pos s < n) (lhc4_iteration c B KMP x m y) s' = Some t"
      by (auto split: Option.bind_splits)
    from Suc.IH [OF s'(2)] s'(1) True show ?thesis by (subst lhc4_loop.simps) simp
  qed
qed

lemma lhc3_loop_bounded:
  "bounded_loop k (\<lambda>s. pos s < n) (lhc3_iteration c B KMP x m y) s = Some t
     \<Longrightarrow> lhc3_loop c B KMP x m y n s = Some (count t)"
proof (induction k arbitrary: s)
  case 0
  then show ?case by (subst lhc3_loop.simps) (simp split: if_splits)
next
  case (Suc k)
  show ?case
  proof (cases "pos s < n")
    case False
    with Suc.prems show ?thesis by (subst lhc3_loop.simps) simp
  next
    case True
    with Suc.prems obtain s' where
      s': "lhc3_iteration c B KMP x m y s = Some s'"
        "bounded_loop k (\<lambda>s. pos s < n) (lhc3_iteration c B KMP x m y) s' = Some t"
      by (auto split: Option.bind_splits)
    from Suc.IH [OF s'(2)] s'(1) True show ?thesis by (subst lhc3_loop.simps) simp
  qed
qed

lemma restart_kmp_state:
  "kmp_state m s \<Longrightarrow> 0 \<le> ws \<Longrightarrow> 0 < m \<Longrightarrow> kmp_state m (restart_kmp ws s)"
  by (simp add: kmp_state_def restart_kmp_def)

lemma restart_kmp_next:
  "next_verify_pos s \<le> n \<Longrightarrow> ws \<le> n \<Longrightarrow> next_verify_pos (restart_kmp ws s) \<le> n"
  by (simp add: restart_kmp_def)

lemma lhc4_iteration_progress:
  assumes "0 < Q c" "int (Q c) \<le> m" "m = int (length x)" "n = int (length y)"
    and "tab_inv x m KMP m"
    and "m - 1 \<le> pos s" "pos s < n" "kmp_state m s" "next_verify_pos s \<le> n"
  shows "\<exists>s'. lhc4_iteration c B KMP x m y s = Some s' \<and> pos s + 1 \<le> pos s'
           \<and> kmp_state m s' \<and> next_verify_pos s' \<le> n \<and> pos s' \<le> n + m
           \<and> count s \<le> count s'"
proof -
  let ?p = "pos s"
  let ?H = "chv c y ?p"
  have hs: "CHAIN_HASH c y ?p = Some ?H"
    using assms by (simp add: CHAIN_HASH_eq END_FIRST_QGRAM_def)
  show ?thesis
  proof (cases "B ! slot c ?H = 0")
    case True
    then have "lhc4_iteration c B KMP x m y s = Some (s\<lparr>pos := ?p + MQ1 c m\<rparr>)"
      by (simp add: lhc4_iteration_def hs)
    then show ?thesis using assms(1,2,7,8,9) by (simp add: MQ1_def kmp_state_def)
  next
    case False
    let ?limit = "max (?p - m + int (Q c)) (rightmost_match_pos s) + int (Q c)"
    have l: "END_SECOND_QGRAM c \<le> ?limit" "?p - m + int (Q c) + int (Q c) \<le> ?limit"
      using assms(6) by (simp_all add: END_SECOND_QGRAM_def Q2_def)
    with walk_spec [OF assms(1), of ?limit ?p y B ?H] assms(4,7) obtain w where
      w: "walk c B y ?limit ?p ?H (B ! slot c ?H) = Some w" "walk_post c B y ?limit ?p ?H w"
      by auto
    show ?thesis
    proof (cases w)
      case (Shift p')
      with w(2) assms(1) have "?limit - int (Q c) \<le> p'" using walk_post_Shift by blast
      moreover have "lhc4_iteration c B KMP x m y s
                       = Some (s\<lparr>pos := p' + MQ1 c m, rightmost_match_pos := ?p\<rparr>)"
        using False w(1) Shift by (simp add: lhc4_iteration_def hs)
      moreover have "p' \<le> ?p" using w(2) assms(1) Shift walk_post_Shift [of c B y ?limit ?p ?H p']
        by simp
      ultimately show ?thesis using l(2) assms(1,7,8,9) by (simp add: MQ1_def kmp_state_def)
    next
      case (Verify p' H')
      let ?ws = "?p - m + int (Q c) - int (Q c) + 1"
      let ?s0 = "restart_kmp ?ws (s\<lparr>rightmost_match_pos := ?p\<rparr>)"
      have "kmp_state m (s\<lparr>rightmost_match_pos := ?p\<rparr>)"
        using assms(8) by (simp add: kmp_state_def)
      then have st0: "kmp_state m ?s0"
        using assms(1,2,6) by (intro restart_kmp_state) simp_all
      have nv0: "next_verify_pos ?s0 \<le> n"
        using assms(1,2,7,9) by (intro restart_kmp_next) simp_all
      have "?ws + m \<le> n" using assms(7) by simp
      from kmp_verify_spec [OF assms(5,3,4) this st0 nv0] obtain s' where
        r: "kmp_verify x m y KMP ?ws ?s0 = Some s'" "kmp_state m s'"
          "?ws < next_verify_pos s' - pattern_pos s'" "count ?s0 \<le> count s'"
          "next_verify_pos s' \<le> n"
        by blast
      have "lhc4_iteration c B KMP x m y s
              = Some (s'\<lparr>pos := next_verify_pos s' + m - 1 - pattern_pos s'\<rparr>)"
        using False w(1) Verify r(1) by (simp add: lhc4_iteration_def hs)
      moreover have "count s \<le> count s'" using r(4) by (simp add: restart_kmp_def split: if_splits)
      ultimately show ?thesis using r(2,3,5) by (simp add: kmp_state_def)
    qed
  qed
qed

lemma lhc3_iteration_progress:
  assumes "0 < Q c" "int (Q c) \<le> m" "m = int (length x)" "n = int (length y)"
    and "tab_inv x m KMP m"
    and "m - 1 \<le> pos s" "pos s < n" "kmp_state m s" "next_verify_pos s \<le> n"
  shows "\<exists>s'. lhc3_iteration c B KMP x m y s = Some s' \<and> pos s + 1 \<le> pos s'
           \<and> kmp_state m s' \<and> next_verify_pos s' \<le> n \<and> pos s' \<le> n + m
           \<and> count s \<le> count s'"
proof -
  let ?p = "pos s"
  let ?H = "chv c y ?p"
  have hs: "CHAIN_HASH c y ?p = Some ?H"
    using assms by (simp add: CHAIN_HASH_eq END_FIRST_QGRAM_def)
  show ?thesis
  proof (cases "B ! slot c ?H = 0")
    case True
    then have "lhc3_iteration c B KMP x m y s = Some (s\<lparr>pos := ?p + MQ1 c m\<rparr>)"
      by (simp add: lhc3_iteration_def hs)
    then show ?thesis using assms(1,2,7,8,9) by (simp add: MQ1_def kmp_state_def)
  next
    case False
    let ?limit = "max (?p - m + Q2 c) (next_verify_pos s - 1 + int (Q c))"
    have l: "END_SECOND_QGRAM c \<le> ?limit" "?p - m + int (Q c) + int (Q c) \<le> ?limit"
      using assms(6) by (simp_all add: END_SECOND_QGRAM_def Q2_def)
    with walk_spec [OF assms(1), of ?limit ?p y B ?H] assms(4,7) obtain w where
      w: "walk c B y ?limit ?p ?H (B ! slot c ?H) = Some w" "walk_post c B y ?limit ?p ?H w"
      by auto
    show ?thesis
    proof (cases w)
      case (Shift p')
      with w(2) assms(1) have "?limit - int (Q c) \<le> p'" using walk_post_Shift by blast
      moreover have "lhc3_iteration c B KMP x m y s = Some (s\<lparr>pos := p' + MQ1 c m\<rparr>)"
        using False w(1) Shift by (simp add: lhc3_iteration_def hs)
      moreover have "p' \<le> ?p" using w(2) assms(1) Shift walk_post_Shift [of c B y ?limit ?p ?H p']
        by simp
      ultimately show ?thesis using l(2) assms(1,7,8,9) by (simp add: MQ1_def kmp_state_def)
    next
      case (Verify p' H')
      let ?ws = "?p - m + Q2 c - Q2 c + 1"
      let ?s0 = "restart_kmp ?ws s"
      have st0: "kmp_state m ?s0"
        using assms(1,2,6,8) by (intro restart_kmp_state) simp_all
      have nv0: "next_verify_pos ?s0 \<le> n"
        using assms(1,2,7,9) by (intro restart_kmp_next) simp_all
      have "?ws + m \<le> n" using assms(7) by simp
      from kmp_verify_spec [OF assms(5,3,4) this st0 nv0] obtain s' where
        r: "kmp_verify x m y KMP ?ws ?s0 = Some s'" "kmp_state m s'"
          "?ws < next_verify_pos s' - pattern_pos s'" "count ?s0 \<le> count s'"
          "next_verify_pos s' \<le> n"
        by blast
      have "lhc3_iteration c B KMP x m y s
              = Some (s'\<lparr>pos := next_verify_pos s' + m - 1 - pattern_pos s'\<rparr>)"
        using False w(1) Verify r(1) by (simp add: lhc3_iteration_def hs)
      moreover have "count s \<le> count s'" using r(4) by (simp add: restart_kmp_def split: if_splits)
      ultimately show ?thesis using r(2,3,5) by (simp add: kmp_state_def)
    qed
  qed
qed

lemma lhc4_loop_total:
  assumes "0 < Q c" "int (Q c) \<le> m" "m = int (length x)" "n = int (length y)"
    and "tab_inv x m KMP m"
  shows "\<exists>t. bounded_loop (nat n) (\<lambda>s. pos s < n) (lhc4_iteration c B KMP x m y) (scanner_init m)
                = Some t
           \<and> lhc4_loop c B KMP x m y n (scanner_init m) = Some (count t) \<and> 0 \<le> count t"
proof -
  let ?I = "\<lambda>s. m - 1 \<le> pos s \<and> kmp_state m s \<and> next_verify_pos s \<le> n \<and> 0 \<le> count s"
  let ?\<mu> = "\<lambda>s. nat (n - pos s)"
  have step: "\<exists>s'. lhc4_iteration c B KMP x m y s = Some s' \<and> ?I s' \<and> ?\<mu> s' < ?\<mu> s"
    if "?I s" "pos s < n" for s
  proof -
    from lhc4_iteration_progress [OF assms, of s B] that obtain s' where
      "lhc4_iteration c B KMP x m y s = Some s'" "pos s + 1 \<le> pos s'" "kmp_state m s'"
      "next_verify_pos s' \<le> n" "count s \<le> count s'"
      by blast
    with that show ?thesis by auto
  qed
  have i0: "?I (scanner_init m)" using assms(1,2,4) by (simp add: scanner_init_def kmp_state_def)
  have m0: "?\<mu> (scanner_init m) \<le> nat n" using assms(1,2) by (simp add: scanner_init_def)
  from bounded_loop_exit [of ?I "\<lambda>s. pos s < n" "lhc4_iteration c B KMP x m y" ?\<mu>,
      OF step i0 m0]
  obtain t where
    t: "bounded_loop (nat n) (\<lambda>s. pos s < n) (lhc4_iteration c B KMP x m y) (scanner_init m)
          = Some t"
      "?I t"
    by blast
  from lhc4_loop_bounded [OF t(1)] t show ?thesis by blast
qed

lemma lhc3_loop_total:
  assumes "0 < Q c" "int (Q c) \<le> m" "m = int (length x)" "n = int (length y)"
    and "tab_inv x m KMP m"
  shows "\<exists>t. bounded_loop (nat n) (\<lambda>s. pos s < n) (lhc3_iteration c B KMP x m y) (scanner_init m)
                = Some t
           \<and> lhc3_loop c B KMP x m y n (scanner_init m) = Some (count t) \<and> 0 \<le> count t"
proof -
  let ?I = "\<lambda>s. m - 1 \<le> pos s \<and> kmp_state m s \<and> next_verify_pos s \<le> n \<and> 0 \<le> count s"
  let ?\<mu> = "\<lambda>s. nat (n - pos s)"
  have step: "\<exists>s'. lhc3_iteration c B KMP x m y s = Some s' \<and> ?I s' \<and> ?\<mu> s' < ?\<mu> s"
    if "?I s" "pos s < n" for s
  proof -
    from lhc3_iteration_progress [OF assms, of s B] that obtain s' where
      "lhc3_iteration c B KMP x m y s = Some s'" "pos s + 1 \<le> pos s'" "kmp_state m s'"
      "next_verify_pos s' \<le> n" "count s \<le> count s'"
      by blast
    with that show ?thesis by auto
  qed
  have i0: "?I (scanner_init m)" using assms(1,2,4) by (simp add: scanner_init_def kmp_state_def)
  have m0: "?\<mu> (scanner_init m) \<le> nat n" using assms(1,2) by (simp add: scanner_init_def)
  from bounded_loop_exit [of ?I "\<lambda>s. pos s < n" "lhc3_iteration c B KMP x m y" ?\<mu>,
      OF step i0 m0]
  obtain t where
    t: "bounded_loop (nat n) (\<lambda>s. pos s < n) (lhc3_iteration c B KMP x m y) (scanner_init m)
          = Some t"
      "?I t"
    by blast
  from lhc3_loop_bounded [OF t(1)] t show ?thesis by blast
qed

subsection \<open>The results of the scanners\<close>

lemma params_simps_plain:
  "Q whc3 = 3" "S1 whc3 = 3" "S3 whc3 = 3" "\<not> rolling whc3"
  "Q lhc4 = 4" "S1 lhc4 = 3" "S3 lhc4 = 3" "\<not> rolling lhc4"
  "Q lhc3 = 3" "S1 lhc3 = 3" "S3 lhc3 = 3" "\<not> rolling lhc3"
  "Q shc2 = 2" "S1 shc2 = 3" "S3 shc2 = 3" "\<not> rolling shc2"
  "Q thc2 = 2" "S1 thc2 = 3" "S2 thc2 = 4" "S3 thc2 = 1" "ALPHA thc2 = 11" "rolling thc2"
  by (simp_all add: whc3_def lhc4_def lhc3_def shc2_def thc2_def)

text \<open>The count never decreases, whatever the buffers hold.\<close>

lemma base_iteration_count:
  "base_iteration c B Hm x m y s = Some s' \<Longrightarrow> count s \<le> count s'"
  by (auto simp add: base_iteration_def split: Option.bind_splits if_splits chain_walk.splits)

lemma weaker_iteration_count:
  "weaker_iteration c B x m y s = Some s' \<Longrightarrow> count s \<le> count s'"
  by (auto simp add: weaker_iteration_def split: Option.bind_splits if_splits chain_walk.splits)

lemma base_loop_count:
  assumes "base_loop c B Hm x m y n s = Some r"
  shows "count s \<le> r"
proof (rule base_loop.raw_induct [where xa = "(((((((c, B), Hm), x), m), y), n), s)" and ya = r
      and P = "\<lambda>c B Hm x m y n s r. count s \<le> r", simplified])
  show "base_loop c B Hm x m y n s = Some r" by (rule assms)
next
  fix f c B Hm x m y n s r
  assume ih: "\<And>c B Hm x m y n s r. f c B Hm x m y n s = Some r \<Longrightarrow> count s \<le> r"
    and e: "(if pos s < n then base_iteration c B Hm x m y s \<bind> f c B Hm x m y n
             else Some (count s)) = Some r"
  show "count s \<le> r"
  proof (cases "pos s < n")
    case False
    with e show ?thesis by simp
  next
    case True
    with e obtain s' where s': "base_iteration c B Hm x m y s = Some s'"
      "f c B Hm x m y n s' = Some r"
      by (auto split: Option.bind_splits)
    from ih [OF s'(2)] base_iteration_count [OF s'(1)] show ?thesis by simp
  qed
qed

lemma weaker_loop_count:
  assumes "weaker_loop c B x m y n s = Some r"
  shows "count s \<le> r"
proof (rule weaker_loop.raw_induct [where xa = "((((((c, B), x), m), y), n), s)" and ya = r
      and P = "\<lambda>c B x m y n s r. count s \<le> r", simplified])
  show "weaker_loop c B x m y n s = Some r" by (rule assms)
next
  fix f c B x m y n s r
  assume ih: "\<And>c B x m y n s r. f c B x m y n s = Some r \<Longrightarrow> count s \<le> r"
    and e: "(if pos s < n then weaker_iteration c B x m y s \<bind> f c B x m y n
             else Some (count s)) = Some r"
  show "count s \<le> r"
  proof (cases "pos s < n")
    case False
    with e show ?thesis by simp
  next
    case True
    with e obtain s' where s': "weaker_iteration c B x m y s = Some s'"
      "f c B x m y n s' = Some r"
      by (auto split: Option.bind_splits)
    from ih [OF s'(2)] weaker_iteration_count [OF s'(1)] show ?thesis by simp
  qed
qed

lemma hc3_search_count:
  assumes "hc3_search x m y n = Some r" "int (Q hc3) \<le> m"
  shows "0 \<le> r"
proof -
  from assms obtain B Hm where "base_loop hc3 B Hm x m y n (scanner_init m) = Some r"
    by (auto simp add: hc3_search_def rolling_search_def split: Option.bind_splits)
  from base_loop_count [OF this] show ?thesis by (simp add: scanner_init_def)
qed

lemma whc3_search_count:
  assumes "whc3_search x m y n = Some r" "int (Q whc3) \<le> m"
  shows "0 \<le> r"
proof -
  from assms obtain B where "weaker_loop whc3 B x m y n (scanner_init m) = Some r"
    by (auto simp add: whc3_search_def split: Option.bind_splits)
  from weaker_loop_count [OF this] show ?thesis by (simp add: scanner_init_def)
qed

text \<open>The runs on a pattern of length \<open>m \<ge> Q\<close> and a text of length \<open>n\<close>.\<close>

lemma hc3_search_run:
  assumes "m = int (length x)" "n = int (length y)" "int (Q hc3) \<le> m"
  shows "\<exists>B Hm t. hc3_preprocessing x m = Some (B, Hm)
           \<and> bounded_loop (nat n) (\<lambda>s. pos s < n) (base_iteration hc3 B Hm x m y)
                (scanner_init m) = Some t
           \<and> hc3_search x m y n = Some (count t) \<and> 0 \<le> count t"
proof -
  have q: "0 < Q hc3" by (simp add: params_simps)
  from rolling_preprocessing_spec [OF q assms(1,3)] obtain B Hm where
    p: "rolling_preprocessing hc3 x m = Some (B, Hm)" by blast
  from base_loop_total [OF q assms(3,1,2), of B Hm] obtain t where
    t: "bounded_loop (nat n) (\<lambda>s. pos s < n) (base_iteration hc3 B Hm x m y) (scanner_init m)
          = Some t"
      "base_loop hc3 B Hm x m y n (scanner_init m) = Some (count t)" "0 \<le> count t"
    by blast
  have "hc3_search x m y n = Some (count t)"
    using assms(3) p t(2) by (simp add: hc3_search_def rolling_search_def)
  with p t show ?thesis by (auto simp add: hc3_preprocessing_def)
qed

lemma whc3_search_run:
  assumes "m = int (length x)" "n = int (length y)" "int (Q whc3) \<le> m"
  shows "\<exists>B Hm t. guarded_preprocessing whc3 x m = Some (B, Hm)
           \<and> bounded_loop (nat n) (\<lambda>s. pos s < n) (weaker_iteration whc3 B x m y)
                (scanner_init m) = Some t
           \<and> whc3_search x m y n = Some (count t) \<and> 0 \<le> count t"
proof -
  have q: "0 < Q whc3" "\<not> rolling whc3" "S1 whc3 = S3 whc3" by (simp_all add: params_simps_plain)
  from guarded_preprocessing_spec [OF q assms(1,3)] obtain B Hm where
    p: "guarded_preprocessing whc3 x m = Some (B, Hm)" by blast
  from weaker_loop_total [OF q(1) assms(3,1,2), of B] obtain t where
    t: "bounded_loop (nat n) (\<lambda>s. pos s < n) (weaker_iteration whc3 B x m y) (scanner_init m)
          = Some t"
      "weaker_loop whc3 B x m y n (scanner_init m) = Some (count t)" "0 \<le> count t"
    by blast
  have "whc3_search x m y n = Some (count t)"
    using assms(3) p t(2) by (simp add: whc3_search_def)
  with p t show ?thesis by auto
qed

lemma lhc4_search_run:
  assumes "m = int (length x)" "n = int (length y)" "int (Q lhc4) \<le> m"
  shows "\<exists>B Hm KMP t. lhc4_preprocessing x m = Some (B, Hm)
           \<and> pre_kmp x m (replicate (nat (m + 1)) None) = Some KMP \<and> tab_inv x m KMP m
           \<and> bounded_loop (nat n) (\<lambda>s. pos s < n) (lhc4_iteration lhc4 B KMP x m y)
                (scanner_init m) = Some t
           \<and> lhc4_search x m y n = Some (count t) \<and> 0 \<le> count t"
proof -
  have q: "0 < Q lhc4" "\<not> rolling lhc4" "S1 lhc4 = S3 lhc4" by (simp_all add: params_simps_plain)
  from guarded_preprocessing_spec [OF q assms(1,3)] obtain B Hm where
    p: "guarded_preprocessing lhc4 x m = Some (B, Hm)" by blast
  have m0: "0 \<le> m" using assms(1) by simp
  then have "int (length (replicate (nat (m + 1)) (None :: int option))) = m + 1" by simp
  moreover have "m \<le> int (length x)" using assms(1) by simp
  ultimately obtain KMP where
    k: "pre_kmp x m (replicate (nat (m + 1)) None) = Some KMP" "tab_inv x m KMP m"
    using pre_kmp_spec [of m x "replicate (nat (m + 1)) None"] m0 by blast
  from lhc4_loop_total [OF q(1) assms(3,1,2) k(2), of B] obtain t where
    t: "bounded_loop (nat n) (\<lambda>s. pos s < n) (lhc4_iteration lhc4 B KMP x m y) (scanner_init m)
          = Some t"
      "lhc4_loop lhc4 B KMP x m y n (scanner_init m) = Some (count t)" "0 \<le> count t"
    by blast
  have "lhc4_search x m y n = Some (count t)"
    using assms(3) p k(1) t(2) by (simp add: lhc4_search_def lhc4_preprocessing_def)
  with p k t show ?thesis by (auto simp add: lhc4_preprocessing_def)
qed

lemma lhc3_search_run:
  assumes "m = int (length x)" "n = int (length y)" "int (Q lhc3) \<le> m"
  shows "\<exists>B Hm KMP t. guarded_preprocessing lhc3 x m = Some (B, Hm)
           \<and> preKmp x m (replicate (nat (m + 1)) None) = Some KMP \<and> tab_inv x m KMP m
           \<and> bounded_loop (nat n) (\<lambda>s. pos s < n) (lhc3_iteration lhc3 B KMP x m y)
                (scanner_init m) = Some t
           \<and> lhc3_search x m y n = Some (count t) \<and> 0 \<le> count t"
proof -
  have q: "0 < Q lhc3" "\<not> rolling lhc3" "S1 lhc3 = S3 lhc3" by (simp_all add: params_simps_plain)
  from guarded_preprocessing_spec [OF q assms(1,3)] obtain B Hm where
    p: "guarded_preprocessing lhc3 x m = Some (B, Hm)" by blast
  have m0: "0 \<le> m" using assms(1) by simp
  then have "int (length (replicate (nat (m + 1)) (None :: int option))) = m + 1" by simp
  moreover have "m \<le> int (length x)" using assms(1) by simp
  ultimately obtain KMP where
    k: "preKmp x m (replicate (nat (m + 1)) None) = Some KMP" "tab_inv x m KMP m"
    using pre_kmp_spec [of m x "replicate (nat (m + 1)) None"] m0 unfolding preKmp_def by blast
  from lhc3_loop_total [OF q(1) assms(3,1,2) k(2), of B] obtain t where
    t: "bounded_loop (nat n) (\<lambda>s. pos s < n) (lhc3_iteration lhc3 B KMP x m y) (scanner_init m)
          = Some t"
      "lhc3_loop lhc3 B KMP x m y n (scanner_init m) = Some (count t)" "0 \<le> count t"
    by blast
  have "lhc3_search x m y n = Some (count t)"
    using assms(3) p k(1) t(2) by (simp add: lhc3_search_def)
  with p k t show ?thesis by auto
qed

subsection \<open>The scanner of \<^verbatim>\<open>hc4-qverify.c\<close>\<close>

lemma verify_alignments_spec:
  assumes "m = int (length x)" "n = int (length y)" "0 \<le> ps"
  shows "\<exists>r. verify_alignments x m y n l ps cnt = Some r \<and> cnt \<le> r"
  using assms(3)
proof (induction "nat (l + 1 - ps)" arbitrary: ps cnt rule: less_induct)
  case less
  show ?case
  proof (cases "ps \<le> l")
    case False
    then show ?thesis by (subst verify_alignments.simps) simp
  next
    case True
    obtain hit where
      h: "(if ps \<le> n - m then memcmp_eq y ps x m else Some False) = Some hit"
      using less.prems assms(1,2) by (cases "ps \<le> n - m") (simp_all add: memcmp_eq_def)
    have "nat (l + 1 - (ps + 1)) < nat (l + 1 - ps)" using True by simp
    moreover have "0 \<le> ps + 1" using less.prems by simp
    ultimately obtain r where
      r: "verify_alignments x m y n l (ps + 1) (if hit then cnt + 1 else cnt) = Some r"
        "(if hit then cnt + 1 else cnt) \<le> r"
      using less.hyps [of "ps + 1" "if hit then cnt + 1 else cnt"] by blast
    have "verify_alignments x m y n l ps cnt = Some r"
      by (subst verify_alignments.simps) (simp only: True if_True h bind.bind_lunit r(1))
    with r(2) show ?thesis by (auto split: if_splits)
  qed
qed

lemma qverify_iteration_progress:
  assumes "0 < Q c" "int (Q c) \<le> m" "m = int (length x)" "n = int (length y)"
    and "m - 1 \<le> pos s" "pos s < n"
  shows "\<exists>s'. qverify_iteration c B x m y n s = Some s' \<and> pos s + 1 \<le> pos s'
           \<and> pos s' \<le> n + m
           \<and> count s \<le> count s'"
proof -
  let ?p = "pos s"
  let ?H = "chv c y ?p"
  have hs: "CHAIN_HASH c y ?p = Some ?H"
    using assms by (simp add: CHAIN_HASH_eq END_FIRST_QGRAM_def)
  show ?thesis
  proof (cases "B ! slot c ?H = 0")
    case True
    then have "qverify_iteration c B x m y n s = Some (s\<lparr>pos := ?p + MQ1 c m\<rparr>)"
      by (simp add: qverify_iteration_def hs)
    then show ?thesis using assms(1,2,6) by (simp add: MQ1_def)
  next
    case False
    let ?limit = "?p - m + Q2 c"
    have l: "END_SECOND_QGRAM c \<le> ?limit"
      using assms(5) by (simp add: END_SECOND_QGRAM_def)
    with walk_spec [OF assms(1), of ?limit ?p y B ?H] assms(4,6) obtain w where
      w: "walk c B y ?limit ?p ?H (B ! slot c ?H) = Some w" "walk_post c B y ?limit ?p ?H w"
      by auto
    show ?thesis
    proof (cases w)
      case (Shift p')
      with w(2) assms(1) have "?limit - int (Q c) \<le> p'" using walk_post_Shift by blast
      moreover have "qverify_iteration c B x m y n s = Some (s\<lparr>pos := p' + MQ1 c m\<rparr>)"
        using False w(1) Shift by (simp add: qverify_iteration_def hs)
      moreover have "p' \<le> ?p"
        using w(2) assms(1) Shift walk_post_Shift [of c B y ?limit ?p ?H p'] by simp
      ultimately show ?thesis using assms(1,6) by (simp add: MQ1_def Q2_def)
    next
      case (Verify p' H')
      have "0 \<le> ?p - m + Q2 c - int (Q c) - END_FIRST_QGRAM c"
        using assms(5) by (simp add: Q2_def END_FIRST_QGRAM_def)
      from verify_alignments_spec [OF assms(3,4) this, of "?p - m + Q2 c - int (Q c)" "count s"]
      obtain r where
        r: "verify_alignments x m y n (?p - m + Q2 c - int (Q c))
              (?p - m + Q2 c - int (Q c) - END_FIRST_QGRAM c) (count s) = Some r"
          "count s \<le> r"
        by blast
      have "qverify_iteration c B x m y n s
              = Some (s\<lparr>pos := ?p - m + Q2 c - 1 + MQ1 c m, count := r\<rparr>)"
        using False w(1) Verify r(1) by (simp add: qverify_iteration_def hs)
      then show ?thesis using r(2) assms(1,2,6) by (simp add: MQ1_def Q2_def)
    qed
  qed
qed

lemma qverify_loop_bounded:
  "bounded_loop k (\<lambda>s. pos s < n) (qverify_iteration c B x m y n) s = Some t
     \<Longrightarrow> qverify_loop c B x m y n s = Some (count t)"
proof (induction k arbitrary: s)
  case 0
  then show ?case by (subst qverify_loop.simps) (simp split: if_splits)
next
  case (Suc k)
  show ?case
  proof (cases "pos s < n")
    case False
    with Suc.prems show ?thesis by (subst qverify_loop.simps) simp
  next
    case True
    with Suc.prems obtain s' where
      s': "qverify_iteration c B x m y n s = Some s'"
        "bounded_loop k (\<lambda>s. pos s < n) (qverify_iteration c B x m y n) s' = Some t"
      by (auto split: Option.bind_splits)
    from Suc.IH [OF s'(2)] s'(1) True show ?thesis by (subst qverify_loop.simps) simp
  qed
qed

lemma qverify_loop_total:
  assumes "0 < Q c" "int (Q c) \<le> m" "m = int (length x)" "n = int (length y)"
  shows "\<exists>t. bounded_loop (nat n) (\<lambda>s. pos s < n) (qverify_iteration c B x m y n)
                (scanner_init m) = Some t
           \<and> qverify_loop c B x m y n (scanner_init m) = Some (count t) \<and> 0 \<le> count t"
proof -
  let ?I = "\<lambda>s. m - 1 \<le> pos s \<and> 0 \<le> count s"
  let ?\<mu> = "\<lambda>s. nat (n - pos s)"
  have step: "\<exists>s'. qverify_iteration c B x m y n s = Some s' \<and> ?I s' \<and> ?\<mu> s' < ?\<mu> s"
    if "?I s" "pos s < n" for s
  proof -
    from qverify_iteration_progress [OF assms, of s B] that obtain s' where
      "qverify_iteration c B x m y n s = Some s'" "pos s + 1 \<le> pos s'" "count s \<le> count s'"
      by blast
    with that show ?thesis by auto
  qed
  have i0: "?I (scanner_init m)" by (simp add: scanner_init_def)
  have m0: "?\<mu> (scanner_init m) \<le> nat n" using assms(1,2) by (simp add: scanner_init_def)
  from bounded_loop_exit [of ?I "\<lambda>s. pos s < n" "qverify_iteration c B x m y n" ?\<mu>,
      OF step i0 m0]
  obtain t where
    t: "bounded_loop (nat n) (\<lambda>s. pos s < n) (qverify_iteration c B x m y n) (scanner_init m)
          = Some t"
      "?I t"
    by blast
  from qverify_loop_bounded [OF t(1)] t show ?thesis by blast
qed

subsection \<open>The scanner of \<^verbatim>\<open>thc2-1.c\<close> and the copy of the pattern\<close>

lemma hashv_cong:
  "(\<forall>j. 0 \<le> j \<and> j < int k \<longrightarrow> byte_at y (p - j) = byte_at x (p' - j))
     \<Longrightarrow> hashv k y p s = hashv k x p' s"
proof (induction k)
  case 0
  show ?case by simp
next
  case (Suc k)
  have "\<forall>j. 0 \<le> j \<and> j < int k \<longrightarrow> byte_at y (p - j) = byte_at x (p' - j)"
    using Suc.prems by simp
  from Suc.IH [OF this] have "hashv k y p s = hashv k x p' s" .
  moreover have "byte_at y (p - int k) = byte_at x (p' - int k)" using Suc.prems by simp
  ultimately show ?case by simp
qed

lemma copy_pattern_spec:
  assumes "m = int (length x)" "0 \<le> n"
    and "n + m \<le> int (length y)" "0 \<le> i" "i \<le> m"
  shows "copy_pattern x m y n i
           = Some (take (nat (n + i)) y @ drop (nat i) x @ drop (nat (n + m)) y)"
  using assms(3,4,5)
proof (induction "nat (m - i)" arbitrary: i y rule: less_induct)
  case less
  show ?case
  proof (cases "i < m")
    case False
    with less.prems have "i = m" by simp
    then show ?thesis using assms(1) by (subst copy_pattern.simps) simp
  next
    case True
    let ?k = "nat (n + i)"
    let ?y = "y[?k := x ! nat i]"
    have k: "?k < length y" using True less.prems assms(2) by simp
    have sk: "nat (n + (i + 1)) = Suc ?k" using less.prems assms(2) by simp
    have si: "nat (i + 1) = Suc (nat i)" using less.prems by simp
    have len: "n + m \<le> int (length ?y)" using less.prems by simp
    have "nat (m - (i + 1)) < nat (m - i)" using True by simp
    moreover have "0 \<le> i + 1" "i + 1 \<le> m" using True less.prems by simp_all
    ultimately have "copy_pattern x m ?y n (i + 1)
        = Some (take (nat (n + (i + 1))) ?y @ drop (nat (i + 1)) x @ drop (nat (n + m)) ?y)"
      using less.hyps [of "i + 1" ?y] len by blast
    moreover have "take (nat (n + (i + 1))) ?y = take ?k y @ [x ! nat i]"
      unfolding sk using k by (simp add: take_Suc_conv_app_nth)
    moreover have "drop (nat (n + m)) ?y = drop (nat (n + m)) y"
      using True less.prems assms(2) by (simp add: drop_update_cancel)
    moreover have "drop (nat i) x = x ! nat i # drop (nat (i + 1)) x"
      unfolding si using True less.prems assms(1) by (simp add: Cons_nth_drop_Suc)
    ultimately have "copy_pattern x m ?y n (i + 1)
        = Some (take ?k y @ drop (nat i) x @ drop (nat (n + m)) y)"
      by simp
    moreover have "0 \<le> i \<and> i < int (length x) \<and> 0 \<le> n + i \<and> n + i < int (length y)"
      using True less.prems assms(1,2) by simp
    ultimately show ?thesis using True by (subst copy_pattern.simps) simp
  qed
qed

lemma skip_empty_spec:
  assumes "0 < Q c" "int (Q c) \<le> m" "n + m \<le> int (length y)"
    and nz: "\<forall>q. n + int (Q c) - 1 \<le> q \<and> q \<le> n + m - 1 \<longrightarrow> B ! slot c (anv c y q) \<noteq> 0"
    and "int (Q c) - 1 \<le> p" "p \<le> n + m - 1"
  shows "\<exists>p'. skip_empty c B y m p = Some p' \<and> p \<le> p' \<and> p' \<le> n + m - 1
           \<and> B ! slot c (anv c y p') \<noteq> 0"
  using assms(5,6)
proof (induction "nat (n + m - 1 - p)" arbitrary: p rule: less_induct)
  case less
  have hs: "ANCHOR_HASH c y p = Some (anv c y p)"
    using less.prems assms(3) by (intro ANCHOR_HASH_eq) (simp_all add: END_FIRST_QGRAM_def)
  show ?case
  proof (cases "B ! slot c (anv c y p) = 0")
    case False
    then have "skip_empty c B y m p = Some p"
      by (subst skip_empty.simps) (simp add: hs)
    with False less.prems show ?thesis by simp
  next
    case True
    have "\<not> (n + int (Q c) - 1 \<le> p \<and> p \<le> n + m - 1)" using nz True by blast
    with less.prems have lt: "p < n + int (Q c) - 1" by simp
    let ?p = "p + MQ1 c m"
    have a: "int (Q c) - 1 \<le> ?p" "?p \<le> n + m - 1" "p + 1 \<le> ?p"
      using lt less.prems assms(2) by (simp_all add: MQ1_def)
    then have "nat (n + m - 1 - ?p) < nat (n + m - 1 - p)" by simp
    from less.hyps [OF this a(1,2)] obtain p' where
      r: "skip_empty c B y m ?p = Some p'" "?p \<le> p'" "p' \<le> n + m - 1"
        "B ! slot c (anv c y p') \<noteq> 0"
      by blast
    have "skip_empty c B y m p = Some p'"
      using True r(1) by (subst skip_empty.simps) (simp add: hs)
    with r a(3) show ?thesis by simp
  qed
qed

lemma thc_iteration_progress:
  assumes "0 < Q c" "int (Q c) \<le> m" "m = int (length x)" "n + m \<le> int (length y)"
    and nz: "\<forall>q. n + int (Q c) - 1 \<le> q \<and> q \<le> n + m - 1 \<longrightarrow> B ! slot c (anv c y q) \<noteq> 0"
    and "m - 1 \<le> pos s" "pos s < n"
  shows "\<exists>s'. thc_iteration c B Hm x m y n s = Some s' \<and> pos s + 1 \<le> pos s'
           \<and> count s \<le> count s'"
proof -
  have "int (Q c) - 1 \<le> pos s" "pos s \<le> n + m - 1" using assms(2,6,7) by simp_all
  from skip_empty_spec [OF assms(1,2,4) nz this] obtain p where
    p: "skip_empty c B y m (pos s) = Some p" "pos s \<le> p" "p \<le> n + m - 1"
    by blast
  show ?thesis
  proof (cases "p < n")
    case False
    then have "thc_iteration c B Hm x m y n s = Some (s\<lparr>pos := p + MQ1 c m\<rparr>)"
      by (simp add: thc_iteration_def p(1))
    then show ?thesis using p(2) assms(2) by (simp add: MQ1_def)
  next
    case True
    let ?H = "anv c y p"
    have hs: "ANCHOR_HASH c y p = Some ?H"
      using p(2) True assms(2,4,6)
      by (intro ANCHOR_HASH_eq) (simp_all add: END_FIRST_QGRAM_def)
    let ?limit = "p - (m - int (Q c) - int (Q c))"
    have l: "END_SECOND_QGRAM c \<le> ?limit"
      using p(2) assms(6) by (simp add: END_SECOND_QGRAM_def Q2_def)
    have "p < int (length y)" using True assms(2,4) by simp
    from walk_spec [OF assms(1) l this, of B ?H] obtain w where
      w: "walk c B y ?limit p ?H (B ! slot c ?H) = Some w" "walk_post c B y ?limit p ?H w"
      by blast
    show ?thesis
    proof (cases w)
      case (Shift p')
      with w(2) assms(1) have "?limit - int (Q c) \<le> p'" using walk_post_Shift by blast
      moreover have "thc_iteration c B Hm x m y n s = Some (s\<lparr>pos := p' + MQ1 c m\<rparr>)"
        using True w(1) Shift by (simp add: thc_iteration_def p(1) hs)
      ultimately show ?thesis using p(2) by (simp add: MQ1_def)
    next
      case (Verify p' H')
      let ?start = "?limit - int (Q c) - int (Q c) + 1"
      have st: "?start = p - m + 1" by simp
      have "memcmp_eq y ?start x m
              = Some (take (nat m) (drop (nat ?start) y) = take (nat m) x)"
        unfolding st using assms(2,3,4,6) p(2) True by (intro memcmp_eq_Some) simp_all
      then obtain hit where
        hit: "(if H' = Hm then memcmp_eq y ?start x m else Some False) = Some hit"
        by (cases "H' = Hm") simp_all
      have "thc_iteration c B Hm x m y n s
              = Some (s\<lparr>pos := ?limit - int (Q c) + MQ1 c m,
                        count := (if hit then count s + 1 else count s)\<rparr>)"
        using True w(1) Verify hit by (simp add: thc_iteration_def p(1) hs)
      then show ?thesis using p(2) by (simp add: MQ1_def)
    qed
  qed
qed

lemma thc_loop_bounded:
  "bounded_loop k (\<lambda>s. pos s < n) (thc_iteration c B Hm x m y n) s = Some t
     \<Longrightarrow> thc_loop c B Hm x m y n s = Some (count t)"
proof (induction k arbitrary: s)
  case 0
  then show ?case by (subst thc_loop.simps) (simp split: if_splits)
next
  case (Suc k)
  show ?case
  proof (cases "pos s < n")
    case False
    with Suc.prems show ?thesis by (subst thc_loop.simps) simp
  next
    case True
    with Suc.prems obtain s' where
      s': "thc_iteration c B Hm x m y n s = Some s'"
        "bounded_loop k (\<lambda>s. pos s < n) (thc_iteration c B Hm x m y n) s' = Some t"
      by (auto split: Option.bind_splits)
    from Suc.IH [OF s'(2)] s'(1) True show ?thesis by (subst thc_loop.simps) simp
  qed
qed

lemma thc_loop_total:
  assumes "0 < Q c" "int (Q c) \<le> m" "m = int (length x)" "n + m \<le> int (length y)"
    and nz: "\<forall>q. n + int (Q c) - 1 \<le> q \<and> q \<le> n + m - 1 \<longrightarrow> B ! slot c (anv c y q) \<noteq> 0"
  shows "\<exists>t. bounded_loop (nat n) (\<lambda>s. pos s < n) (thc_iteration c B Hm x m y n)
                (scanner_init m) = Some t
           \<and> thc_loop c B Hm x m y n (scanner_init m) = Some (count t) \<and> 0 \<le> count t"
proof -
  let ?I = "\<lambda>s. m - 1 \<le> pos s \<and> 0 \<le> count s"
  let ?\<mu> = "\<lambda>s. nat (n - pos s)"
  have step: "\<exists>s'. thc_iteration c B Hm x m y n s = Some s' \<and> ?I s' \<and> ?\<mu> s' < ?\<mu> s"
    if "?I s" "pos s < n" for s
  proof -
    from thc_iteration_progress [OF assms, of s Hm] that obtain s' where
      "thc_iteration c B Hm x m y n s = Some s'" "pos s + 1 \<le> pos s'" "count s \<le> count s'"
      by blast
    with that show ?thesis by auto
  qed
  have i0: "?I (scanner_init m)" by (simp add: scanner_init_def)
  have m0: "?\<mu> (scanner_init m) \<le> nat n" using assms(1,2) by (simp add: scanner_init_def)
  from bounded_loop_exit [of ?I "\<lambda>s. pos s < n" "thc_iteration c B Hm x m y n" ?\<mu>,
      OF step i0 m0]
  obtain t where
    t: "bounded_loop (nat n) (\<lambda>s. pos s < n) (thc_iteration c B Hm x m y n) (scanner_init m)
          = Some t"
      "?I t"
    by blast
  from thc_loop_bounded [OF t(1)] t show ?thesis by blast
qed

text \<open>After preprocessing, the word of every anchor hash of the pattern is non-zero.\<close>

lemma rolling_all_nonzero:
  assumes "0 < Q c" "m = int (length x)" "int (Q c) \<le> m"
  shows "\<exists>B Hm. rolling_preprocessing c x m = Some (B, Hm)
           \<and> (\<forall>p. END_FIRST_QGRAM c \<le> p \<and> p < m \<longrightarrow> B ! slot c (anv c x p) \<noteq> 0)"
proof -
  from rolling_preprocessing_spec [OF assms] obtain B Hm where
    r: "rolling_preprocessing c x m = Some (B, Hm)"
    and nz: "\<forall>p. END_FIRST_QGRAM c \<le> p \<and> p < min m (END_SECOND_QGRAM c)
                 \<longrightarrow> B ! slot c (anv c x p) \<noteq> 0"
    and lk: "\<forall>a i. END_SECOND_QGRAM c \<le> a \<and> a < m
                 \<and> max (END_FIRST_QGRAM c) (a - int (Q c) - CHAIN_LENGTH c)
                     \<le> a - int (Q c) - int i * int (Q c)
               \<longrightarrow> linked c B (roll_from c x (anv c x a) (a - int (Q c)) i)
                            (roll_from c x (anv c x a) (a - int (Q c)) (Suc i))"
    by blast
  have "B ! slot c (anv c x p) \<noteq> 0" if p: "END_FIRST_QGRAM c \<le> p \<and> p < m" for p
  proof (cases "p < END_SECOND_QGRAM c")
    case True
    with p nz show ?thesis by simp
  next
    case False
    have "0 \<le> CHAIN_LENGTH c" by (simp add: CHAIN_LENGTH_def)
    with False p have "END_SECOND_QGRAM c \<le> p \<and> p < m
        \<and> max (END_FIRST_QGRAM c) (p - int (Q c) - CHAIN_LENGTH c)
            \<le> p - int (Q c) - int 0 * int (Q c)"
      by (simp add: END_SECOND_QGRAM_def END_FIRST_QGRAM_def Q2_def)
    with lk have "linked c B (roll_from c x (anv c x p) (p - int (Q c)) 0)
                            (roll_from c x (anv c x p) (p - int (Q c)) (Suc 0))"
      by blast
    then show ?thesis by (simp add: linked_def) auto
  qed
  with r show ?thesis by blast
qed

lemma thc2_search_run:
  assumes "m = int (length x)" "0 \<le> n" "n + m \<le> int (length y)" "int (Q thc2) \<le> m"
  shows "\<exists>cnt. thc2_search x m y n
                  = Some (cnt, take (nat n) y @ x @ drop (nat (n + m)) y) \<and> 0 \<le> cnt"
proof -
  let ?c = thc2
  let ?y = "take (nat n) y @ x @ drop (nat (n + m)) y"
  have q: "0 < Q ?c" by (simp add: params_simps_plain)
  from rolling_all_nonzero [OF q assms(1,4)] obtain B Hm where
    r: "rolling_preprocessing ?c x m = Some (B, Hm)"
    and nz: "\<forall>p. END_FIRST_QGRAM ?c \<le> p \<and> p < m \<longrightarrow> B ! slot ?c (anv ?c x p) \<noteq> 0"
    by blast
  have cp: "copy_pattern x m y n 0 = Some ?y"
    using copy_pattern_spec [OF assms(1,2,3), of 0] assms(1) by simp
  have ln: "length (take (nat n) y) = nat n" using assms(1,2,3) by simp
  have len: "n + m \<le> int (length ?y)" using assms(1,2,3) by simp
  have bx: "byte_at ?y (n + j) = byte_at x j" if "0 \<le> j \<and> j < m" for j
  proof -
    have "nat (n + j) = nat n + nat j" using that assms(2) by (simp add: nat_add_distrib)
    then have "?y ! nat (n + j) = (x @ drop (nat (n + m)) y) ! nat j"
      using ln by (simp add: nth_append)
    also have "\<dots> = x ! nat j"
    proof -
      have "nat j < length x" using that assms(1) by linarith
      then show ?thesis by (simp add: nth_append)
    qed
    finally show ?thesis by (simp add: byte_at_def)
  qed
  have nz': "\<forall>q. n + int (Q ?c) - 1 \<le> q \<and> q \<le> n + m - 1 \<longrightarrow> B ! slot ?c (anv ?c ?y q) \<noteq> 0"
  proof (intro allI impI)
    fix q
    assume h: "n + int (Q ?c) - 1 \<le> q \<and> q \<le> n + m - 1"
    have "byte_at ?y (q - j) = byte_at x (q - n - j)" if "0 \<le> j \<and> j < int (Q ?c)" for j
      using bx [of "q - n - j"] that h by (simp add: algebra_simps)
    then have "hashv (Q ?c) ?y q (S1 ?c) = hashv (Q ?c) x (q - n) (S1 ?c)"
      by (intro hashv_cong) blast
    then have "anv ?c ?y q = anv ?c x (q - n)" by (simp add: anv_def)
    moreover have "END_FIRST_QGRAM ?c \<le> q - n \<and> q - n < m"
      using h by (simp add: END_FIRST_QGRAM_def)
    ultimately show "B ! slot ?c (anv ?c ?y q) \<noteq> 0" using nz by simp
  qed
  from thc_loop_total [OF q assms(4,1) len nz', of Hm] obtain t :: scanner where
    t: "thc_loop ?c B Hm x m ?y n (scanner_init m) = Some (count t)" "0 \<le> count t"
    by blast
  have "thc2_search x m y n = Some (count t, ?y)"
    using assms(4) r cp t(1) by (simp add: thc2_search_def)
  with t(2) show ?thesis by blast
qed

subsection \<open>The rolling hash forgets its start\<close>

lemma roll_from_add:
  "roll_from c x H cp (i + j)
     = roll_from c x (roll_from c x H cp i) (cp - int i * int (Q c)) j"
  by (induction j) (simp_all add: algebra_simps)

lemma roll_from_cong:
  "(\<forall>i' < i. chv c y (cp - int i' * int (Q c)) = chv c x (cp' - int i' * int (Q c)))
     \<Longrightarrow> roll_from c y H cp i = roll_from c x H cp' i"
  by (induction i) simp_all

lemma word_take_bit_add:
  "take_bit n ((a :: 'a :: len word) + b) = take_bit n (take_bit n a + take_bit n b)"
  by transfer (simp add: take_bit_add)

text \<open>After \<open>i\<close> steps the low \<open>S2 i\<close> bits of the rolling hash do not depend on its start.\<close>

lemma roll_from_low_bits:
  assumes "rolling c"
  shows "take_bit (S2 c * i) (roll_from c x H cp i) = take_bit (S2 c * i) (roll_from c x H' cp i)"
proof (induction i)
  case 0
  show ?case by simp
next
  case (Suc i)
  let ?n = "S2 c * Suc i"
  let ?h = "chv c x (cp - int i * int (Q c))"
  let ?R = "roll_from c x H cp i" and ?R' = "roll_from c x H' cp i"
  have n: "?n - S2 c = S2 c * i" by simp
  have "take_bit ?n (push_bit (S2 c) ?R) = push_bit (S2 c) (take_bit (S2 c * i) ?R)"
    by (simp only: take_bit_push_bit n)
  also have "\<dots> = push_bit (S2 c) (take_bit (S2 c * i) ?R')" by (simp only: Suc.IH)
  also have "\<dots> = take_bit ?n (push_bit (S2 c) ?R')" by (simp only: take_bit_push_bit n)
  finally have e: "take_bit ?n (push_bit (S2 c) ?R) = take_bit ?n (push_bit (S2 c) ?R')" .
  have "take_bit ?n (push_bit (S2 c) ?R + ?h)
          = take_bit ?n (take_bit ?n (push_bit (S2 c) ?R) + take_bit ?n ?h)"
    by (rule word_take_bit_add)
  also have "\<dots> = take_bit ?n (take_bit ?n (push_bit (S2 c) ?R') + take_bit ?n ?h)"
    by (simp only: e)
  also have "\<dots> = take_bit ?n (push_bit (S2 c) ?R' + ?h)"
    by (rule word_take_bit_add [symmetric])
  finally show ?case using assms by (simp add: ROLL_def)
qed

lemma take_bit_le_eq:
  fixes H H' :: u32
  assumes "k \<le> N" "take_bit N H = take_bit N H'"
  shows "take_bit k H = take_bit k H'"
proof -
  have "take_bit k H = take_bit k (take_bit N H)" using assms(1) by (simp add: min_def)
  also have "\<dots> = take_bit k (take_bit N H')" by (simp only: assms(2))
  also have "\<dots> = take_bit k H'" using assms(1) by (simp add: min_def)
  finally show ?thesis .
qed

lemma slot_take_bit:
  assumes "ALPHA c \<le> N" "take_bit N H = take_bit N H'"
  shows "slot c H = slot c H'"
proof -
  have "H AND TABLE_MASK c = take_bit (ALPHA c) H" for H
    by (simp add: TABLE_MASK_def take_bit_eq_mask mask_eq_exp_minus_1)
  then show ?thesis using take_bit_le_eq [OF assms] by (simp add: slot_def)
qed

lemma LINK_HASH_take_bit:
  assumes "5 \<le> N" "take_bit N H = take_bit N H'"
  shows "LINK_HASH H = LINK_HASH H'"
proof -
  have "H AND 0x1F = take_bit 5 H" for H :: u32
    by (simp add: take_bit_eq_mask mask_eq_exp_minus_1)
  then show ?thesis using take_bit_le_eq [OF assms] by (simp add: LINK_HASH_def)
qed

text \<open>
  Preprocessing bounds each chain by \<open>CHAIN_LENGTH\<close>; a link further down the chain of
  an anchor is the link that a later anchor writes at step \<open>t\<close>, when \<open>S2 t\<close> bits cover
  the table index.
\<close>

lemma rolling_links_all:
  assumes "0 < Q c" "rolling c"
    and t: "ALPHA c \<le> S2 c * t" "5 \<le> S2 c * Suc t" "int t * int (Q c) \<le> CHAIN_LENGTH c"
    and lk: "\<forall>a i. END_SECOND_QGRAM c \<le> a \<and> a < m
                 \<and> max (END_FIRST_QGRAM c) (a - int (Q c) - CHAIN_LENGTH c)
                     \<le> a - int (Q c) - int i * int (Q c)
               \<longrightarrow> linked c B (roll_from c x (anv c x a) (a - int (Q c)) i)
                            (roll_from c x (anv c x a) (a - int (Q c)) (Suc i))"
    and a: "a < m" "END_FIRST_QGRAM c \<le> a - int (Q c) - int k * int (Q c)"
  shows "linked c B (roll_from c x (anv c x a) (a - int (Q c)) k)
                    (roll_from c x (anv c x a) (a - int (Q c)) (Suc k))"
proof (cases "k \<le> t")
  case True
  define d where "d = int k * int (Q c)"
  define e where "e = int t * int (Q c)"
  have "d \<le> e" unfolding d_def e_def using True by (intro mult_right_mono) simp_all
  moreover have "0 \<le> d" by (simp add: d_def)
  ultimately have "END_SECOND_QGRAM c \<le> a \<and> a < m
      \<and> max (END_FIRST_QGRAM c) (a - int (Q c) - CHAIN_LENGTH c) \<le> a - int (Q c) - d"
    using a t(3) by (simp add: e_def [symmetric] d_def [symmetric] END_SECOND_QGRAM_def
        END_FIRST_QGRAM_def Q2_def)
  with lk show ?thesis unfolding d_def by blast
next
  case False
  define j where "j = k - t"
  have k: "k = j + t" using False by (simp add: j_def)
  define d where "d = int j * int (Q c)"
  define e where "e = int t * int (Q c)"
  let ?a = "a - d"
  have kq: "int k * int (Q c) = d + e" by (simp add: k d_def e_def algebra_simps)
  have d0: "0 \<le> d" and e0: "0 \<le> e" by (simp_all add: d_def e_def)
  have "END_SECOND_QGRAM c \<le> ?a \<and> ?a < m
      \<and> max (END_FIRST_QGRAM c) (?a - int (Q c) - CHAIN_LENGTH c) \<le> ?a - int (Q c) - e"
    using a t(3) d0 e0 unfolding kq
    by (simp add: e_def [symmetric] END_SECOND_QGRAM_def END_FIRST_QGRAM_def Q2_def)
  with lk have l: "linked c B (roll_from c x (anv c x ?a) (?a - int (Q c)) t)
                            (roll_from c x (anv c x ?a) (?a - int (Q c)) (Suc t))"
    unfolding e_def by blast
  let ?H = "roll_from c x (anv c x a) (a - int (Q c)) j"
  have cp: "a - int (Q c) - int j * int (Q c) = ?a - int (Q c)" by (simp add: d_def)
  have r1: "roll_from c x (anv c x a) (a - int (Q c)) k = roll_from c x ?H (?a - int (Q c)) t"
    unfolding k roll_from_add cp ..
  have "Suc k = j + Suc t" by (simp add: k)
  then have r2: "roll_from c x (anv c x a) (a - int (Q c)) (Suc k)
                   = roll_from c x ?H (?a - int (Q c)) (Suc t)"
    by (simp only: roll_from_add cp)
  have s: "slot c (roll_from c x ?H (?a - int (Q c)) t)
             = slot c (roll_from c x (anv c x ?a) (?a - int (Q c)) t)"
    by (rule slot_take_bit [OF t(1) roll_from_low_bits [OF assms(2)]])
  have f: "LINK_HASH (roll_from c x ?H (?a - int (Q c)) (Suc t))
             = LINK_HASH (roll_from c x (anv c x ?a) (?a - int (Q c)) (Suc t))"
    by (rule LINK_HASH_take_bit [OF t(2) roll_from_low_bits [OF assms(2)]])
  from l show ?thesis unfolding linked_def r1 r2 s f .
qed

lemma hc3_rolling:
  "rolling hc3" "ALPHA hc3 \<le> S2 hc3 * 3" "5 \<le> S2 hc3 * Suc 3"
  "int 3 * int (Q hc3) \<le> CHAIN_LENGTH hc3"
  by (simp_all add: params_simps CHAIN_LENGTH_def)

subsection \<open>The scanner of \<^verbatim>\<open>hc3.c\<close> counts every occurrence once\<close>

lemma occurs_at_byte:
  assumes "occurs_at x y i" "0 \<le> j" "j < int (length x)"
  shows "byte_at y (i + j) = byte_at x j"
proof -
  from assms(1) have i: "0 \<le> i" "i + int (length x) \<le> int (length y)"
    and e: "take (length x) (drop (nat i) y) = x"
    by (simp_all add: occurs_at_def)
  have j: "nat j < length x" using assms(2,3) by linarith
  have "x ! nat j = take (length x) (drop (nat i) y) ! nat j" by (simp only: e)
  also have "\<dots> = drop (nat i) y ! nat j" using j by simp
  also have "\<dots> = y ! (nat i + nat j)" using i j by simp
  also have "nat i + nat j = nat (i + j)" using i assms(2) by (simp add: nat_add_distrib)
  finally show ?thesis by (simp add: byte_at_def)
qed

lemma occurs_at_hashv:
  assumes "occurs_at x y i" "int k - 1 \<le> j" "j < int (length x)"
  shows "hashv k y (i + j) s = hashv k x j s"
proof (rule hashv_cong, intro allI impI)
  fix d
  assume d: "0 \<le> d \<and> d < int k"
  have "byte_at y (i + (j - d)) = byte_at x (j - d)"
    using assms d by (intro occurs_at_byte) simp_all
  then show "byte_at y (i + j - d) = byte_at x (j - d)" by (simp add: algebra_simps)
qed

lemma occurs_at_anv:
  "occurs_at x y i \<Longrightarrow> END_FIRST_QGRAM c \<le> j \<Longrightarrow> j < int (length x)
     \<Longrightarrow> anv c y (i + j) = anv c x j"
  unfolding anv_def END_FIRST_QGRAM_def by (rule occurs_at_hashv)

lemma occurs_at_chv:
  "occurs_at x y i \<Longrightarrow> END_FIRST_QGRAM c \<le> j \<Longrightarrow> j < int (length x)
     \<Longrightarrow> chv c y (i + j) = chv c x j"
  unfolding chv_def END_FIRST_QGRAM_def by (rule occurs_at_hashv)

lemma occurs_at_roll_from:
  assumes "occurs_at x y i" "cp < int (length x)"
    and "k = 0 \<or> END_FIRST_QGRAM c \<le> cp - (int k - 1) * int (Q c)"
  shows "roll_from c y H (i + cp) k = roll_from c x H cp k"
proof (rule roll_from_cong, intro allI impI)
  fix i'
  assume i': "i' < k"
  define d where "d = int i' * int (Q c)"
  define e where "e = (int k - 1) * int (Q c)"
  have "d \<le> e" unfolding d_def e_def using i' by (intro mult_right_mono) simp_all
  moreover have "0 \<le> d" by (simp add: d_def)
  moreover have "END_FIRST_QGRAM c \<le> cp - e" using assms(3) i' by (simp add: e_def)
  ultimately have "END_FIRST_QGRAM c \<le> cp - d" "cp - d < int (length x)"
    using assms(2) by simp_all
  from occurs_at_chv [OF assms(1) this] show
    "chv c y (i + cp - int i' * int (Q c)) = chv c x (cp - int i' * int (Q c))"
    by (simp add: d_def algebra_simps)
qed

text \<open>
  The probes of a walk inside an occurrence: the text position \<open>i + j\<close> is the pattern
  position \<open>j\<close>, and the link at step \<open>k\<close> is in the table as long as the chain stays
  inside the pattern.
\<close>

lemma occurs_at_linked:
  assumes "occurs_at x y i" "j < int (length x)"
    and "END_FIRST_QGRAM c \<le> j - int (Q c) - int k * int (Q c)"
    and lk: "\<forall>a k. a < int (length x) \<and> END_FIRST_QGRAM c \<le> a - int (Q c) - int k * int (Q c)
               \<longrightarrow> linked c B (roll_from c x (anv c x a) (a - int (Q c)) k)
                            (roll_from c x (anv c x a) (a - int (Q c)) (Suc k))"
  shows "linked c B (roll_from c y (anv c y (i + j)) (i + j - int (Q c)) k)
                    (roll_from c y (anv c y (i + j)) (i + j - int (Q c)) (Suc k))"
proof -
  define d where "d = int k * int (Q c)"
  have d0: "0 \<le> d" by (simp add: d_def)
  have j: "END_FIRST_QGRAM c \<le> j" using assms(3) d0 by (simp add: d_def [symmetric])
  have a: "anv c y (i + j) = anv c x j" by (rule occurs_at_anv [OF assms(1) j assms(2)])
  have cp: "i + j - int (Q c) = i + (j - int (Q c))" by simp
  have lt: "j - int (Q c) < int (length x)" using assms(2) by simp
  have "END_FIRST_QGRAM c \<le> j - int (Q c) - (int (Suc k) - 1) * int (Q c)"
    using assms(3) by simp
  then have r2: "roll_from c y H (i + (j - int (Q c))) (Suc k)
                   = roll_from c x H (j - int (Q c)) (Suc k)" for H
    by (intro occurs_at_roll_from [OF assms(1) lt]) simp
  have "k = 0 \<or> END_FIRST_QGRAM c \<le> j - int (Q c) - (int k - 1) * int (Q c)"
  proof (cases k)
    case 0
    then show ?thesis by simp
  next
    case (Suc k')
    have "(int k - 1) * int (Q c) \<le> d" unfolding d_def by (intro mult_right_mono) simp_all
    with assms(3) show ?thesis by (simp add: d_def [symmetric])
  qed
  then have r1: "roll_from c y H (i + (j - int (Q c))) k = roll_from c x H (j - int (Q c)) k"
    for H
    by (rule occurs_at_roll_from [OF assms(1) lt])
  from lk assms(2,3) have "linked c B (roll_from c x (anv c x j) (j - int (Q c)) k)
                            (roll_from c x (anv c x j) (j - int (Q c)) (Suc k))"
    by blast
  then show ?thesis unfolding cp a r1 r2 .
qed

lemma passes_text:
  "passes c (p - m + Q2 c) p = passes c (END_FIRST_QGRAM c) (m - 1 - int (Q c))"
  by (simp add: passes_def Q2_def END_FIRST_QGRAM_def algebra_simps)

text \<open>
  One pass of the main loop from \<open>pos = p\<close>: it leaves \<open>pos\<close> higher, no occurrence ends
  strictly between the old and the new position, and an occurrence that ends at \<open>p\<close> is
  walked to the end, compared and counted.
\<close>

lemma base_iteration_exact:
  assumes q: "0 < Q c" and mq: "int (Q c) \<le> m" and m: "m = int (length x)"
    and n: "n = int (length y)"
    and nz: "\<forall>p. END_FIRST_QGRAM c \<le> p \<and> p < m \<longrightarrow> B ! slot c (anv c x p) \<noteq> 0"
    and lk: "\<forall>a k. a < int (length x) \<and> END_FIRST_QGRAM c \<le> a - int (Q c) - int k * int (Q c)
               \<longrightarrow> linked c B (roll_from c x (anv c x a) (a - int (Q c)) k)
                            (roll_from c x (anv c x a) (a - int (Q c)) (Suc k))"
    and hm: "Hm = roll_from c x (anv c x (m - 1)) (m - 1 - int (Q c))
                    (passes c (END_FIRST_QGRAM c) (m - 1 - int (Q c)))"
    and p: "m - 1 \<le> pos s" "pos s < n"
  shows "\<exists>s'. base_iteration c B Hm x m y s = Some s' \<and> pos s < pos s'
           \<and> (\<forall>e. pos s < e \<and> e < pos s' \<longrightarrow> \<not> occurs_at x y (e - m + 1))
           \<and> (occurs_at x y (pos s - m + 1) \<longrightarrow>
                B ! slot c (anv c y (pos s)) \<noteq> 0
                \<and> (\<exists>p'. walk c B y (pos s - m + Q2 c) (pos s) (anv c y (pos s))
                           (B ! slot c (anv c y (pos s))) = Some (Verify p' Hm))
                \<and> (\<forall>j. j < passes c (pos s - m + Q2 c) (pos s) \<longrightarrow>
                      linked c B (roll_from c y (anv c y (pos s)) (pos s - int (Q c)) j)
                                 (roll_from c y (anv c y (pos s)) (pos s - int (Q c)) (Suc j)))
                \<and> memcmp_eq y (pos s - m + 1) x m = Some True
                \<and> s' = s\<lparr>pos := pos s + 1, count := count s + 1\<rparr>)
           \<and> (\<not> occurs_at x y (pos s - m + 1) \<longrightarrow> count s' = count s)"
proof -
  let ?p = "pos s"
  let ?H = "anv c y ?p"
  have hs: "ANCHOR_HASH c y ?p = Some ?H"
    using mq n p by (simp add: ANCHOR_HASH_eq END_FIRST_QGRAM_def)
  have cover: "?H = anv c x (?p - (e - m + 1)) \<and> B ! slot c ?H \<noteq> 0"
    if o: "occurs_at x y (e - m + 1)" and e: "?p \<le> e" "e \<le> ?p + m - int (Q c)" for e
  proof -
    let ?j = "?p - (e - m + 1)"
    have j: "END_FIRST_QGRAM c \<le> ?j" "?j < int (length x)"
      using e m by (simp_all add: END_FIRST_QGRAM_def)
    from occurs_at_anv [OF o j] have "?H = anv c x ?j" by (simp add: algebra_simps)
    moreover have "B ! slot c (anv c x ?j) \<noteq> 0" using nz j m by simp
    ultimately show ?thesis by simp
  qed
  have link: "linked c B (roll_from c y ?H (?p - int (Q c)) k)
                          (roll_from c y ?H (?p - int (Q c)) (Suc k))"
    if o: "occurs_at x y (e - m + 1)" and e: "?p \<le> e"
      "e \<le> ?p + m - int (Q c) - int (Q c) - int k * int (Q c)" for e k
  proof -
    let ?i = "e - m + 1"
    let ?j = "?p - ?i"
    have j: "?j < int (length x)" "END_FIRST_QGRAM c \<le> ?j - int (Q c) - int k * int (Q c)"
      using e m by (simp_all add: END_FIRST_QGRAM_def)
    from occurs_at_linked [OF o j lk] show ?thesis by (simp add: algebra_simps)
  qed
  show ?thesis
  proof (cases "B ! slot c ?H = 0")
    case True
    have r: "base_iteration c B Hm x m y s = Some (s\<lparr>pos := ?p + MQ1 c m\<rparr>)"
      using True by (simp add: base_iteration_def hs)
    have no: "\<not> occurs_at x y (e - m + 1)" if "?p \<le> e" "e < ?p + MQ1 c m" for e
      using cover [of e] that True by (auto simp add: MQ1_def)
    have "\<not> occurs_at x y (?p - m + 1)" using no [of ?p] mq by (simp add: MQ1_def)
    moreover have "\<forall>e. ?p < e \<and> e < ?p + MQ1 c m \<longrightarrow> \<not> occurs_at x y (e - m + 1)"
      using no by simp
    ultimately show ?thesis using r mq by (simp add: MQ1_def)
  next
    case False
    let ?limit = "?p - m + Q2 c"
    have "END_SECOND_QGRAM c \<le> ?limit" using p(1) by (simp add: END_SECOND_QGRAM_def)
    with walk_spec [OF q, of ?limit ?p y B ?H] n p(2) obtain w where
      w: "walk c B y ?limit ?p ?H (B ! slot c ?H) = Some w" "walk_post c B y ?limit ?p ?H w"
      by auto
    show ?thesis
    proof (cases w)
      case (Shift p')
      from w(2) obtain k where
        k: "k < passes c ?limit ?p" "p' = ?p - int (Suc k) * int (Q c)"
        and f: "\<not> linked c B (roll_from c y ?H (?p - int (Q c)) k)
                              (roll_from c y ?H (?p - int (Q c)) (Suc k))"
        unfolding walk_post_def Shift by auto
      define d where "d = int k * int (Q c)"
      have d0: "0 \<le> d" by (simp add: d_def)
      have "?limit \<le> ?p - d" using k(1) q by (simp add: passes_iff d_def)
      then have dm: "d + Q2 c \<le> m" by simp
      have p': "p' = ?p - d - int (Q c)" using k(2) by (simp add: d_def algebra_simps)
      have r: "base_iteration c B Hm x m y s = Some (s\<lparr>pos := p' + MQ1 c m\<rparr>)"
        using False w(1) Shift by (simp add: base_iteration_def hs)
      have no: "\<not> occurs_at x y (e - m + 1)" if "?p \<le> e" "e < p' + MQ1 c m" for e
      proof
        assume o: "occurs_at x y (e - m + 1)"
        have "e \<le> ?p + m - int (Q c) - int (Q c) - int k * int (Q c)"
          using that(2) unfolding p' by (simp add: MQ1_def d_def)
        from link [OF o that(1) this] f show False by simp
      qed
      have gt: "?p < p' + MQ1 c m" using dm unfolding p' by (simp add: MQ1_def Q2_def)
      have "\<not> occurs_at x y (?p - m + 1)" using no [of ?p] gt by simp
      moreover have "\<forall>e. ?p < e \<and> e < p' + MQ1 c m \<longrightarrow> \<not> occurs_at x y (e - m + 1)"
        using no by simp
      ultimately show ?thesis using r gt by simp
    next
      case (Verify p' H')
      let ?K = "passes c ?limit ?p"
      from w(2) have H': "H' = roll_from c y ?H (?p - int (Q c)) ?K"
        and al: "\<forall>j. j < ?K \<longrightarrow> linked c B (roll_from c y ?H (?p - int (Q c)) j)
                                        (roll_from c y ?H (?p - int (Q c)) (Suc j))"
        unfolding walk_post_def Verify by simp_all
      let ?start = "?p - m + Q2 c - int (Q c) - END_FIRST_QGRAM c"
      have st: "?start = ?p - m + 1" by (simp add: Q2_def END_FIRST_QGRAM_def)
      have mc: "memcmp_eq y (?p - m + 1) x m
              = Some (take (nat m) (drop (nat (?p - m + 1)) y) = take (nat m) x)"
        using m n p mq by (intro memcmp_eq_Some) simp_all
      have tx: "take (nat m) x = x" using m by simp
      have nm: "nat m = length x" using m by simp
      have oc: "occurs_at x y (?p - m + 1)
                  \<longleftrightarrow> take (nat m) (drop (nat (?p - m + 1)) y) = take (nat m) x"
        unfolding tx using m n p by (simp add: occurs_at_def nm)
      have np: "?p - m + Q2 c - int (Q c) + MQ1 c m = ?p + 1" by (simp add: MQ1_def Q2_def)
      show ?thesis
      proof (cases "occurs_at x y (?p - m + 1)")
        case o: True
        have o': "occurs_at x y (?p - m + 1)" by (rule o)
        have a: "?H = anv c x (m - 1)"
          using occurs_at_anv [OF o', of c "m - 1"] mq m by (simp add: END_FIRST_QGRAM_def)
        have K: "?K = passes c (END_FIRST_QGRAM c) (m - 1 - int (Q c))" by (rule passes_text)
        let ?K' = "passes c (END_FIRST_QGRAM c) (m - 1 - int (Q c))"
        have "?K' = 0 \<or> END_FIRST_QGRAM c \<le> m - 1 - int (Q c) - (int ?K' - 1) * int (Q c)"
        proof (cases ?K')
          case 0
          then show ?thesis by simp
        next
          case (Suc k')
          then have "k' < ?K'" by simp
          then have "END_FIRST_QGRAM c \<le> m - 1 - int (Q c) - int k' * int (Q c)"
            using q by (simp add: passes_iff)
          with Suc show ?thesis by simp
        qed
        moreover have "m - 1 - int (Q c) < int (length x)" using m by simp
        ultimately have "roll_from c y (anv c x (m - 1)) (?p - m + 1 + (m - 1 - int (Q c))) ?K'
            = roll_from c x (anv c x (m - 1)) (m - 1 - int (Q c)) ?K'"
          by (intro occurs_at_roll_from [OF o'])
        moreover have "?p - m + 1 + (m - 1 - int (Q c)) = ?p - int (Q c)" by simp
        ultimately have "H' = Hm" unfolding H' K a hm by simp
        have mt: "memcmp_eq y (?p - m + 1) x m = Some True" using mc oc o by simp
        have r: "base_iteration c B Hm x m y s = Some (s\<lparr>pos := ?p + 1, count := count s + 1\<rparr>)"
          using False w(1) Verify \<open>H' = Hm\<close> mt
          by (simp add: base_iteration_def hs st np)
        have "walk c B y ?limit ?p ?H (B ! slot c ?H) = Some (Verify p' Hm)"
          using w(1) Verify \<open>H' = Hm\<close> by simp
        with r False mt o al show ?thesis by auto
      next
        case no: False
        then have mf: "memcmp_eq y (?p - m + 1) x m = Some False" using mc oc by simp
        then have "(if H' = Hm then memcmp_eq y ?start x m else Some False) = Some False"
          unfolding st by simp
        then have r: "base_iteration c B Hm x m y s = Some (s\<lparr>pos := ?p + 1\<rparr>)"
          using False w(1) Verify by (simp add: base_iteration_def hs np)
        with no show ?thesis by auto
      qed
    qed
  qed
qed

lemma occurrences_step:
  assumes "0 \<le> a" "a < b" "\<forall>i. a < i \<and> i < b \<longrightarrow> \<not> occurs_at x y i"
  shows "occurrences x y b = occurrences x y a + (if occurs_at x y a then 1 else 0)"
proof -
  have "[0..b - 1] = [0..a - 1] @ a # [a + 1..b - 1]"
    using assms(1,2) by (intro upto_split3) simp_all
  moreover have "filter (occurs_at x y) [a + 1..b - 1] = []"
    using assms(3) by (auto simp add: filter_empty_conv)
  ultimately show ?thesis by (simp add: occurrences_def)
qed

lemma occurrences_beyond:
  assumes "int (length y) - int (length x) + 1 \<le> k"
  shows "occurrences x y k = occurrences x y (int (length y) - int (length x) + 1)"
proof -
  let ?l = "int (length y) - int (length x)"
  have no: "\<not> occurs_at x y i" if "?l < i" for i
    using that by (simp add: occurs_at_def)
  show ?thesis
  proof (cases "0 \<le> ?l")
    case True
    have "[0..k - 1] = [0..?l] @ [?l + 1..k - 1]"
      using True assms by (intro upto_split2) simp_all
    moreover have "filter (occurs_at x y) [?l + 1..k - 1] = []"
      using no by (auto simp add: filter_empty_conv)
    ultimately show ?thesis by (simp add: occurrences_def)
  next
    case False
    then have "filter (occurs_at x y) [0..k - 1] = []"
      using no by (auto simp add: filter_empty_conv)
    moreover have "[0..?l + 1 - 1] = []" using False by simp
    ultimately show ?thesis by (simp add: occurrences_def)
  qed
qed

lemma loop_state_snoc:
  "loop_state k b f s0 = Some s \<Longrightarrow> b s \<Longrightarrow> f s = Some s'
     \<Longrightarrow> loop_state (Suc k) b f s0 = Some s'"
proof (induction k arbitrary: s0)
  case 0
  then show ?case by simp
next
  case (Suc k)
  from Suc.prems(1) obtain s1 where
    s1: "b s0" "f s0 = Some s1" "loop_state k b f s1 = Some s"
    by (auto split: if_splits Option.bind_splits)
  from Suc.IH [OF s1(3) Suc.prems(2,3)] have "loop_state (Suc k) b f s1 = Some s'" .
  then show ?case using s1(1,2) by (subst loop_state.simps(2)) (simp del: loop_state.simps)
qed

lemma base_loop_exact:
  assumes q: "0 < Q c" and mq: "int (Q c) \<le> m" and m: "m = int (length x)"
    and n: "n = int (length y)"
    and nz: "\<forall>p. END_FIRST_QGRAM c \<le> p \<and> p < m \<longrightarrow> B ! slot c (anv c x p) \<noteq> 0"
    and lk: "\<forall>a k. a < int (length x) \<and> END_FIRST_QGRAM c \<le> a - int (Q c) - int k * int (Q c)
               \<longrightarrow> linked c B (roll_from c x (anv c x a) (a - int (Q c)) k)
                            (roll_from c x (anv c x a) (a - int (Q c)) (Suc k))"
    and hm: "Hm = roll_from c x (anv c x (m - 1)) (m - 1 - int (Q c))
                    (passes c (END_FIRST_QGRAM c) (m - 1 - int (Q c)))"
  shows "\<exists>t. bounded_loop (nat n) (\<lambda>s. pos s < n) (base_iteration c B Hm x m y)
                (scanner_init m) = Some t
           \<and> count t = occurrences x y (n - m + 1)"
proof -
  let ?I = "\<lambda>s. m - 1 \<le> pos s \<and> count s = occurrences x y (pos s - m + 1)"
  let ?\<mu> = "\<lambda>s. nat (n - pos s)"
  have step: "\<exists>s'. base_iteration c B Hm x m y s = Some s' \<and> ?I s' \<and> ?\<mu> s' < ?\<mu> s"
    if i: "?I s" and b: "pos s < n" for s
  proof -
    from i have p: "m - 1 \<le> pos s" by simp
    from base_iteration_exact [OF q mq m n nz lk hm p b] obtain s' where
      r: "base_iteration c B Hm x m y s = Some s'" "pos s < pos s'"
      and no: "\<forall>e. pos s < e \<and> e < pos s' \<longrightarrow> \<not> occurs_at x y (e - m + 1)"
      and yes: "occurs_at x y (pos s - m + 1)
                  \<longrightarrow> s' = s\<lparr>pos := pos s + 1, count := count s + 1\<rparr>"
      and un: "\<not> occurs_at x y (pos s - m + 1) \<longrightarrow> count s' = count s"
      by blast
    have c: "count s' = count s + (if occurs_at x y (pos s - m + 1) then 1 else 0)"
      using yes un by auto
    have "\<forall>i. pos s - m + 1 < i \<and> i < pos s' - m + 1 \<longrightarrow> \<not> occurs_at x y i"
    proof (intro allI impI)
      fix i
      assume "pos s - m + 1 < i \<and> i < pos s' - m + 1"
      then have "pos s < i + m - 1 \<and> i + m - 1 < pos s'" by simp
      with no have "\<not> occurs_at x y (i + m - 1 - m + 1)" by blast
      then show "\<not> occurs_at x y i" by simp
    qed
    moreover have "0 \<le> pos s - m + 1" "pos s - m + 1 < pos s' - m + 1" using p r(2) by simp_all
    ultimately have "occurrences x y (pos s' - m + 1)
        = occurrences x y (pos s - m + 1) + (if occurs_at x y (pos s - m + 1) then 1 else 0)"
      by (intro occurrences_step)
    with c i have "count s' = occurrences x y (pos s' - m + 1)" by simp
    with r p b show ?thesis by simp
  qed
  have i0: "?I (scanner_init m)" by (simp add: scanner_init_def occurrences_def)
  have m0: "?\<mu> (scanner_init m) \<le> nat n" using q mq by (simp add: scanner_init_def)
  from bounded_loop_exit [of ?I "\<lambda>s. pos s < n" "base_iteration c B Hm x m y" ?\<mu>,
      OF step i0 m0]
  obtain t where
    t: "bounded_loop (nat n) (\<lambda>s. pos s < n) (base_iteration c B Hm x m y) (scanner_init m)
          = Some t"
      "\<not> pos t < n" "?I t"
    by blast
  have "int (length y) - int (length x) + 1 \<le> pos t - m + 1" using t(2) m n by simp
  from occurrences_beyond [OF this] t(3) m n have "count t = occurrences x y (n - m + 1)"
    by simp
  with t(1) show ?thesis by blast
qed

lemma base_loop_reaches:
  assumes q: "0 < Q c" and mq: "int (Q c) \<le> m" and m: "m = int (length x)"
    and n: "n = int (length y)"
    and nz: "\<forall>p. END_FIRST_QGRAM c \<le> p \<and> p < m \<longrightarrow> B ! slot c (anv c x p) \<noteq> 0"
    and lk: "\<forall>a k. a < int (length x) \<and> END_FIRST_QGRAM c \<le> a - int (Q c) - int k * int (Q c)
               \<longrightarrow> linked c B (roll_from c x (anv c x a) (a - int (Q c)) k)
                            (roll_from c x (anv c x a) (a - int (Q c)) (Suc k))"
    and hm: "Hm = roll_from c x (anv c x (m - 1)) (m - 1 - int (Q c))
                    (passes c (END_FIRST_QGRAM c) (m - 1 - int (Q c)))"
    and o: "occurs_at x y (e - m + 1)"
    and s: "loop_state k0 (\<lambda>s. pos s < n) (base_iteration c B Hm x m y) s0 = Some s"
      "m - 1 \<le> pos s" "pos s \<le> e"
  shows "\<exists>k s'. loop_state k (\<lambda>s. pos s < n) (base_iteration c B Hm x m y) s0 = Some s'
           \<and> pos s' = e"
  using s
proof (induction "nat (e - pos s)" arbitrary: k0 s rule: less_induct)
  case less
  show ?case
  proof (cases "pos s = e")
    case True
    with less.prems(1) show ?thesis by blast
  next
    case False
    with less.prems(3) have lt: "pos s < e" by simp
    from o have "e < n" using m n by (simp add: occurs_at_def)
    with lt have b: "pos s < n" by simp
    from base_iteration_exact [OF q mq m n nz lk hm less.prems(2) b] obtain s' where
      r: "base_iteration c B Hm x m y s = Some s'" "pos s < pos s'"
      and no: "\<forall>e. pos s < e \<and> e < pos s' \<longrightarrow> \<not> occurs_at x y (e - m + 1)"
      by blast
    from no o lt have le: "pos s' \<le> e" by force
    have st: "loop_state (Suc k0) (\<lambda>s. pos s < n) (base_iteration c B Hm x m y) s0 = Some s'"
      by (rule loop_state_snoc [OF less.prems(1) b r(1)])
    have "nat (e - pos s') < nat (e - pos s)" using r(2) le by simp
    moreover have "m - 1 \<le> pos s'" using less.prems(2) r(2) by simp
    ultimately show ?thesis using less.hyps [OF _ st _ le] by blast
  qed
qed

text \<open>The table and the hash that the preprocessing of the rolling files returns.\<close>

lemma rolling_tables:
  assumes q: "0 < Q c" and r: "rolling c"
    and t: "ALPHA c \<le> S2 c * t" "5 \<le> S2 c * Suc t" "int t * int (Q c) \<le> CHAIN_LENGTH c"
    and m: "m = int (length x)" and mq: "int (Q c) \<le> m"
  shows "\<exists>B Hm. rolling_preprocessing c x m = Some (B, Hm)
           \<and> (\<forall>p. END_FIRST_QGRAM c \<le> p \<and> p < m \<longrightarrow> B ! slot c (anv c x p) \<noteq> 0)
           \<and> (\<forall>a k. a < int (length x)
                   \<and> END_FIRST_QGRAM c \<le> a - int (Q c) - int k * int (Q c)
                 \<longrightarrow> linked c B (roll_from c x (anv c x a) (a - int (Q c)) k)
                              (roll_from c x (anv c x a) (a - int (Q c)) (Suc k)))
           \<and> Hm = roll_from c x (anv c x (m - 1)) (m - 1 - int (Q c))
                    (passes c (END_FIRST_QGRAM c) (m - 1 - int (Q c)))"
proof -
  from rolling_preprocessing_spec [OF q m mq] obtain B where
    p: "rolling_preprocessing c x m
          = Some (B, roll_from c x (anv c x (m - 1)) (m - 1 - int (Q c))
                       (passes c (END_FIRST_QGRAM c) (m - 1 - int (Q c))))"
    and lk: "\<forall>a i. END_SECOND_QGRAM c \<le> a \<and> a < m
                 \<and> max (END_FIRST_QGRAM c) (a - int (Q c) - CHAIN_LENGTH c)
                     \<le> a - int (Q c) - int i * int (Q c)
               \<longrightarrow> linked c B (roll_from c x (anv c x a) (a - int (Q c)) i)
                            (roll_from c x (anv c x a) (a - int (Q c)) (Suc i))"
    by blast
  from rolling_all_nonzero [OF q m mq] p have
    nz: "\<forall>p. END_FIRST_QGRAM c \<le> p \<and> p < m \<longrightarrow> B ! slot c (anv c x p) \<noteq> 0"
    by auto
  have "linked c B (roll_from c x (anv c x a) (a - int (Q c)) k)
                   (roll_from c x (anv c x a) (a - int (Q c)) (Suc k))"
    if "a < int (length x) \<and> END_FIRST_QGRAM c \<le> a - int (Q c) - int k * int (Q c)" for a k
    using rolling_links_all [OF q r t lk, of a k] that m by simp
  with p nz show ?thesis by blast
qed

subsection \<open>The scanner of \<^verbatim>\<open>hc4-qverify.c\<close> counts every occurrence once\<close>

lemma roll_from_plain_eq:
  "\<not> rolling c \<Longrightarrow> roll_from c x (chv c x a) (a - int (Q c)) k = chv c x (a - int k * int (Q c))"
  by (cases k) (simp_all add: ROLL_def algebra_simps)

text \<open>The table of the files without a rolling hash, in the form that the walk probes.\<close>

lemma plain_tables:
  assumes q: "0 < Q c" and r: "\<not> rolling c" and s: "S1 c = S3 c"
    and nz: "\<forall>p. END_FIRST_QGRAM c \<le> p \<and> p < min m (END_SECOND_QGRAM c)
                 \<longrightarrow> B ! slot c (chv c x p) \<noteq> 0"
    and lk: "\<forall>p. END_SECOND_QGRAM c \<le> p \<and> p < m
                 \<longrightarrow> linked c B (chv c x p) (chv c x (p - int (Q c)))"
    and m: "m = int (length x)"
  shows "(\<forall>p. END_FIRST_QGRAM c \<le> p \<and> p < m \<longrightarrow> B ! slot c (anv c x p) \<noteq> 0)
       \<and> (\<forall>a k. a < int (length x) \<and> END_FIRST_QGRAM c \<le> a - int (Q c) - int k * int (Q c)
             \<longrightarrow> linked c B (roll_from c x (anv c x a) (a - int (Q c)) k)
                          (roll_from c x (anv c x a) (a - int (Q c)) (Suc k)))"
proof (intro conjI allI impI)
  fix p assume "END_FIRST_QGRAM c \<le> p \<and> p < m"
  then have "B ! slot c (chv c x p) \<noteq> 0"
    using plain_all_nonzero [OF q nz lk, of p] by simp
  then show "B ! slot c (anv c x p) \<noteq> 0" by (simp add: anv_eq_chv [OF s])
next
  fix a k
  assume h: "a < int (length x) \<and> END_FIRST_QGRAM c \<le> a - int (Q c) - int k * int (Q c)"
  define d where "d = int k * int (Q c)"
  have d0: "0 \<le> d" by (simp add: d_def)
  have "END_SECOND_QGRAM c \<le> a - d \<and> a - d < m"
    using h d0 m by (simp add: d_def [symmetric] END_SECOND_QGRAM_def END_FIRST_QGRAM_def Q2_def)
  with lk have "linked c B (chv c x (a - d)) (chv c x (a - d - int (Q c)))" by blast
  moreover have "roll_from c x (chv c x a) (a - int (Q c)) k = chv c x (a - d)"
    unfolding d_def by (rule roll_from_plain_eq [OF r])
  moreover have "roll_from c x (chv c x a) (a - int (Q c)) (Suc k) = chv c x (a - d - int (Q c))"
    using roll_from_plain_eq [OF r, where x=x and a=a and k="Suc k"]
    by (simp add: d_def algebra_simps)
  ultimately show "linked c B (roll_from c x (anv c x a) (a - int (Q c)) k)
                          (roll_from c x (anv c x a) (a - int (Q c)) (Suc k))"
    by (simp add: anv_eq_chv [OF s])
qed

lemma occurrences_Suc:
  assumes "0 \<le> a"
  shows "occurrences x y (a + 1) = occurrences x y a + (if occurs_at x y a then 1 else 0)"
proof -
  have "a < a + 1" by simp
  moreover have "\<forall>i. a < i \<and> i < a + 1 \<longrightarrow> \<not> occurs_at x y i" by auto
  ultimately show ?thesis by (rule occurrences_step [OF assms])
qed

text \<open>The verification of the alignments from \<open>ps\<close> to \<open>l\<close> adds the occurrences among them.\<close>

lemma verify_alignments_exact:
  assumes "m = int (length x)" "n = int (length y)" "0 \<le> ps" "ps \<le> l + 1"
  shows "verify_alignments x m y n l ps cnt
           = Some (cnt + (occurrences x y (l + 1) - occurrences x y ps))"
  using assms(3,4)
proof (induction "nat (l + 1 - ps)" arbitrary: ps cnt rule: less_induct)
  case less
  show ?case
  proof (cases "ps \<le> l")
    case False
    with less.prems have "ps = l + 1" by simp
    then show ?thesis by (subst verify_alignments.simps) simp
  next
    case True
    have tx: "take (nat m) x = x" and nm: "nat m = length x" using assms(1) by simp_all
    have h: "(if ps \<le> n - m then memcmp_eq y ps x m else Some False)
               = Some (occurs_at x y ps)"
    proof (cases "ps \<le> n - m")
      case le: True
      then have "memcmp_eq y ps x m
                   = Some (take (nat m) (drop (nat ps) y) = take (nat m) x)"
        using less.prems assms(1,2) by (intro memcmp_eq_Some) simp_all
      moreover have "occurs_at x y ps \<longleftrightarrow> take (nat m) (drop (nat ps) y) = take (nat m) x"
        unfolding tx using le less.prems assms(1,2) by (simp add: occurs_at_def nm)
      ultimately show ?thesis using le by simp
    next
      case False
      then have "\<not> occurs_at x y ps" using assms(1,2) by (simp add: occurs_at_def)
      with False show ?thesis by simp
    qed
    let ?c = "if occurs_at x y ps then cnt + 1 else cnt"
    have "nat (l + 1 - (ps + 1)) < nat (l + 1 - ps)" using True by simp
    moreover have "0 \<le> ps + 1" "ps + 1 \<le> l + 1" using less.prems True by simp_all
    ultimately have r: "verify_alignments x m y n l (ps + 1) ?c
        = Some (?c + (occurrences x y (l + 1) - occurrences x y (ps + 1)))"
      using less.hyps [of "ps + 1" ?c] by blast
    have "verify_alignments x m y n l ps cnt
            = Some (?c + (occurrences x y (l + 1) - occurrences x y (ps + 1)))"
      by (subst verify_alignments.simps) (simp only: True if_True h bind.bind_lunit r)
    then show ?thesis using occurrences_Suc [OF less.prems(1), of x y] by simp
  qed
qed

lemma qverify_iteration_exact:
  assumes q: "0 < Q c" and mq: "int (Q c) \<le> m" and m: "m = int (length x)"
    and n: "n = int (length y)" and s13: "S1 c = S3 c"
    and nz: "\<forall>p. END_FIRST_QGRAM c \<le> p \<and> p < m \<longrightarrow> B ! slot c (anv c x p) \<noteq> 0"
    and lk: "\<forall>a k. a < int (length x) \<and> END_FIRST_QGRAM c \<le> a - int (Q c) - int k * int (Q c)
               \<longrightarrow> linked c B (roll_from c x (anv c x a) (a - int (Q c)) k)
                            (roll_from c x (anv c x a) (a - int (Q c)) (Suc k))"
    and p: "m - 1 \<le> pos s" "pos s < n"
  shows "\<exists>s'. qverify_iteration c B x m y n s = Some s' \<and> pos s < pos s'
           \<and> count s' = count s + (occurrences x y (pos s' - m + 1)
                                     - occurrences x y (pos s - m + 1))"
proof -
  let ?p = "pos s"
  let ?H = "anv c y ?p"
  have hs: "CHAIN_HASH c y ?p = Some ?H"
    using mq n p by (simp add: CHAIN_HASH_eq END_FIRST_QGRAM_def anv_eq_chv [OF s13])
  have cover: "B ! slot c ?H \<noteq> 0"
    if o: "occurs_at x y (e - m + 1)" and e: "?p \<le> e" "e \<le> ?p + m - int (Q c)" for e
  proof -
    let ?j = "?p - (e - m + 1)"
    have j: "END_FIRST_QGRAM c \<le> ?j" "?j < int (length x)"
      using e m by (simp_all add: END_FIRST_QGRAM_def)
    from occurs_at_anv [OF o j] have "?H = anv c x ?j" by (simp add: algebra_simps)
    moreover have "B ! slot c (anv c x ?j) \<noteq> 0" using nz j m by simp
    ultimately show ?thesis by simp
  qed
  have link: "linked c B (roll_from c y ?H (?p - int (Q c)) k)
                          (roll_from c y ?H (?p - int (Q c)) (Suc k))"
    if o: "occurs_at x y (e - m + 1)" and e: "?p \<le> e"
      "e \<le> ?p + m - int (Q c) - int (Q c) - int k * int (Q c)" for e k
  proof -
    let ?i = "e - m + 1"
    let ?j = "?p - ?i"
    have j: "?j < int (length x)" "END_FIRST_QGRAM c \<le> ?j - int (Q c) - int k * int (Q c)"
      using e m by (simp_all add: END_FIRST_QGRAM_def)
    from occurs_at_linked [OF o j lk] show ?thesis by (simp add: algebra_simps)
  qed
  have same: "occurrences x y (b - m + 1) = occurrences x y (?p - m + 1)"
    if b: "?p < b" and no: "\<forall>e. ?p \<le> e \<and> e < b \<longrightarrow> \<not> occurs_at x y (e - m + 1)" for b
  proof -
    have "\<forall>i. ?p - m + 1 < i \<and> i < b - m + 1 \<longrightarrow> \<not> occurs_at x y i"
    proof (intro allI impI)
      fix i assume "?p - m + 1 < i \<and> i < b - m + 1"
      then have "?p \<le> i + m - 1 \<and> i + m - 1 < b" by simp
      with no have "\<not> occurs_at x y (i + m - 1 - m + 1)" by blast
      then show "\<not> occurs_at x y i" by simp
    qed
    moreover have "0 \<le> ?p - m + 1" "?p - m + 1 < b - m + 1" using p(1) b by simp_all
    ultimately have "occurrences x y (b - m + 1)
        = occurrences x y (?p - m + 1) + (if occurs_at x y (?p - m + 1) then 1 else 0)"
      by (intro occurrences_step)
    moreover have "\<not> occurs_at x y (?p - m + 1)" using no b by simp
    ultimately show ?thesis by simp
  qed
  show ?thesis
  proof (cases "B ! slot c ?H = 0")
    case True
    have r: "qverify_iteration c B x m y n s = Some (s\<lparr>pos := ?p + MQ1 c m\<rparr>)"
      using True by (simp add: qverify_iteration_def hs)
    have no: "\<forall>e. ?p \<le> e \<and> e < ?p + MQ1 c m \<longrightarrow> \<not> occurs_at x y (e - m + 1)"
    proof (intro allI impI notI)
      fix e
      assume e: "?p \<le> e \<and> e < ?p + MQ1 c m" and o: "occurs_at x y (e - m + 1)"
      then have "e \<le> ?p + m - int (Q c)" by (simp add: MQ1_def)
      with cover [OF o] e True show False by simp
    qed
    have gt: "?p < ?p + MQ1 c m" using mq by (simp add: MQ1_def)
    from same [OF gt no] r gt show ?thesis by simp
  next
    case False
    let ?limit = "?p - m + Q2 c"
    have "END_SECOND_QGRAM c \<le> ?limit" using p(1) by (simp add: END_SECOND_QGRAM_def)
    with walk_spec [OF q, of ?limit ?p y B ?H] n p(2) obtain w where
      w: "walk c B y ?limit ?p ?H (B ! slot c ?H) = Some w" "walk_post c B y ?limit ?p ?H w"
      by auto
    show ?thesis
    proof (cases w)
      case (Shift p')
      from w(2) obtain k where
        k: "k < passes c ?limit ?p" "p' = ?p - int (Suc k) * int (Q c)"
        and f: "\<not> linked c B (roll_from c y ?H (?p - int (Q c)) k)
                              (roll_from c y ?H (?p - int (Q c)) (Suc k))"
        unfolding walk_post_def Shift by auto
      define d where "d = int k * int (Q c)"
      have d0: "0 \<le> d" by (simp add: d_def)
      have "?limit \<le> ?p - d" using k(1) q by (simp add: passes_iff d_def)
      then have dm: "d + Q2 c \<le> m" by simp
      have p': "p' = ?p - d - int (Q c)" using k(2) by (simp add: d_def algebra_simps)
      have r: "qverify_iteration c B x m y n s = Some (s\<lparr>pos := p' + MQ1 c m\<rparr>)"
        using False w(1) Shift by (simp add: qverify_iteration_def hs)
      have no: "\<forall>e. ?p \<le> e \<and> e < p' + MQ1 c m \<longrightarrow> \<not> occurs_at x y (e - m + 1)"
      proof (intro allI impI notI)
        fix e
        assume e: "?p \<le> e \<and> e < p' + MQ1 c m" and o: "occurs_at x y (e - m + 1)"
        have "e \<le> ?p + m - int (Q c) - int (Q c) - int k * int (Q c)"
          using e unfolding p' by (simp add: MQ1_def d_def)
        with link [OF o] e f show False by simp
      qed
      have gt: "?p < p' + MQ1 c m" using dm unfolding p' by (simp add: MQ1_def Q2_def)
      from same [OF gt no] r gt show ?thesis by simp
    next
      case (Verify p' H')
      let ?l = "?p - m + Q2 c - int (Q c)"
      have ps: "?l - END_FIRST_QGRAM c = ?p - m + 1" by (simp add: Q2_def END_FIRST_QGRAM_def)
      have l1: "?l + 1 = ?p + int (Q c) - m + 1" by (simp add: Q2_def)
      have "0 \<le> ?p - m + 1" "?p - m + 1 \<le> ?l + 1" using p(1) by (simp_all add: Q2_def)
      from verify_alignments_exact [OF m n this, of "count s"] have
        v: "verify_alignments x m y n ?l (?l - END_FIRST_QGRAM c) (count s)
              = Some (count s + (occurrences x y (?p + int (Q c) - m + 1)
                                 - occurrences x y (?p - m + 1)))"
        unfolding ps l1 .
      have np: "?p - m + Q2 c - 1 + MQ1 c m = ?p + int (Q c)" by (simp add: MQ1_def Q2_def)
      have "qverify_iteration c B x m y n s
              = Some (s\<lparr>pos := ?p + int (Q c),
                        count := count s + (occurrences x y (?p + int (Q c) - m + 1)
                                            - occurrences x y (?p - m + 1))\<rparr>)"
        using False w(1) Verify v by (simp add: qverify_iteration_def hs np)
      then show ?thesis using q by simp
    qed
  qed
qed

lemma qverify_loop_exact:
  assumes q: "0 < Q c" and mq: "int (Q c) \<le> m" and m: "m = int (length x)"
    and n: "n = int (length y)" and s13: "S1 c = S3 c"
    and nz: "\<forall>p. END_FIRST_QGRAM c \<le> p \<and> p < m \<longrightarrow> B ! slot c (anv c x p) \<noteq> 0"
    and lk: "\<forall>a k. a < int (length x) \<and> END_FIRST_QGRAM c \<le> a - int (Q c) - int k * int (Q c)
               \<longrightarrow> linked c B (roll_from c x (anv c x a) (a - int (Q c)) k)
                            (roll_from c x (anv c x a) (a - int (Q c)) (Suc k))"
  shows "\<exists>t. bounded_loop (nat n) (\<lambda>s. pos s < n) (qverify_iteration c B x m y n)
                (scanner_init m) = Some t
           \<and> count t = occurrences x y (n - m + 1)"
proof -
  let ?I = "\<lambda>s. m - 1 \<le> pos s \<and> count s = occurrences x y (pos s - m + 1)"
  let ?\<mu> = "\<lambda>s. nat (n - pos s)"
  have step: "\<exists>s'. qverify_iteration c B x m y n s = Some s' \<and> ?I s' \<and> ?\<mu> s' < ?\<mu> s"
    if i: "?I s" and b: "pos s < n" for s
  proof -
    from i have p: "m - 1 \<le> pos s" by simp
    from qverify_iteration_exact [OF q mq m n s13 nz lk p b] obtain s' where
      r: "qverify_iteration c B x m y n s = Some s'" "pos s < pos s'"
        "count s' = count s + (occurrences x y (pos s' - m + 1)
                               - occurrences x y (pos s - m + 1))"
      by blast
    with i b show ?thesis by simp
  qed
  have i0: "?I (scanner_init m)" by (simp add: scanner_init_def occurrences_def)
  have m0: "?\<mu> (scanner_init m) \<le> nat n" using q mq by (simp add: scanner_init_def)
  from bounded_loop_exit [of ?I "\<lambda>s. pos s < n" "qverify_iteration c B x m y n" ?\<mu>,
      OF step i0 m0]
  obtain t where
    t: "bounded_loop (nat n) (\<lambda>s. pos s < n) (qverify_iteration c B x m y n) (scanner_init m)
          = Some t"
      "\<not> pos t < n" "?I t"
    by blast
  have "int (length y) - int (length x) + 1 \<le> pos t - m + 1" using t(2) m n by simp
  from occurrences_beyond [OF this] t(3) m n have "count t = occurrences x y (n - m + 1)"
    by simp
  with t(1) show ?thesis by blast
qed

text \<open>The run of \<^verbatim>\<open>hc4-qverify.c\<close> on a pattern that has room for its \<open>Q\<close> chains.\<close>

lemma hc4qv_search_exact:
  assumes "m = int (length x)" "n = int (length y)" "END_SECOND_QGRAM hc4qv \<le> m"
  shows "\<exists>B H t. hc4qv_preprocessing x m = Some (B, H)
           \<and> bounded_loop (nat n) (\<lambda>s. pos s < n) (qverify_iteration hc4qv B x m y n)
                (scanner_init m) = Some t
           \<and> count t = occurrences x y (n - m + 1)
           \<and> hc4qv_search x m y n = Some (count t)"
proof -
  let ?c = hc4qv
  have q: "0 < Q ?c" "\<not> rolling ?c" "S1 ?c = S3 ?c" by (simp_all add: params_simps)
  have mq: "int (Q ?c) \<le> m"
    using assms(3) by (simp add: params_simps END_SECOND_QGRAM_def Q2_def)
  have s: "1 \<le> int (Q ?c)" "int (Q ?c) \<le> m - END_FIRST_QGRAM ?c"
    using assms(3) by (simp_all add: params_simps END_SECOND_QGRAM_def Q2_def END_FIRST_QGRAM_def)
  from plain_preprocessing_spec [OF q assms(1) s] obtain B H where
    r: "hc4qv_preprocessing x m = Some (B, H)"
    and nz: "\<forall>p. END_FIRST_QGRAM ?c \<le> p \<and> p < min m (END_SECOND_QGRAM ?c)
                 \<longrightarrow> B ! slot ?c (chv ?c x p) \<noteq> 0"
    and lk: "\<forall>cn i. 1 \<le> cn \<and> cn \<le> int (Q ?c)
                 \<and> END_FIRST_QGRAM ?c \<le> m - cn - int (Suc i) * int (Q ?c)
               \<longrightarrow> linked ?c B (chv ?c x (m - cn - int i * int (Q ?c)))
                            (chv ?c x (m - cn - int (Suc i) * int (Q ?c)))"
    unfolding hc4qv_preprocessing_def by blast
  have lk': "\<forall>p. END_SECOND_QGRAM ?c \<le> p \<and> p < m
                 \<longrightarrow> linked ?c B (chv ?c x p) (chv ?c x (p - int (Q ?c)))"
    using plain_links_all [OF q(1) lk] by blast
  note tb = plain_tables [OF q nz lk' assms(1)]
  from qverify_loop_exact [OF q(1) mq assms(1,2) q(3) conjunct1 [OF tb] conjunct2 [OF tb]]
  obtain t where
    t: "bounded_loop (nat n) (\<lambda>s. pos s < n) (qverify_iteration ?c B x m y n) (scanner_init m)
          = Some t"
      "count t = occurrences x y (n - m + 1)"
    by blast
  from qverify_loop_bounded [OF t(1)] have
    "qverify_loop ?c B x m y n (scanner_init m) = Some (count t)" .
  then have "hc4qv_search x m y n = Some (count t)"
    using mq r by (simp add: hc4qv_search_def)
  with r t show ?thesis by blast
qed


subsection \<open>The unguarded chain loop on a pattern with bytes in front of it\<close>













subsection \<open>The count of \<^verbatim>\<open>whc3.c\<close>\<close>








subsection \<open>The count of \<^verbatim>\<open>lhc4.c\<close> and \<^verbatim>\<open>lhc3-kmp.c\<close>\<close>
















section \<open>The claims\<close>

subsection \<open>The count that \<^verbatim>\<open>search\<close> returns\<close>



subsection \<open>The filter of \<^verbatim>\<open>hc3.c\<close> loses no occurrence\<close>

text \<open>
  Claim C2. For a pattern of length \<open>m \<ge> Q\<close> and a text of length \<open>n\<close>, let \<open>x\<close> occur in
  \<open>y\<close> at position \<open>i\<close>. Then the main loop of \<^verbatim>\<open>search\<close> in \<^verbatim>\<open>hc3.c\<close> comes to its head
  with \<open>pos = i + m - 1\<close>, the last byte of the occurrence. In the pass from there the table
  word of the anchor hash is non-zero, the backward walk finds every fingerprint it
  probes and ends, not at the label \<^verbatim>\<open>shift\<close>, but with the hash \<open>Hm\<close> of the whole
  pattern; the comparison starts at \<open>i\<close> and succeeds, and the pass adds one to the count
  and one to \<open>pos\<close>. The chains that preprocessing writes are bounded by \<open>CHAIN_LENGTH\<close>;
  the probes further down a walk are found because the low 12 bits of the rolling hash
  depend on the last three steps only. In the end, if \<open>n + m < 2^31\<close>, so that no position
  leaves the range of a C \<^verbatim>\<open>int\<close>, \<^verbatim>\<open>search\<close> returns the number of positions at which
  \<open>x\<close> occurs in \<open>y\<close>.
\<close>

theorem no_false_negatives:
  assumes "m = int (length x)" "n = int (length y)" "int (Q hc3) \<le> m"
  shows "\<exists>B Hm. hc3_preprocessing x m = Some (B, Hm)
           \<and> (\<forall>i. occurs_at x y i \<longrightarrow>
                 (\<exists>k s H p'.
                    loop_state k (\<lambda>s. pos s < n) (base_iteration hc3 B Hm x m y)
                      (scanner_init m) = Some s
                    \<and> pos s = i + m - 1 \<and> pos s < n
                    \<and> ANCHOR_HASH hc3 y (pos s) = Some H \<and> B ! slot hc3 H \<noteq> 0
                    \<and> walk hc3 B y (pos s - m + Q2 hc3) (pos s) H (B ! slot hc3 H)
                        = Some (Verify p' Hm)
                    \<and> (\<forall>j. j < passes hc3 (pos s - m + Q2 hc3) (pos s) \<longrightarrow>
                          linked hc3 B (roll_from hc3 y H (pos s - int (Q hc3)) j)
                                       (roll_from hc3 y H (pos s - int (Q hc3)) (Suc j)))
                    \<and> pos s - m + Q2 hc3 - int (Q hc3) - END_FIRST_QGRAM hc3 = i
                    \<and> memcmp_eq y i x m = Some True
                    \<and> base_iteration hc3 B Hm x m y s
                        = Some (s\<lparr>pos := pos s + 1, count := count s + 1\<rparr>)))
           \<and> (n + m < 2 ^ 31 \<longrightarrow> hc3_search x m y n = Some (occurrences x y (n - m + 1)))"
proof -
  let ?c = hc3
  have q: "0 < Q ?c" by (simp add: params_simps)
  from rolling_tables [OF q hc3_rolling assms(1,3)] obtain B Hm where
    p: "rolling_preprocessing ?c x m = Some (B, Hm)"
    and nz: "\<forall>p. END_FIRST_QGRAM ?c \<le> p \<and> p < m \<longrightarrow> B ! slot ?c (anv ?c x p) \<noteq> 0"
    and lk: "\<forall>a k. a < int (length x)
                   \<and> END_FIRST_QGRAM ?c \<le> a - int (Q ?c) - int k * int (Q ?c)
                 \<longrightarrow> linked ?c B (roll_from ?c x (anv ?c x a) (a - int (Q ?c)) k)
                              (roll_from ?c x (anv ?c x a) (a - int (Q ?c)) (Suc k))"
    and hm: "Hm = roll_from ?c x (anv ?c x (m - 1)) (m - 1 - int (Q ?c))
                    (passes ?c (END_FIRST_QGRAM ?c) (m - 1 - int (Q ?c)))"
    by blast
  note facts = q assms(3,1,2) nz lk hm
  let ?f = "base_iteration ?c B Hm x m y"
  let ?s0 = "scanner_init m"
  have a: "hc3_preprocessing x m = Some (B, Hm)" using p by (simp add: hc3_preprocessing_def)
  have b: "\<exists>k s H p'.
              loop_state k (\<lambda>s. pos s < n) ?f ?s0 = Some s
              \<and> pos s = i + m - 1 \<and> pos s < n
              \<and> ANCHOR_HASH ?c y (pos s) = Some H \<and> B ! slot ?c H \<noteq> 0
              \<and> walk ?c B y (pos s - m + Q2 ?c) (pos s) H (B ! slot ?c H) = Some (Verify p' Hm)
              \<and> (\<forall>j. j < passes ?c (pos s - m + Q2 ?c) (pos s) \<longrightarrow>
                    linked ?c B (roll_from ?c y H (pos s - int (Q ?c)) j)
                                (roll_from ?c y H (pos s - int (Q ?c)) (Suc j)))
              \<and> pos s - m + Q2 ?c - int (Q ?c) - END_FIRST_QGRAM ?c = i
              \<and> memcmp_eq y i x m = Some True
              \<and> ?f s = Some (s\<lparr>pos := pos s + 1, count := count s + 1\<rparr>)"
    if o: "occurs_at x y i" for i
  proof -
    from o have i: "0 \<le> i" "i + m \<le> n" using assms(1,2) by (simp_all add: occurs_at_def)
    have o': "occurs_at x y (i + m - 1 - m + 1)" using o by simp
    have s0: "loop_state 0 (\<lambda>s. pos s < n) ?f ?s0 = Some ?s0" by simp
    have p0: "m - 1 \<le> pos ?s0" "pos ?s0 \<le> i + m - 1" using i by (simp_all add: scanner_init_def)
    from base_loop_reaches [OF facts o' s0 p0] obtain k s where
      s: "loop_state k (\<lambda>s. pos s < n) ?f ?s0 = Some s" "pos s = i + m - 1"
      by blast
    have ps: "m - 1 \<le> pos s" "pos s < n" using s(2) i by simp_all
    have os: "occurs_at x y (pos s - m + 1)" using o s(2) by simp
    from base_iteration_exact [OF facts ps] os obtain s' p' where
      r: "?f s = Some s'" "B ! slot ?c (anv ?c y (pos s)) \<noteq> 0"
        "walk ?c B y (pos s - m + Q2 ?c) (pos s) (anv ?c y (pos s))
           (B ! slot ?c (anv ?c y (pos s))) = Some (Verify p' Hm)"
        "memcmp_eq y (pos s - m + 1) x m = Some True"
        "s' = s\<lparr>pos := pos s + 1, count := count s + 1\<rparr>"
        and al: "\<forall>j. j < passes ?c (pos s - m + Q2 ?c) (pos s) \<longrightarrow>
                    linked ?c B (roll_from ?c y (anv ?c y (pos s)) (pos s - int (Q ?c)) j)
                                (roll_from ?c y (anv ?c y (pos s)) (pos s - int (Q ?c)) (Suc j))"
      by blast
    have hs: "ANCHOR_HASH ?c y (pos s) = Some (anv ?c y (pos s))"
      using ps assms by (intro ANCHOR_HASH_eq) (simp_all add: END_FIRST_QGRAM_def)
    have st: "pos s - m + Q2 ?c - int (Q ?c) - END_FIRST_QGRAM ?c = i"
      using s(2) by (simp add: Q2_def END_FIRST_QGRAM_def)
    have mc: "memcmp_eq y i x m = Some True" using r(4) s(2) by simp
    have it: "?f s = Some (s\<lparr>pos := pos s + 1, count := count s + 1\<rparr>)" using r(1,5) by simp
    from s ps(2) hs r(2,3) al st mc it show ?thesis by blast
  qed
  from base_loop_exact [OF facts] obtain t where
    t: "bounded_loop (nat n) (\<lambda>s. pos s < n) ?f ?s0 = Some t"
      "count t = occurrences x y (n - m + 1)"
    by blast
  from base_loop_bounded [OF t(1)] t(2) have
    "base_loop ?c B Hm x m y n ?s0 = Some (occurrences x y (n - m + 1))" by simp
  then have c: "n + m < 2 ^ 31 \<longrightarrow> hc3_search x m y n = Some (occurrences x y (n - m + 1))"
    using assms(3) p by (simp add: hc3_search_def rolling_search_def)
  from a b c show ?thesis by blast
qed

text \<open>
  The theorem at the 21 bytes \<open>a\<close> to \<open>u\<close> and the text \<open>xy\<close> followed by them. The
  pattern occurs at 2, the loop comes to its head with \<open>pos = 22\<close>, and the walk from
  there takes six steps; the link of its last step is one that no bounded chain of the
  anchor at the end of the pattern has written. The search returns 1.
\<close>

theorem no_false_negatives_witness:
  "21 = int (length [97, 98, 99, 100, 101, 102, 103, 104, 105, 106, 107, 108, 109, 110,
                     111, 112, 113, 114, 115, 116, 117 :: byte])
   \<and> 23 = int (length [120, 121, 97, 98, 99, 100, 101, 102, 103, 104, 105, 106, 107, 108,
                        109, 110, 111, 112, 113, 114, 115, 116, 117 :: byte])
   \<and> int (Q hc3) \<le> 21 \<and> (23 :: int) + 21 < 2 ^ 31
   \<and> occurs_at [97, 98, 99, 100, 101, 102, 103, 104, 105, 106, 107, 108, 109, 110,
                 111, 112, 113, 114, 115, 116, 117]
        [120, 121, 97, 98, 99, 100, 101, 102, 103, 104, 105, 106, 107, 108,
         109, 110, 111, 112, 113, 114, 115, 116, 117] 2
   \<and> passes hc3 (22 - 21 + Q2 hc3) 22 = 6
   \<and> CHAIN_LENGTH hc3 < 5 * int (Q hc3)
   \<and> (\<exists>B Hm k s H.
         hc3_preprocessing [97, 98, 99, 100, 101, 102, 103, 104, 105, 106, 107, 108, 109, 110,
                            111, 112, 113, 114, 115, 116, 117] 21 = Some (B, Hm)
         \<and> loop_state k (\<lambda>s. pos s < 23)
             (base_iteration hc3 B Hm
                [97, 98, 99, 100, 101, 102, 103, 104, 105, 106, 107, 108, 109, 110,
                 111, 112, 113, 114, 115, 116, 117] 21
                [120, 121, 97, 98, 99, 100, 101, 102, 103, 104, 105, 106, 107, 108,
                 109, 110, 111, 112, 113, 114, 115, 116, 117])
             (scanner_init 21) = Some s
         \<and> pos s = 22
         \<and> ANCHOR_HASH hc3 [120, 121, 97, 98, 99, 100, 101, 102, 103, 104, 105, 106, 107, 108,
                             109, 110, 111, 112, 113, 114, 115, 116, 117] 22 = Some H
         \<and> linked hc3 B
             (roll_from hc3 [120, 121, 97, 98, 99, 100, 101, 102, 103, 104, 105, 106, 107, 108,
                             109, 110, 111, 112, 113, 114, 115, 116, 117] H (22 - int (Q hc3)) 5)
             (roll_from hc3 [120, 121, 97, 98, 99, 100, 101, 102, 103, 104, 105, 106, 107, 108,
                             109, 110, 111, 112, 113, 114, 115, 116, 117] H (22 - int (Q hc3))
                (Suc 5)))
   \<and> hc3_search [97, 98, 99, 100, 101, 102, 103, 104, 105, 106, 107, 108, 109, 110,
                 111, 112, 113, 114, 115, 116, 117] 21
        [120, 121, 97, 98, 99, 100, 101, 102, 103, 104, 105, 106, 107, 108,
         109, 110, 111, 112, 113, 114, 115, 116, 117] 23 = Some 1"
proof -
  define x :: "byte list" where
    "x = [97, 98, 99, 100, 101, 102, 103, 104, 105, 106, 107, 108, 109, 110,
          111, 112, 113, 114, 115, 116, 117]"
  define y :: "byte list" where
    "y = [120, 121, 97, 98, 99, 100, 101, 102, 103, 104, 105, 106, 107, 108,
          109, 110, 111, 112, 113, 114, 115, 116, 117]"
  have l1: "21 = int (length x)" and l2: "23 = int (length y)" by (simp_all add: x_def y_def)
  have q: "int (Q hc3) \<le> 21" by (simp add: params_simps)
  have bd: "(23 :: int) + 21 < 2 ^ 31" by simp
  have o: "occurs_at x y 2" unfolding x_def y_def by code_simp
  have c: "occurrences x y (23 - 21 + 1) = 1" unfolding x_def y_def by code_simp
  have ps: "passes hc3 (22 - 21 + Q2 hc3) 22 = 6" by (simp add: passes_def Q2_def params_simps)
  have cl: "CHAIN_LENGTH hc3 < 5 * int (Q hc3)" by (simp add: CHAIN_LENGTH_def params_simps)
  from no_false_negatives [OF l1 l2 q] obtain B Hm where
    a: "hc3_preprocessing x 21 = Some (B, Hm)"
    and b: "\<forall>i. occurs_at x y i \<longrightarrow>
                 (\<exists>k s H p'.
                    loop_state k (\<lambda>s. pos s < 23) (base_iteration hc3 B Hm x 21 y)
                      (scanner_init 21) = Some s
                    \<and> pos s = i + 21 - 1 \<and> pos s < 23
                    \<and> ANCHOR_HASH hc3 y (pos s) = Some H \<and> B ! slot hc3 H \<noteq> 0
                    \<and> walk hc3 B y (pos s - 21 + Q2 hc3) (pos s) H (B ! slot hc3 H)
                        = Some (Verify p' Hm)
                    \<and> (\<forall>j. j < passes hc3 (pos s - 21 + Q2 hc3) (pos s) \<longrightarrow>
                          linked hc3 B (roll_from hc3 y H (pos s - int (Q hc3)) j)
                                       (roll_from hc3 y H (pos s - int (Q hc3)) (Suc j)))
                    \<and> pos s - 21 + Q2 hc3 - int (Q hc3) - END_FIRST_QGRAM hc3 = i
                    \<and> memcmp_eq y i x 21 = Some True
                    \<and> base_iteration hc3 B Hm x 21 y s
                        = Some (s\<lparr>pos := pos s + 1, count := count s + 1\<rparr>))"
    and r: "(23 :: int) + 21 < 2 ^ 31 \<longrightarrow> hc3_search x 21 y 23 = Some (occurrences x y (23 - 21 + 1))"
    by blast
  from r bd c have r': "hc3_search x 21 y 23 = Some 1" by simp
  from b o obtain k s H where
    s: "loop_state k (\<lambda>s. pos s < 23) (base_iteration hc3 B Hm x 21 y) (scanner_init 21) = Some s"
      "pos s = 2 + 21 - 1" "ANCHOR_HASH hc3 y (pos s) = Some H"
      "\<forall>j. j < passes hc3 (pos s - 21 + Q2 hc3) (pos s) \<longrightarrow>
           linked hc3 B (roll_from hc3 y H (pos s - int (Q hc3)) j)
                        (roll_from hc3 y H (pos s - int (Q hc3)) (Suc j))"
    by blast
  from s(2) have p22: "pos s = 22" by simp
  have "(5 :: nat) < passes hc3 (22 - 21 + Q2 hc3) 22" unfolding ps by simp
  with s(4) have lk: "linked hc3 B (roll_from hc3 y H (22 - int (Q hc3)) 5)
                                   (roll_from hc3 y H (22 - int (Q hc3)) (Suc 5))"
    unfolding p22 by blast
  from a s(1) p22 s(3) lk have e: "\<exists>B Hm k s H.
         hc3_preprocessing x 21 = Some (B, Hm)
         \<and> loop_state k (\<lambda>s. pos s < 23) (base_iteration hc3 B Hm x 21 y) (scanner_init 21)
             = Some s
         \<and> pos s = 22
         \<and> ANCHOR_HASH hc3 y 22 = Some H
         \<and> linked hc3 B (roll_from hc3 y H (22 - int (Q hc3)) 5)
                        (roll_from hc3 y H (22 - int (Q hc3)) (Suc 5))"
    by auto
  have "21 = int (length x) \<and> 23 = int (length y) \<and> int (Q hc3) \<le> 21 \<and> (23 :: int) + 21 < 2 ^ 31
    \<and> occurs_at x y 2 \<and> passes hc3 (22 - 21 + Q2 hc3) 22 = 6
    \<and> CHAIN_LENGTH hc3 < 5 * int (Q hc3)
    \<and> (\<exists>B Hm k s H.
         hc3_preprocessing x 21 = Some (B, Hm)
         \<and> loop_state k (\<lambda>s. pos s < 23) (base_iteration hc3 B Hm x 21 y) (scanner_init 21)
             = Some s
         \<and> pos s = 22
         \<and> ANCHOR_HASH hc3 y 22 = Some H
         \<and> linked hc3 B (roll_from hc3 y H (22 - int (Q hc3)) 5)
                        (roll_from hc3 y H (22 - int (Q hc3)) (Suc 5)))
    \<and> hc3_search x 21 y 23 = Some 1"
    by (intro conjI l1 l2 q bd o ps cl e r')
  then show ?thesis unfolding x_def y_def .
qed

subsection \<open>The links that preprocessing writes\<close>

text \<open>
  Claim C3, as the code has it. The chain loop runs from right to left and writes
  \<^verbatim>\<open>B[H_last & TABLE_MASK] |= LINK_HASH(H)\<close>, where \<open>H_last\<close> belongs to the q-gram
  that ends at \<open>chain_pos + Q\<close> and \<open>H\<close> to the one that ends at \<open>chain_pos\<close>: the word
  of the right q-gram receives the fingerprint of the left one.

  \<^item> \<^verbatim>\<open>hc4-qverify.c\<close>, for a pattern of length \<open>m \<ge> 2Q - 1\<close>: for every \<open>p\<close> with
    \<open>2Q - 1 \<le> p < m\<close>, the word at the chain hash of the q-gram ending at \<open>p\<close> has the
    fingerprint of the chain hash of the q-gram ending at \<open>p - Q\<close>.
  \<^item> \<^verbatim>\<open>hc3.c\<close>, for a pattern of length \<open>m \<ge> Q\<close>: the table is addressed by the
    rolling hash. For every anchor \<open>a\<close> with \<open>2Q - 1 \<le> a < m\<close> and every step \<open>i\<close> whose
    position \<open>a - Q - i Q\<close> is neither before \<open>Q - 1\<close> nor more than \<open>CHAIN_LENGTH\<close>
    before \<open>a - Q\<close>, the word at the hash after \<open>i\<close> steps has the fingerprint of the hash
    after \<open>i + 1\<close> steps, where the hash starts as \<^verbatim>\<open>ANCHOR_HASH(x, a)\<close> and a step at
    \<open>chain_pos\<close> is \<^verbatim>\<open>H = (H << S2) + CHAIN_HASH(x, chain_pos)\<close>.
\<close>

theorem chain_links_in_table:
  assumes "m = int (length x)"
  shows "(END_SECOND_QGRAM hc4qv \<le> m \<longrightarrow>
            (\<exists>B H. hc4qv_preprocessing x m = Some (B, H)
               \<and> (\<forall>p. END_SECOND_QGRAM hc4qv \<le> p \<and> p < m \<longrightarrow>
                     (\<exists>h h'. CHAIN_HASH hc4qv x p = Some h
                        \<and> CHAIN_HASH hc4qv x (p - int (Q hc4qv)) = Some h'
                        \<and> B ! slot hc4qv h AND LINK_HASH h' \<noteq> 0))))
       \<and> (int (Q hc3) \<le> m \<longrightarrow>
            (\<exists>B Hm. hc3_preprocessing x m = Some (B, Hm)
               \<and> (\<forall>a i. END_SECOND_QGRAM hc3 \<le> a \<and> a < m
                       \<and> END_FIRST_QGRAM hc3 \<le> a - int (Q hc3) - int i * int (Q hc3)
                       \<and> a - int (Q hc3) - CHAIN_LENGTH hc3
                            \<le> a - int (Q hc3) - int i * int (Q hc3) \<longrightarrow>
                     (\<exists>H0. ANCHOR_HASH hc3 x a = Some H0
                        \<and> B ! slot hc3 (roll_from hc3 x H0 (a - int (Q hc3)) i)
                            AND LINK_HASH (roll_from hc3 x H0 (a - int (Q hc3)) (Suc i)) \<noteq> 0))))"
proof -
  have a: "\<exists>B H. hc4qv_preprocessing x m = Some (B, H)
               \<and> (\<forall>p. END_SECOND_QGRAM hc4qv \<le> p \<and> p < m \<longrightarrow>
                     (\<exists>h h'. CHAIN_HASH hc4qv x p = Some h
                        \<and> CHAIN_HASH hc4qv x (p - int (Q hc4qv)) = Some h'
                        \<and> B ! slot hc4qv h AND LINK_HASH h' \<noteq> 0))"
    if m: "END_SECOND_QGRAM hc4qv \<le> m"
  proof -
    have q: "0 < Q hc4qv" "\<not> rolling hc4qv" "S1 hc4qv = S3 hc4qv"
      by (simp_all add: params_simps)
    have s: "1 \<le> int (Q hc4qv)" "int (Q hc4qv) \<le> m - END_FIRST_QGRAM hc4qv"
      using m by (simp_all add: params_simps END_SECOND_QGRAM_def Q2_def END_FIRST_QGRAM_def)
    from plain_preprocessing_spec [OF q assms s] obtain B H where
      r: "hc4qv_preprocessing x m = Some (B, H)"
      and lk: "\<forall>cn i. 1 \<le> cn \<and> cn \<le> int (Q hc4qv)
                 \<and> END_FIRST_QGRAM hc4qv \<le> m - cn - int (Suc i) * int (Q hc4qv)
               \<longrightarrow> linked hc4qv B (chv hc4qv x (m - cn - int i * int (Q hc4qv)))
                            (chv hc4qv x (m - cn - int (Suc i) * int (Q hc4qv)))"
      unfolding hc4qv_preprocessing_def by blast
    have "\<exists>h h'. CHAIN_HASH hc4qv x p = Some h
             \<and> CHAIN_HASH hc4qv x (p - int (Q hc4qv)) = Some h'
             \<and> B ! slot hc4qv h AND LINK_HASH h' \<noteq> 0"
      if p: "END_SECOND_QGRAM hc4qv \<le> p \<and> p < m" for p
    proof -
      from p have p1: "END_SECOND_QGRAM hc4qv \<le> p" and p2: "p < m" by simp_all
      from plain_links_all [OF q(1) lk p1 p2]
      have "B ! slot hc4qv (chv hc4qv x p) AND LINK_HASH (chv hc4qv x (p - int (Q hc4qv))) \<noteq> 0"
        by (simp add: linked_def)
      moreover have "CHAIN_HASH hc4qv x p = Some (chv hc4qv x p)"
        using p assms
        by (intro CHAIN_HASH_eq) (simp_all add: END_SECOND_QGRAM_def Q2_def END_FIRST_QGRAM_def)
      moreover have "CHAIN_HASH hc4qv x (p - int (Q hc4qv))
                       = Some (chv hc4qv x (p - int (Q hc4qv)))"
        using p assms
        by (intro CHAIN_HASH_eq) (simp_all add: END_SECOND_QGRAM_def Q2_def END_FIRST_QGRAM_def)
      ultimately show ?thesis by blast
    qed
    with r show ?thesis by blast
  qed
  have b: "\<exists>B Hm. hc3_preprocessing x m = Some (B, Hm)
               \<and> (\<forall>a i. END_SECOND_QGRAM hc3 \<le> a \<and> a < m
                       \<and> END_FIRST_QGRAM hc3 \<le> a - int (Q hc3) - int i * int (Q hc3)
                       \<and> a - int (Q hc3) - CHAIN_LENGTH hc3
                            \<le> a - int (Q hc3) - int i * int (Q hc3) \<longrightarrow>
                     (\<exists>H0. ANCHOR_HASH hc3 x a = Some H0
                        \<and> B ! slot hc3 (roll_from hc3 x H0 (a - int (Q hc3)) i)
                            AND LINK_HASH (roll_from hc3 x H0 (a - int (Q hc3)) (Suc i)) \<noteq> 0))"
    if m: "int (Q hc3) \<le> m"
  proof -
    have q: "0 < Q hc3" by (simp add: params_simps)
    from rolling_preprocessing_spec [OF q assms m] obtain B Hm where
      r: "hc3_preprocessing x m = Some (B, Hm)"
      and lk: "\<forall>a i. END_SECOND_QGRAM hc3 \<le> a \<and> a < m
                 \<and> max (END_FIRST_QGRAM hc3) (a - int (Q hc3) - CHAIN_LENGTH hc3)
                     \<le> a - int (Q hc3) - int i * int (Q hc3)
               \<longrightarrow> linked hc3 B (roll_from hc3 x (anv hc3 x a) (a - int (Q hc3)) i)
                            (roll_from hc3 x (anv hc3 x a) (a - int (Q hc3)) (Suc i))"
      unfolding hc3_preprocessing_def by blast
    have "\<exists>H0. ANCHOR_HASH hc3 x a = Some H0
             \<and> B ! slot hc3 (roll_from hc3 x H0 (a - int (Q hc3)) i)
                 AND LINK_HASH (roll_from hc3 x H0 (a - int (Q hc3)) (Suc i)) \<noteq> 0"
      if h: "END_SECOND_QGRAM hc3 \<le> a \<and> a < m
             \<and> END_FIRST_QGRAM hc3 \<le> a - int (Q hc3) - int i * int (Q hc3)
             \<and> a - int (Q hc3) - CHAIN_LENGTH hc3 \<le> a - int (Q hc3) - int i * int (Q hc3)"
      for a i
    proof -
      from h have "END_SECOND_QGRAM hc3 \<le> a \<and> a < m
                 \<and> max (END_FIRST_QGRAM hc3) (a - int (Q hc3) - CHAIN_LENGTH hc3)
                     \<le> a - int (Q hc3) - int i * int (Q hc3)"
        by simp
      with lk have "linked hc3 B (roll_from hc3 x (anv hc3 x a) (a - int (Q hc3)) i)
                            (roll_from hc3 x (anv hc3 x a) (a - int (Q hc3)) (Suc i))"
        by blast
      moreover have "ANCHOR_HASH hc3 x a = Some (anv hc3 x a)"
        using h assms
        by (intro ANCHOR_HASH_eq) (simp_all add: END_SECOND_QGRAM_def Q2_def END_FIRST_QGRAM_def)
      ultimately show ?thesis unfolding linked_def by blast
    qed
    with r show ?thesis by blast
  qed
  from a b show ?thesis by blast
qed

text \<open>
  The theorem at the pattern \<open>abcdefgh\<close>. In \<^verbatim>\<open>hc4-qverify.c\<close> the q-grams \<open>abcd\<close> and
  \<open>efgh\<close> end at 3 and 7 and have the chain hashes 58417 and 60757; the word of \<open>efgh\<close>
  has the fingerprint of \<open>abcd\<close>. In \<^verbatim>\<open>hc3.c\<close> the anchor hash at 7 is 7582, and the
  first step of its chain, at position 4, gives 122015.
\<close>

theorem chain_links_in_table_witness:
  "8 = int (length [97, 98, 99, 100, 101, 102, 103, 104 :: byte])
   \<and> END_SECOND_QGRAM hc4qv \<le> 8 \<and> END_SECOND_QGRAM hc4qv \<le> 7 \<and> (7 :: int) < 8
   \<and> int (Q hc3) \<le> 8 \<and> END_SECOND_QGRAM hc3 \<le> 7
   \<and> END_FIRST_QGRAM hc3 \<le> 7 - int (Q hc3) - int 0 * int (Q hc3)
   \<and> CHAIN_HASH hc4qv [97, 98, 99, 100, 101, 102, 103, 104] 7 = Some 60757
   \<and> CHAIN_HASH hc4qv [97, 98, 99, 100, 101, 102, 103, 104] (7 - int (Q hc4qv)) = Some 58417
   \<and> (\<exists>B H. hc4qv_preprocessing [97, 98, 99, 100, 101, 102, 103, 104] 8 = Some (B, H)
         \<and> B ! slot hc4qv 60757 AND LINK_HASH 58417 \<noteq> 0)
   \<and> ANCHOR_HASH hc3 [97, 98, 99, 100, 101, 102, 103, 104] 7 = Some 7582
   \<and> (\<exists>B Hm. hc3_preprocessing [97, 98, 99, 100, 101, 102, 103, 104] 8 = Some (B, Hm)
         \<and> B ! slot hc3 7582
             AND LINK_HASH (roll_from hc3 [97, 98, 99, 100, 101, 102, 103, 104] 7582
                              (7 - int (Q hc3)) (Suc 0)) \<noteq> 0)"
proof -
  let ?x = "[97, 98, 99, 100, 101, 102, 103, 104 :: byte]"
  have l: "8 = int (length ?x)" by simp
  have q1: "END_SECOND_QGRAM hc4qv \<le> 8" and q2: "END_SECOND_QGRAM hc4qv \<le> 7"
    and q3: "(7 :: int) < 8" and q4: "int (Q hc3) \<le> 8" and q5: "END_SECOND_QGRAM hc3 \<le> 7"
    and q6: "END_FIRST_QGRAM hc3 \<le> 7 - int (Q hc3) - int 0 * int (Q hc3)"
    and q7: "7 - int (Q hc3) - CHAIN_LENGTH hc3 \<le> 7 - int (Q hc3) - int 0 * int (Q hc3)"
    by (simp_all add: END_SECOND_QGRAM_def END_FIRST_QGRAM_def Q2_def CHAIN_LENGTH_def
        params_simps)
  have e1: "CHAIN_HASH hc4qv ?x 7 = Some 60757" by code_simp
  have e2: "CHAIN_HASH hc4qv ?x (7 - int (Q hc4qv)) = Some 58417" by code_simp
  have e3: "ANCHOR_HASH hc3 ?x 7 = Some 7582" by code_simp
  note t = chain_links_in_table [OF l]
  from mp [OF conjunct1 [OF t] q1] obtain B H where
    b: "hc4qv_preprocessing ?x 8 = Some (B, H)"
    and bl: "\<forall>p. END_SECOND_QGRAM hc4qv \<le> p \<and> p < 8 \<longrightarrow>
               (\<exists>h h'. CHAIN_HASH hc4qv ?x p = Some h
                  \<and> CHAIN_HASH hc4qv ?x (p - int (Q hc4qv)) = Some h'
                  \<and> B ! slot hc4qv h AND LINK_HASH h' \<noteq> 0)"
    by blast
  from q2 q3 have "END_SECOND_QGRAM hc4qv \<le> 7 \<and> (7 :: int) < 8" by (rule conjI)
  with bl obtain h h' where
    "CHAIN_HASH hc4qv ?x 7 = Some h" "CHAIN_HASH hc4qv ?x (7 - int (Q hc4qv)) = Some h'"
    "B ! slot hc4qv h AND LINK_HASH h' \<noteq> 0"
    by blast
  with e1 e2 have r1: "B ! slot hc4qv 60757 AND LINK_HASH 58417 \<noteq> 0" by simp
  from mp [OF conjunct2 [OF t] q4] obtain B' Hm where
    c: "hc3_preprocessing ?x 8 = Some (B', Hm)"
    and cl: "\<forall>a i. END_SECOND_QGRAM hc3 \<le> a \<and> a < 8
                \<and> END_FIRST_QGRAM hc3 \<le> a - int (Q hc3) - int i * int (Q hc3)
                \<and> a - int (Q hc3) - CHAIN_LENGTH hc3 \<le> a - int (Q hc3) - int i * int (Q hc3) \<longrightarrow>
               (\<exists>H0. ANCHOR_HASH hc3 ?x a = Some H0
                  \<and> B' ! slot hc3 (roll_from hc3 ?x H0 (a - int (Q hc3)) i)
                      AND LINK_HASH (roll_from hc3 ?x H0 (a - int (Q hc3)) (Suc i)) \<noteq> 0)"
    by blast
  from q5 q3 q6 q7 have "END_SECOND_QGRAM hc3 \<le> 7 \<and> (7 :: int) < 8
      \<and> END_FIRST_QGRAM hc3 \<le> 7 - int (Q hc3) - int 0 * int (Q hc3)
      \<and> 7 - int (Q hc3) - CHAIN_LENGTH hc3 \<le> 7 - int (Q hc3) - int 0 * int (Q hc3)"
    by (intro conjI)
  with cl obtain H0 where
    "ANCHOR_HASH hc3 ?x 7 = Some H0"
    "B' ! slot hc3 (roll_from hc3 ?x H0 (7 - int (Q hc3)) 0)
       AND LINK_HASH (roll_from hc3 ?x H0 (7 - int (Q hc3)) (Suc 0)) \<noteq> 0"
    by blast
  with e3 have r2: "B' ! slot hc3 7582
       AND LINK_HASH (roll_from hc3 ?x 7582 (7 - int (Q hc3)) (Suc 0)) \<noteq> 0"
    by simp
  from b r1 have s1: "\<exists>B H. hc4qv_preprocessing ?x 8 = Some (B, H)
         \<and> B ! slot hc4qv 60757 AND LINK_HASH 58417 \<noteq> 0" by blast
  from c r2 have s2: "\<exists>B Hm. hc3_preprocessing ?x 8 = Some (B, Hm)
         \<and> B ! slot hc3 7582
             AND LINK_HASH (roll_from hc3 ?x 7582 (7 - int (Q hc3)) (Suc 0)) \<noteq> 0" by blast
  show ?thesis by (intro conjI l q1 q2 q3 q4 q5 q6 e1 e2 s1 e3 s2)
qed

text \<open>
  In the order of the claim the link is absent: after preprocessing \<open>abcdefgh\<close> in
  \<^verbatim>\<open>hc4-qverify.c\<close>, the word of \<open>abcd\<close> (index 1073) holds only the fingerprint 16384
  that the fill of the leading q-grams wrote, not the fingerprint 2097152 of \<open>efgh\<close>,
  while the word of \<open>efgh\<close> (index 3413) is the fingerprint 131072 of \<open>abcd\<close>.
\<close>

theorem chain_link_direction_counterexample:
  "CHAIN_HASH hc4qv [97, 98, 99, 100, 101, 102, 103, 104] 3 = Some 58417
   \<and> CHAIN_HASH hc4qv [97, 98, 99, 100, 101, 102, 103, 104] (3 + int (Q hc4qv)) = Some 60757
   \<and> slot hc4qv 58417 = 1073 \<and> slot hc4qv 60757 = 3413
   \<and> LINK_HASH 58417 = 131072 \<and> LINK_HASH 60757 = 2097152
   \<and> (case hc4qv_preprocessing [97, 98, 99, 100, 101, 102, 103, 104] 8 of
         None \<Rightarrow> False
       | Some (B, H) \<Rightarrow>
           B ! 1073 = 16384 \<and> B ! 3413 = 131072
           \<and> B ! slot hc4qv 58417 AND LINK_HASH 60757 = 0)"
  by code_simp

subsection \<open>Progress of the main loop\<close>

text \<open>
  Claim C4. For a pattern of length \<open>m \<ge> Q\<close> and a text of length \<open>n\<close> with
  \<open>n + m < 2^31\<close>, every pass of \<^verbatim>\<open>while (pos < n)\<close> returns and leaves \<open>pos\<close> at least one
  higher and below \<open>2^31\<close>, so that the C \<^verbatim>\<open>int\<close> does not overflow, from every state that
  the loop can be in: \<open>m - 1 \<le> pos < n\<close> and, in \<^verbatim>\<open>lhc4.c\<close>, the cursor of the
  verification inside the pattern and \<open>next_verify_pos \<le> n\<close>, which the first state
  satisfies and every pass keeps. So the loop leaves within \<open>n\<close> passes and \<^verbatim>\<open>search\<close>
  returns the count of the state in which it leaves. This is \<^verbatim>\<open>hc3.c\<close> (a chain walk
  and one comparison), \<^verbatim>\<open>lhc4.c\<close> (a chain walk and the verification with the failure
  table, resumed at \<open>next_verify_pos + m - 1 - pattern_pos\<close>) and \<^verbatim>\<open>hc4-qverify.c\<close> (a
  chain walk and the verification of \<open>Q\<close> alignments): its loop on any table, and its
  \<^verbatim>\<open>search\<close> for \<open>m \<ge> 2Q - 1\<close>, where its \<^verbatim>\<open>preprocessing\<close> stays inside the pattern.
\<close>

theorem main_loop_advances:
  assumes "m = int (length x)" "n = int (length y)" "n + m < 2 ^ 31"
  shows "(int (Q hc3) \<le> m \<longrightarrow>
            (\<exists>B Hm t. hc3_preprocessing x m = Some (B, Hm)
               \<and> (\<forall>s. m - 1 \<le> pos s \<and> pos s < n \<longrightarrow>
                     (\<exists>s'. base_iteration hc3 B Hm x m y s = Some s' \<and> pos s + 1 \<le> pos s'
                        \<and> pos s' < 2 ^ 31))
               \<and> bounded_loop (nat n) (\<lambda>s. pos s < n) (base_iteration hc3 B Hm x m y)
                    (scanner_init m) = Some t
               \<and> hc3_search x m y n = Some (count t)))
       \<and> (int (Q lhc4) \<le> m \<longrightarrow>
            (\<exists>B Hm KMP t. lhc4_preprocessing x m = Some (B, Hm)
               \<and> pre_kmp x m (replicate (nat (m + 1)) None) = Some KMP
               \<and> kmp_state m (scanner_init m) \<and> next_verify_pos (scanner_init m) \<le> n
               \<and> (\<forall>s. m - 1 \<le> pos s \<and> pos s < n \<and> kmp_state m s \<and> next_verify_pos s \<le> n
                     \<longrightarrow>
                     (\<exists>s'. lhc4_iteration lhc4 B KMP x m y s = Some s' \<and> pos s + 1 \<le> pos s'
                        \<and> pos s' < 2 ^ 31 \<and> kmp_state m s' \<and> next_verify_pos s' \<le> n))
               \<and> bounded_loop (nat n) (\<lambda>s. pos s < n) (lhc4_iteration lhc4 B KMP x m y)
                    (scanner_init m) = Some t
               \<and> lhc4_search x m y n = Some (count t)))
       \<and> (int (Q hc4qv) \<le> m \<longrightarrow>
            (\<forall>B. (\<forall>s. m - 1 \<le> pos s \<and> pos s < n \<longrightarrow>
                     (\<exists>s'. qverify_iteration hc4qv B x m y n s = Some s'
                        \<and> pos s + 1 \<le> pos s' \<and> pos s' < 2 ^ 31))
               \<and> (\<exists>t. bounded_loop (nat n) (\<lambda>s. pos s < n) (qverify_iteration hc4qv B x m y n)
                         (scanner_init m) = Some t
                     \<and> qverify_loop hc4qv B x m y n (scanner_init m) = Some (count t))))
       \<and> (END_SECOND_QGRAM hc4qv \<le> m \<longrightarrow>
            (\<exists>B H t. hc4qv_preprocessing x m = Some (B, H)
               \<and> bounded_loop (nat n) (\<lambda>s. pos s < n) (qverify_iteration hc4qv B x m y n)
                    (scanner_init m) = Some t
               \<and> hc4qv_search x m y n = Some (count t)))"
proof -
  have a: "\<exists>B Hm t. hc3_preprocessing x m = Some (B, Hm)
               \<and> (\<forall>s. m - 1 \<le> pos s \<and> pos s < n \<longrightarrow>
                     (\<exists>s'. base_iteration hc3 B Hm x m y s = Some s' \<and> pos s + 1 \<le> pos s'
                        \<and> pos s' < 2 ^ 31))
               \<and> bounded_loop (nat n) (\<lambda>s. pos s < n) (base_iteration hc3 B Hm x m y)
                    (scanner_init m) = Some t
               \<and> hc3_search x m y n = Some (count t)"
    if q: "int (Q hc3) \<le> m"
  proof -
    have q0: "0 < Q hc3" by (simp add: params_simps)
    from hc3_search_run [OF assms(1,2) q] obtain B Hm t where
      r: "hc3_preprocessing x m = Some (B, Hm)"
        "bounded_loop (nat n) (\<lambda>s. pos s < n) (base_iteration hc3 B Hm x m y) (scanner_init m)
           = Some t"
        "hc3_search x m y n = Some (count t)"
      by blast
    have "\<exists>s'. base_iteration hc3 B Hm x m y s = Some s' \<and> pos s + 1 \<le> pos s'
             \<and> pos s' < 2 ^ 31"
      if h: "m - 1 \<le> pos s \<and> pos s < n" for s
    proof -
      from base_iteration_progress [OF q0 q assms(1,2), of s B Hm] h obtain s' where
        "base_iteration hc3 B Hm x m y s = Some s'" "pos s + 1 \<le> pos s'" "pos s' \<le> n + m"
        by blast
      with assms(3) show ?thesis by auto
    qed
    with r show ?thesis by blast
  qed
  have b: "\<exists>B Hm KMP t. lhc4_preprocessing x m = Some (B, Hm)
               \<and> pre_kmp x m (replicate (nat (m + 1)) None) = Some KMP
               \<and> kmp_state m (scanner_init m) \<and> next_verify_pos (scanner_init m) \<le> n
               \<and> (\<forall>s. m - 1 \<le> pos s \<and> pos s < n \<and> kmp_state m s \<and> next_verify_pos s \<le> n
                     \<longrightarrow>
                     (\<exists>s'. lhc4_iteration lhc4 B KMP x m y s = Some s' \<and> pos s + 1 \<le> pos s'
                        \<and> pos s' < 2 ^ 31 \<and> kmp_state m s' \<and> next_verify_pos s' \<le> n))
               \<and> bounded_loop (nat n) (\<lambda>s. pos s < n) (lhc4_iteration lhc4 B KMP x m y)
                    (scanner_init m) = Some t
               \<and> lhc4_search x m y n = Some (count t)"
    if q: "int (Q lhc4) \<le> m"
  proof -
    have q0: "0 < Q lhc4" by (simp add: params_simps_plain)
    from lhc4_search_run [OF assms(1,2) q] obtain B Hm KMP t where
      r: "lhc4_preprocessing x m = Some (B, Hm)"
        "pre_kmp x m (replicate (nat (m + 1)) None) = Some KMP" "tab_inv x m KMP m"
        "bounded_loop (nat n) (\<lambda>s. pos s < n) (lhc4_iteration lhc4 B KMP x m y) (scanner_init m)
           = Some t"
        "lhc4_search x m y n = Some (count t)"
      by blast
    have i: "kmp_state m (scanner_init m)" "next_verify_pos (scanner_init m) \<le> n"
      using q q0 assms(2) by (simp_all add: kmp_state_def scanner_init_def)
    have "\<exists>s'. lhc4_iteration lhc4 B KMP x m y s = Some s' \<and> pos s + 1 \<le> pos s'
             \<and> pos s' < 2 ^ 31 \<and> kmp_state m s' \<and> next_verify_pos s' \<le> n"
      if h: "m - 1 \<le> pos s \<and> pos s < n \<and> kmp_state m s \<and> next_verify_pos s \<le> n" for s
    proof -
      from h have h': "m - 1 \<le> pos s" "pos s < n" "kmp_state m s" "next_verify_pos s \<le> n"
        by simp_all
      from lhc4_iteration_progress [OF q0 q assms(1,2) r(3) h', of B] obtain s' where
        "lhc4_iteration lhc4 B KMP x m y s = Some s'" "pos s + 1 \<le> pos s'"
        "kmp_state m s'" "next_verify_pos s' \<le> n" "pos s' \<le> n + m"
        by blast
      with assms(3) show ?thesis by auto
    qed
    with r i show ?thesis by blast
  qed
  have c: "(\<forall>s. m - 1 \<le> pos s \<and> pos s < n \<longrightarrow>
               (\<exists>s'. qverify_iteration hc4qv B x m y n s = Some s' \<and> pos s + 1 \<le> pos s'
                  \<and> pos s' < 2 ^ 31))
           \<and> (\<exists>t. bounded_loop (nat n) (\<lambda>s. pos s < n) (qverify_iteration hc4qv B x m y n)
                     (scanner_init m) = Some t
                 \<and> qverify_loop hc4qv B x m y n (scanner_init m) = Some (count t))"
    if q: "int (Q hc4qv) \<le> m" for B
  proof -
    have q0: "0 < Q hc4qv" by (simp add: params_simps)
    have "\<exists>s'. qverify_iteration hc4qv B x m y n s = Some s' \<and> pos s + 1 \<le> pos s'
             \<and> pos s' < 2 ^ 31"
      if h: "m - 1 \<le> pos s \<and> pos s < n" for s
    proof -
      from qverify_iteration_progress [OF q0 q assms(1,2), of s B] h obtain s' where
        "qverify_iteration hc4qv B x m y n s = Some s'" "pos s + 1 \<le> pos s'" "pos s' \<le> n + m"
        by blast
      with assms(3) show ?thesis by auto
    qed
    moreover from qverify_loop_total [OF q0 q assms(1,2), of B]
    have "\<exists>t. bounded_loop (nat n) (\<lambda>s. pos s < n) (qverify_iteration hc4qv B x m y n)
                 (scanner_init m) = Some t
             \<and> qverify_loop hc4qv B x m y n (scanner_init m) = Some (count t)"
      by blast
    ultimately show ?thesis by blast
  qed
  have d: "\<exists>B H t. hc4qv_preprocessing x m = Some (B, H)
               \<and> bounded_loop (nat n) (\<lambda>s. pos s < n) (qverify_iteration hc4qv B x m y n)
                    (scanner_init m) = Some t
               \<and> hc4qv_search x m y n = Some (count t)"
    if q: "END_SECOND_QGRAM hc4qv \<le> m"
    using hc4qv_search_exact [OF assms(1,2) q] by blast
  from a b c d show ?thesis by blast
qed

text \<open>
  The theorem at the pattern \<open>abcdefgh\<close> and the text \<open>abcdefghabcdefgh\<close>: the three
  searches return 2, each on the table that its \<^verbatim>\<open>preprocessing\<close> has built, with walks
  that take a step.
\<close>

theorem main_loop_advances_witness:
  "8 = int (length [97, 98, 99, 100, 101, 102, 103, 104 :: byte])
   \<and> 16 = int (length [97, 98, 99, 100, 101, 102, 103, 104,
                        97, 98, 99, 100, 101, 102, 103, 104 :: byte])
   \<and> (16 :: int) + 8 < 2 ^ 31
   \<and> int (Q hc3) \<le> 8 \<and> int (Q lhc4) \<le> 8 \<and> int (Q hc4qv) \<le> 8 \<and> END_SECOND_QGRAM hc4qv \<le> 8
   \<and> 0 < passes hc3 (7 - 8 + Q2 hc3) 7 \<and> 0 < passes hc4qv (7 - 8 + Q2 hc4qv) 7
   \<and> hc3_search [97, 98, 99, 100, 101, 102, 103, 104] 8
        [97, 98, 99, 100, 101, 102, 103, 104, 97, 98, 99, 100, 101, 102, 103, 104] 16 = Some 2
   \<and> lhc4_search [97, 98, 99, 100, 101, 102, 103, 104] 8
        [97, 98, 99, 100, 101, 102, 103, 104, 97, 98, 99, 100, 101, 102, 103, 104] 16 = Some 2
   \<and> hc4qv_search [97, 98, 99, 100, 101, 102, 103, 104] 8
        [97, 98, 99, 100, 101, 102, 103, 104, 97, 98, 99, 100, 101, 102, 103, 104] 16 = Some 2
   \<and> (\<exists>B Hm t. hc3_preprocessing [97, 98, 99, 100, 101, 102, 103, 104] 8 = Some (B, Hm)
        \<and> bounded_loop (nat 16) (\<lambda>s. pos s < 16)
            (base_iteration hc3 B Hm [97, 98, 99, 100, 101, 102, 103, 104] 8
               [97, 98, 99, 100, 101, 102, 103, 104, 97, 98, 99, 100, 101, 102, 103, 104])
            (scanner_init 8) = Some t
        \<and> count t = 2)
   \<and> (\<exists>B Hm KMP t. lhc4_preprocessing [97, 98, 99, 100, 101, 102, 103, 104] 8 = Some (B, Hm)
        \<and> pre_kmp [97, 98, 99, 100, 101, 102, 103, 104] 8 (replicate (nat (8 + 1)) None)
            = Some KMP
        \<and> bounded_loop (nat 16) (\<lambda>s. pos s < 16)
            (lhc4_iteration lhc4 B KMP [97, 98, 99, 100, 101, 102, 103, 104] 8
               [97, 98, 99, 100, 101, 102, 103, 104, 97, 98, 99, 100, 101, 102, 103, 104])
            (scanner_init 8) = Some t
        \<and> count t = 2)
   \<and> (\<exists>B H t. hc4qv_preprocessing [97, 98, 99, 100, 101, 102, 103, 104] 8 = Some (B, H)
        \<and> bounded_loop (nat 16) (\<lambda>s. pos s < 16)
            (qverify_iteration hc4qv B [97, 98, 99, 100, 101, 102, 103, 104] 8
               [97, 98, 99, 100, 101, 102, 103, 104, 97, 98, 99, 100, 101, 102, 103, 104] 16)
            (scanner_init 8) = Some t
        \<and> count t = 2)"
proof -
  define x :: "byte list" where "x = [97, 98, 99, 100, 101, 102, 103, 104]"
  define y :: "byte list" where
    "y = [97, 98, 99, 100, 101, 102, 103, 104, 97, 98, 99, 100, 101, 102, 103, 104]"
  have l: "8 = int (length x)" "16 = int (length y)" "(16 :: int) + 8 < 2 ^ 31"
    by (simp_all add: x_def y_def)
  have q: "int (Q hc3) \<le> 8" "int (Q lhc4) \<le> 8" "int (Q hc4qv) \<le> 8"
    "END_SECOND_QGRAM hc4qv \<le> 8"
    by (simp_all add: params_simps params_simps_plain END_SECOND_QGRAM_def Q2_def)
  have ps: "0 < passes hc3 (7 - 8 + Q2 hc3) 7" "0 < passes hc4qv (7 - 8 + Q2 hc4qv) 7"
    by (simp_all add: passes_def Q2_def params_simps)
  have e1: "hc3_search x 8 y 16 = Some 2" unfolding x_def y_def by code_simp
  have e2: "lhc4_search x 8 y 16 = Some 2" unfolding x_def y_def by code_simp
  have e3: "hc4qv_search x 8 y 16 = Some 2" unfolding x_def y_def by code_simp
  note t = main_loop_advances [OF l]
  from t q(1) obtain B Hm t1 where
    a: "hc3_preprocessing x 8 = Some (B, Hm)"
      "bounded_loop (nat 16) (\<lambda>s. pos s < 16) (base_iteration hc3 B Hm x 8 y) (scanner_init 8)
         = Some t1"
      "hc3_search x 8 y 16 = Some (count t1)"
    by blast
  from t q(2) obtain B' Hm' KMP t2 where
    b: "lhc4_preprocessing x 8 = Some (B', Hm')"
      "pre_kmp x 8 (replicate (nat (8 + 1)) None) = Some KMP"
      "bounded_loop (nat 16) (\<lambda>s. pos s < 16) (lhc4_iteration lhc4 B' KMP x 8 y) (scanner_init 8)
         = Some t2"
      "lhc4_search x 8 y 16 = Some (count t2)"
    by blast
  from t q(4) obtain B'' H'' t3 where
    c: "hc4qv_preprocessing x 8 = Some (B'', H'')"
      "bounded_loop (nat 16) (\<lambda>s. pos s < 16) (qverify_iteration hc4qv B'' x 8 y 16)
         (scanner_init 8) = Some t3"
      "hc4qv_search x 8 y 16 = Some (count t3)"
    by blast
  from a(3) e1 have c1: "count t1 = 2" by simp
  from b(4) e2 have c2: "count t2 = 2" by simp
  from c(3) e3 have c3: "count t3 = 2" by simp
  from a(1,2) c1 have s1: "\<exists>B Hm t. hc3_preprocessing x 8 = Some (B, Hm)
        \<and> bounded_loop (nat 16) (\<lambda>s. pos s < 16) (base_iteration hc3 B Hm x 8 y) (scanner_init 8)
            = Some t
        \<and> count t = 2" by blast
  from b(1,2,3) c2 have s2: "\<exists>B Hm KMP t. lhc4_preprocessing x 8 = Some (B, Hm)
        \<and> pre_kmp x 8 (replicate (nat (8 + 1)) None) = Some KMP
        \<and> bounded_loop (nat 16) (\<lambda>s. pos s < 16) (lhc4_iteration lhc4 B KMP x 8 y)
            (scanner_init 8) = Some t
        \<and> count t = 2" by blast
  from c(1,2) c3 have s3: "\<exists>B H t. hc4qv_preprocessing x 8 = Some (B, H)
        \<and> bounded_loop (nat 16) (\<lambda>s. pos s < 16) (qverify_iteration hc4qv B x 8 y 16)
            (scanner_init 8) = Some t
        \<and> count t = 2" by blast
  have "8 = int (length x) \<and> 16 = int (length y) \<and> (16 :: int) + 8 < 2 ^ 31
    \<and> int (Q hc3) \<le> 8 \<and> int (Q lhc4) \<le> 8 \<and> int (Q hc4qv) \<le> 8 \<and> END_SECOND_QGRAM hc4qv \<le> 8
    \<and> 0 < passes hc3 (7 - 8 + Q2 hc3) 7 \<and> 0 < passes hc4qv (7 - 8 + Q2 hc4qv) 7
    \<and> hc3_search x 8 y 16 = Some 2 \<and> lhc4_search x 8 y 16 = Some 2
    \<and> hc4qv_search x 8 y 16 = Some 2
    \<and> (\<exists>B Hm t. hc3_preprocessing x 8 = Some (B, Hm)
        \<and> bounded_loop (nat 16) (\<lambda>s. pos s < 16) (base_iteration hc3 B Hm x 8 y) (scanner_init 8)
            = Some t
        \<and> count t = 2)
    \<and> (\<exists>B Hm KMP t. lhc4_preprocessing x 8 = Some (B, Hm)
        \<and> pre_kmp x 8 (replicate (nat (8 + 1)) None) = Some KMP
        \<and> bounded_loop (nat 16) (\<lambda>s. pos s < 16) (lhc4_iteration lhc4 B KMP x 8 y)
            (scanner_init 8) = Some t
        \<and> count t = 2)
    \<and> (\<exists>B H t. hc4qv_preprocessing x 8 = Some (B, H)
        \<and> bounded_loop (nat 16) (\<lambda>s. pos s < 16) (qverify_iteration hc4qv B x 8 y 16)
            (scanner_init 8) = Some t
        \<and> count t = 2)"
    by (intro conjI l q ps e1 e2 e3 s1 s2 s3)
  then show ?thesis unfolding x_def y_def .
qed

subsection \<open>The sentinel for a short pattern\<close>

text \<open>
  Claim C5. \<^verbatim>\<open>search\<close> of \<^verbatim>\<open>hc3.c\<close> and of \<^verbatim>\<open>whc3.c\<close> returns \<open>-1\<close> exactly when
  \<open>m < Q\<close>. The equivalence holds for all arguments, whatever the buffers hold and however
  long they are: with \<open>m < Q\<close> the result is \<open>-1\<close> although no byte of \<open>x\<close> or \<open>y\<close> could be
  read, so the return comes before preprocessing and scanning; with \<open>m \<ge> Q\<close> every result
  is a count \<open>\<ge> 0\<close>. For a pattern of length \<open>m \<ge> Q\<close> and a text of length \<open>n\<close> with
  \<open>n + m < 2^31\<close>, where no position overflows the C \<^verbatim>\<open>int\<close>, the call does return, and
  its count is \<open>\<ge> 0\<close>.
\<close>

theorem short_pattern_sentinel:
  "(hc3_search x m y n = Some (- 1) \<longleftrightarrow> m < int (Q hc3))
   \<and> (whc3_search x m y n = Some (- 1) \<longleftrightarrow> m < int (Q whc3))
   \<and> (int (Q hc3) \<le> m \<longrightarrow> (\<forall>r. hc3_search x m y n = Some r \<longrightarrow> 0 \<le> r))
   \<and> (int (Q whc3) \<le> m \<longrightarrow> (\<forall>r. whc3_search x m y n = Some r \<longrightarrow> 0 \<le> r))
   \<and> (m = int (length x) \<and> n = int (length y) \<and> n + m < 2 ^ 31 \<and> int (Q hc3) \<le> m \<longrightarrow>
        (\<exists>r. hc3_search x m y n = Some r \<and> 0 \<le> r))
   \<and> (m = int (length x) \<and> n = int (length y) \<and> n + m < 2 ^ 31 \<and> int (Q whc3) \<le> m \<longrightarrow>
        (\<exists>r. whc3_search x m y n = Some r \<and> 0 \<le> r))"
proof -
  have a: "hc3_search x m y n = Some (- 1) \<longleftrightarrow> m < int (Q hc3)"
  proof (cases "m < int (Q hc3)")
    case True
    then show ?thesis by (simp add: hc3_search_def rolling_search_def)
  next
    case False
    then have "hc3_search x m y n \<noteq> Some (- 1)"
      using hc3_search_count [of x m y n "- 1"] by auto
    with False show ?thesis by simp
  qed
  have b: "whc3_search x m y n = Some (- 1) \<longleftrightarrow> m < int (Q whc3)"
  proof (cases "m < int (Q whc3)")
    case True
    then show ?thesis by (simp add: whc3_search_def)
  next
    case False
    then have "whc3_search x m y n \<noteq> Some (- 1)"
      using whc3_search_count [of x m y n "- 1"] by auto
    with False show ?thesis by simp
  qed
  have c: "int (Q hc3) \<le> m \<longrightarrow> (\<forall>r. hc3_search x m y n = Some r \<longrightarrow> 0 \<le> r)"
    using hc3_search_count by blast
  have d: "int (Q whc3) \<le> m \<longrightarrow> (\<forall>r. whc3_search x m y n = Some r \<longrightarrow> 0 \<le> r)"
    using whc3_search_count by blast
  have e: "m = int (length x) \<and> n = int (length y) \<and> n + m < 2 ^ 31 \<and> int (Q hc3) \<le> m \<longrightarrow>
             (\<exists>r. hc3_search x m y n = Some r \<and> 0 \<le> r)"
    using hc3_search_run [of m x n y] by blast
  have f: "m = int (length x) \<and> n = int (length y) \<and> n + m < 2 ^ 31 \<and> int (Q whc3) \<le> m \<longrightarrow>
             (\<exists>r. whc3_search x m y n = Some r \<and> 0 \<le> r)"
    using whc3_search_run [of m x n y] by blast
  from a b c d e f show ?thesis by blast
qed

text \<open>
  The theorem at the pattern \<open>ab\<close>, too short for both files, and at the pattern \<open>abc\<close>,
  which occurs twice in \<open>abcabc\<close>.
\<close>

theorem short_pattern_sentinel_witness:
  "(2 :: int) < int (Q hc3) \<and> (2 :: int) < int (Q whc3)
   \<and> hc3_search [97, 98] 2 [97, 98, 97, 98] 4 = Some (- 1)
   \<and> whc3_search [97, 98] 2 [97, 98, 97, 98] 4 = Some (- 1)
   \<and> 3 = int (length [97, 98, 99 :: byte]) \<and> 6 = int (length [97, 98, 99, 97, 98, 99 :: byte])
   \<and> (6 :: int) + 3 < 2 ^ 31
   \<and> int (Q hc3) \<le> 3 \<and> int (Q whc3) \<le> 3
   \<and> (\<exists>r. hc3_search [97, 98, 99] 3 [97, 98, 99, 97, 98, 99] 6 = Some r \<and> 0 \<le> r)
   \<and> (\<exists>r. whc3_search [97, 98, 99] 3 [97, 98, 99, 97, 98, 99] 6 = Some r \<and> 0 \<le> r)"
proof -
  let ?x = "[97, 98, 99 :: byte]"
  let ?y = "[97, 98, 99, 97, 98, 99 :: byte]"
  have q: "(2 :: int) < int (Q hc3)" "(2 :: int) < int (Q whc3)"
    by (simp_all add: params_simps params_simps_plain)
  have l1: "3 = int (length ?x)" and l2: "6 = int (length ?y)" by simp_all
  have l3: "int (Q hc3) \<le> 3" and l4: "int (Q whc3) \<le> 3"
    by (simp_all add: params_simps params_simps_plain)
  have l5: "(6 :: int) + 3 < 2 ^ 31" by simp
  have l: "3 = int (length ?x) \<and> 6 = int (length ?y) \<and> (6 :: int) + 3 < 2 ^ 31 \<and> int (Q hc3) \<le> 3"
    "3 = int (length ?x) \<and> 6 = int (length ?y) \<and> (6 :: int) + 3 < 2 ^ 31 \<and> int (Q whc3) \<le> 3"
    by (intro conjI l1 l2 l3 l4 l5)+
  note t = short_pattern_sentinel [of "[97, 98]" 2 "[97, 98, 97, 98]" 4]
  have s1: "hc3_search [97, 98] 2 [97, 98, 97, 98] 4 = Some (- 1)"
    by (rule iffD2 [OF conjunct1 [OF t] q(1)])
  have s2: "whc3_search [97, 98] 2 [97, 98, 97, 98] 4 = Some (- 1)"
    by (rule iffD2 [OF conjunct1 [OF conjunct2 [OF t]] q(2)])
  note u = short_pattern_sentinel [of ?x 3 ?y 6]
  note u4 = conjunct2 [OF conjunct2 [OF conjunct2 [OF conjunct2 [OF u]]]]
  have s3: "\<exists>r. hc3_search ?x 3 ?y 6 = Some r \<and> 0 \<le> r"
    by (rule mp [OF conjunct1 [OF u4] l(1)])
  have s4: "\<exists>r. whc3_search ?x 3 ?y 6 = Some r \<and> 0 \<le> r"
    by (rule mp [OF conjunct2 [OF u4] l(2)])
  show ?thesis by (intro conjI q s1 s2 l1 l2 l5 l3 l4 s3 s4)
qed

subsection \<open>The failure table\<close>

text \<open>
  Claim C6, as the code has it. Let the pattern be the first \<open>m \<ge> 1\<close> bytes of the buffer
  \<open>x\<close>. Whatever the array held before, \<^verbatim>\<open>pre_kmp\<close> of \<^verbatim>\<open>lhc4.c\<close> and \<^verbatim>\<open>preKmp\<close> of
  \<^verbatim>\<open>lhc3-kmp.c\<close> return a table with \<open>KMP[0] = -1\<close> and, for every \<open>1 \<le> j \<le> m\<close>:

  \<^item> \<open>-1 \<le> KMP[j] < j\<close>, and the first \<open>KMP[j]\<close> bytes of \<open>x\<close> are the \<open>KMP[j]\<close> bytes before
    position \<open>j\<close>: the entry is a border of \<open>x[0..j)\<close>;
  \<^item> if \<open>j < m\<close> and \<open>KMP[j] \<ge> 0\<close>, then \<open>x[KMP[j]] \<noteq> x[j]\<close>;
  \<^item> every border \<open>w\<close> of \<open>x[0..j)\<close> with \<open>KMP[j] < w < j\<close> is followed by the byte \<open>x[j]\<close>,
    and \<open>j < m\<close>.

  So \<open>KMP[m]\<close> is the longest border of the pattern that is shorter than \<open>m\<close>, and for
  \<open>j < m\<close> the entry \<open>KMP[j]\<close> is the longest border of \<open>x[0..j)\<close> that is not followed by
  \<open>x[j]\<close>, or \<open>-1\<close> if there is none; these conditions leave one value for every entry.
  At \<open>j = m\<close> the code sets the entry without reading \<open>x[m]\<close>, and the byte behind the
  pattern can be the byte \<open>x[KMP[m]]\<close>.
\<close>

theorem kmp_table_correct:
  assumes "1 \<le> m" "m \<le> int (length x)" "int (length KMP0) = m + 1"
  shows "\<exists>KMP. pre_kmp x m KMP0 = Some KMP \<and> preKmp x m KMP0 = Some KMP
           \<and> rdk KMP 0 = Some (- 1)
           \<and> (\<forall>j. 1 \<le> j \<and> j \<le> m \<longrightarrow>
                 (\<exists>v. rdk KMP j = Some v \<and> - 1 \<le> v \<and> v < j
                    \<and> slice x 0 v = slice x (j - v) j
                    \<and> (0 \<le> v \<and> j < m \<longrightarrow> rd x v \<noteq> rd x j)
                    \<and> (\<forall>w. v < w \<and> w < j \<and> slice x 0 w = slice x (j - w) j
                           \<longrightarrow> j < m \<and> rd x w = rd x j)))"
proof -
  from pre_kmp_spec [OF assms(2) _ assms(3)] assms(1) obtain KMP where
    r: "pre_kmp x m KMP0 = Some KMP" and inv: "tab_inv x m KMP m"
    by auto
  have z: "rdk KMP 0 = Some (- 1)"
  proof -
    have "(0 :: int) \<le> 0 \<and> 0 \<le> m" using assms(1) by simp
    with inv obtain v where "rdk KMP 0 = Some v" "tab_ok x m 0 v"
      unfolding tab_inv_def by blast
    then show ?thesis by (simp add: tab_ok_def)
  qed
  have "\<exists>v. rdk KMP j = Some v \<and> - 1 \<le> v \<and> v < j \<and> slice x 0 v = slice x (j - v) j
              \<and> (0 \<le> v \<and> j < m \<longrightarrow> rd x v \<noteq> rd x j)
              \<and> (\<forall>w. v < w \<and> w < j \<and> slice x 0 w = slice x (j - w) j
                     \<longrightarrow> j < m \<and> rd x w = rd x j)"
    if j: "1 \<le> j \<and> j \<le> m" for j
  proof -
    have "0 \<le> j \<and> j \<le> m" using j by simp
    with inv obtain v where v: "rdk KMP j = Some v" "tab_ok x m j v"
      unfolding tab_inv_def by blast
    then have b: "- 1 \<le> v" "v < j" "border x j v"
      "0 \<le> v \<and> j < m \<longrightarrow> byte_at x v \<noteq> byte_at x j"
      and mx: "\<forall>w. v < w \<and> w < j \<and> border x j w \<longrightarrow> j < m \<and> byte_at x w = byte_at x j"
      by (simp_all add: tab_ok_def)
    have s: "slice x 0 v = slice x (j - v) j"
    proof (cases "0 \<le> v")
      case True
      with b j assms(2) show ?thesis by (simp add: border_slice [symmetric])
    next
      case False
      then show ?thesis by (simp add: slice_def)
    qed
    have d: "rd x v \<noteq> rd x j" if "0 \<le> v \<and> j < m"
      using that b j assms(2) by (simp add: rd_eq)
    have e: "j < m \<and> rd x w = rd x j" if w: "v < w \<and> w < j \<and> slice x 0 w = slice x (j - w) j"
      for w
    proof -
      have "0 \<le> w" "w \<le> j" "j \<le> int (length x)" using w b(1) j assms(2) by simp_all
      from border_slice [OF this] w have "border x j w" by simp
      with mx w have jm: "j < m" and eq: "byte_at x w = byte_at x j" by blast+
      from jm eq w b(1) j assms(2) show ?thesis by (simp add: rd_eq)
    qed
    from v(1) b(1,2) s d e show ?thesis by blast
  qed
  with r z show ?thesis by (auto simp add: preKmp_def)
qed

text \<open>
  The theorem at the pattern \<open>abab\<close>, whose table is \<open>-1, 0, -1, 0, 2\<close>: the last entry
  is 2, \<open>ab\<close> is a border of \<open>abab\<close>, and \<open>aba\<close> is none.
\<close>

theorem kmp_table_correct_witness:
  "(1 :: int) \<le> 4 \<and> 4 \<le> int (length [97, 98, 97, 98 :: byte])
   \<and> int (length (replicate (nat (4 + 1)) (None :: int option))) = 4 + 1
   \<and> pre_kmp [97, 98, 97, 98] 4 (replicate (nat (4 + 1)) None)
        = Some [Some (- 1), Some 0, Some (- 1), Some 0, Some 2]
   \<and> slice [97, 98, 97, 98 :: byte] 0 2 = slice [97, 98, 97, 98] (4 - 2) 4
   \<and> slice [97, 98, 97, 98 :: byte] 0 3 \<noteq> slice [97, 98, 97, 98] (4 - 3) 4"
proof -
  let ?x = "[97, 98, 97, 98 :: byte]"
  let ?K = "replicate (nat (4 + 1)) (None :: int option)"
  have h: "(1 :: int) \<le> 4" "4 \<le> int (length ?x)" "int (length ?K) = 4 + 1"
    by simp_all
  have e: "pre_kmp ?x 4 ?K = Some [Some (- 1), Some 0, Some (- 1), Some 0, Some 2]"
    by code_simp
  from kmp_table_correct [OF h] obtain KMP where
    k: "pre_kmp ?x 4 ?K = Some KMP"
    and a: "\<forall>j. 1 \<le> j \<and> j \<le> 4 \<longrightarrow>
                 (\<exists>v. rdk KMP j = Some v \<and> - 1 \<le> v \<and> v < j
                    \<and> slice ?x 0 v = slice ?x (j - v) j
                    \<and> (0 \<le> v \<and> j < 4 \<longrightarrow> rd ?x v \<noteq> rd ?x j)
                    \<and> (\<forall>w. v < w \<and> w < j \<and> slice ?x 0 w = slice ?x (j - w) j
                           \<longrightarrow> j < 4 \<and> rd ?x w = rd ?x j))"
    by blast
  from k e have K: "KMP = [Some (- 1), Some 0, Some (- 1), Some 0, Some 2]" by simp
  have "(1 :: int) \<le> 4 \<and> (4 :: int) \<le> 4" by simp
  with a obtain v where
    v: "rdk KMP 4 = Some v" "slice ?x 0 v = slice ?x (4 - v) 4"
      "\<forall>w. v < w \<and> w < 4 \<and> slice ?x 0 w = slice ?x (4 - w) 4 \<longrightarrow> (4 :: int) < 4 \<and> rd ?x w = rd ?x 4"
    by blast
  from v(1) have v2: "v = 2" by (simp add: K rdk_def)
  from v(2) have s2: "slice ?x 0 2 = slice ?x (4 - 2) 4" unfolding v2 .
  have s3: "slice ?x 0 3 \<noteq> slice ?x (4 - 3) 4"
  proof
    assume "slice ?x 0 3 = slice ?x (4 - 3) 4"
    then have "(2 :: int) < 3 \<and> (3 :: int) < 4 \<and> slice ?x 0 3 = slice ?x (4 - 3) 4" by simp
    with v(3) have "(4 :: int) < 4" unfolding v2 by blast
    then show False by simp
  qed
  show ?thesis by (intro conjI h e s2 s3)
qed

text \<open>
  The claim at \<open>j = m\<close>: for the pattern \<open>aa\<close> in the buffer \<open>aaa\<close> the table is
  \<open>-1, -1, 1\<close>, so \<open>KMP[2] = 1 \<ge> 0\<close>, and \<open>x[1]\<close> and \<open>x[2]\<close> are the same byte.
\<close>

theorem kmp_entry_at_m_counterexample:
  "(1 :: int) \<le> 2 \<and> 2 \<le> int (length [97, 97, 97 :: byte])
   \<and> pre_kmp [97, 97, 97] 2 (replicate (nat (2 + 1)) None)
        = Some [Some (- 1), Some (- 1), Some 1]
   \<and> rdk [Some (- 1), Some (- 1), Some 1] 2 = Some 1 \<and> (0 :: int) \<le> 1
   \<and> rd [97, 97, 97] 1 = rd [97, 97, 97] 2"
  by code_simp

subsection \<open>The reads of the verification with the failure table\<close>

text \<open>
  Claim C7. In the model a read outside a buffer is \<open>None\<close>, and \<open>None\<close> is the result of
  every computation that contains it: the comparison loop
  \<^verbatim>\<open>while (pattern_pos < m && x[pattern_pos] == y[next_verify_pos])\<close> has a result
  only if, whenever \<open>pattern_pos < m\<close>, the index \<open>next_verify_pos\<close> is in \<open>[0, n)\<close>.
  For a pattern of length \<open>m \<ge> Q\<close> and a text of length \<open>n\<close> with \<open>n + m < 2^31\<close>, where
  no position overflows the C \<^verbatim>\<open>int\<close>, \<^verbatim>\<open>search\<close> of \<^verbatim>\<open>lhc4.c\<close> and of
  \<^verbatim>\<open>lhc3-kmp.c\<close> have a result, so no read of the verification loop, nor any other, is
  out of range.
\<close>

theorem kmp_verification_reads_in_range:
  assumes "m = int (length x)" "n = int (length y)"
  shows "(\<forall>pp nv r. pp < m \<and> match_run x m y pp nv = Some r \<longrightarrow> 0 \<le> nv \<and> nv < n)
       \<and> (int (Q lhc4) \<le> m \<and> n + m < 2 ^ 31 \<longrightarrow> (\<exists>r. lhc4_search x m y n = Some r))
       \<and> (int (Q lhc3) \<le> m \<and> n + m < 2 ^ 31 \<longrightarrow> (\<exists>r. lhc3_search x m y n = Some r))"
proof -
  have a: "0 \<le> nv \<and> nv < n" if h: "pp < m \<and> match_run x m y pp nv = Some r" for pp nv r
  proof (rule ccontr)
    assume "\<not> (0 \<le> nv \<and> nv < n)"
    then have "rd y nv = None" using assms(2) by (simp add: rd_def)
    with h have "match_run x m y pp nv = None"
      by (subst match_run.simps) (simp split: Option.bind_splits)
    with h show False by simp
  qed
  have b: "\<exists>r. lhc4_search x m y n = Some r" if "int (Q lhc4) \<le> m"
    using lhc4_search_run [OF assms that] by blast
  have c: "\<exists>r. lhc3_search x m y n = Some r" if "int (Q lhc3) \<le> m"
    using lhc3_search_run [OF assms that] by blast
  from a b c show ?thesis by blast
qed

text \<open>
  The theorem at the pattern \<open>abab\<close> and the text \<open>abababab\<close>, where the verification
  resumes inside the pattern: both searches return 3, and the comparison loop started at
  \<open>pattern_pos = 2\<close>, \<open>next_verify_pos = 6\<close> reads \<open>y[6]\<close> and \<open>y[7]\<close>.
\<close>

theorem kmp_verification_reads_in_range_witness:
  "4 = int (length [97, 98, 97, 98 :: byte])
   \<and> 8 = int (length [97, 98, 97, 98, 97, 98, 97, 98 :: byte])
   \<and> int (Q lhc4) \<le> 4 \<and> int (Q lhc3) \<le> 4 \<and> (8 :: int) + 4 < 2 ^ 31
   \<and> match_run [97, 98, 97, 98] 4 [97, 98, 97, 98, 97, 98, 97, 98] 2 6 = Some (4, 8)
   \<and> (0 :: int) \<le> 6 \<and> (6 :: int) < 8
   \<and> lhc4_search [97, 98, 97, 98] 4 [97, 98, 97, 98, 97, 98, 97, 98] 8 = Some 3
   \<and> lhc3_search [97, 98, 97, 98] 4 [97, 98, 97, 98, 97, 98, 97, 98] 8 = Some 3"
proof -
  let ?x = "[97, 98, 97, 98 :: byte]"
  let ?y = "[97, 98, 97, 98, 97, 98, 97, 98 :: byte]"
  have l: "4 = int (length ?x)" "8 = int (length ?y)" by simp_all
  have q: "int (Q lhc4) \<le> 4" "int (Q lhc3) \<le> 4" "(8 :: int) + 4 < 2 ^ 31"
    by (simp_all add: params_simps_plain)
  have e0: "match_run ?x 4 ?y 2 6 = Some (4, 8)" by code_simp
  have e1: "lhc4_search ?x 4 ?y 8 = Some 3" by code_simp
  have e2: "lhc3_search ?x 4 ?y 8 = Some 3" by code_simp
  note t = kmp_verification_reads_in_range [OF l]
  have "(2 :: int) < 4 \<and> match_run ?x 4 ?y 2 6 = Some (4, 8)" using e0 by simp
  with t have r: "(0 :: int) \<le> 6 \<and> (6 :: int) < 8" by blast
  from t q obtain r1 r2 where "lhc4_search ?x 4 ?y 8 = Some r1" "lhc3_search ?x 4 ?y 8 = Some r2"
    by blast
  with l q e0 e1 e2 r show ?thesis by blast
qed

subsection \<open>Reads before the pattern in the unguarded chain construction\<close>

text \<open>
  Claim C8 fails in \<^verbatim>\<open>hc4-qverify.c\<close> and \<^verbatim>\<open>experiments/shc2-1.c\<close>. Their chain
  loop starts \<open>Q\<close> chains whatever \<open>m\<close> is, so for \<open>m < 2Q - 1\<close> the first chain
  evaluates \<^verbatim>\<open>CHAIN_HASH(x, m - Q)\<close> with \<open>m - Q < Q - 1\<close> and reads before \<open>x[0]\<close>:
  for the four-byte pattern \<open>aaaa\<close> in \<^verbatim>\<open>hc4-qverify.c\<close> the hash at position 0 reads
  \<open>x[-1], x[-2], x[-3]\<close>, and for the two-byte pattern \<open>aa\<close> in \<^verbatim>\<open>shc2-1.c\<close> it reads
  \<open>x[-1]\<close>. \<^verbatim>\<open>lhc4.c\<close> bounds the number of chains and stays inside the pattern
  (\<open>guarded_preprocessing_spec\<close> above).
\<close>

theorem unguarded_chain_reads_before_pattern:
  "rd [97, 97, 97, 97] (0 - 1) = None
   \<and> CHAIN_HASH hc4qv [97, 97, 97, 97] (4 - int (Q hc4qv)) = None
   \<and> hc4qv_preprocessing [97, 97, 97, 97] 4 = None
   \<and> CHAIN_HASH shc2 [97, 97] (2 - int (Q shc2)) = None
   \<and> shc2_preprocessing [97, 97] 2 = None"
  by code_simp

subsection \<open>The writes of \<^verbatim>\<open>search\<close> in \<^verbatim>\<open>thc2-1.c\<close>\<close>

text \<open>
  Claim C9, as the code has it. The only write to a buffer in the sources is
  \<^verbatim>\<open>y[n + i] = x[i]\<close> in \<^verbatim>\<open>search\<close> of \<^verbatim>\<open>thc2-1.c\<close>, and it comes after the test
  \<^verbatim>\<open>if (m < Q) return -1;\<close>. For a pattern of length \<open>m\<close> and a text buffer with room
  for \<open>n + m\<close> bytes:

  \<^item> if \<open>m < Q\<close> the call returns \<open>-1\<close> and the buffer is as it was, tail included;
  \<^item> if \<open>m \<ge> Q\<close> and \<open>n + 2m < 2^31\<close>, where neither the index \<open>n + i\<close> of the copy nor
    \<^verbatim>\<open>pos += MQ1\<close> behind the text overflows the C \<^verbatim>\<open>int\<close>, the call returns a count
    \<open>\<ge> 0\<close> and a buffer of the same length with \<open>y[0..n)\<close> unchanged, \<open>y[n + i] = x[i]\<close>
    for \<open>0 \<le> i < m\<close>, and the bytes from \<open>n + m\<close> on unchanged.

  The pattern is an argument that no function of the model returns: \<^verbatim>\<open>thc2-1.c\<close> has
  no assignment to \<open>x\<close>. The other files have no assignment to \<open>x\<close> or to \<open>y\<close> at all,
  so their \<^verbatim>\<open>search\<close> is a function from the two buffers to the count, with no buffer
  in its result of which a theorem could say that it is unchanged: that they leave
  \<open>x\<close> and \<open>y\<close> as they were is a property of the text of the sources (no statement
  of the form \<^verbatim>\<open>x[...] = ...\<close> or \<^verbatim>\<open>y[...] = ...\<close>, no call that is given a buffer to
  write to), which the types of \<open>hc3_search\<close>, \<open>hc4qv_search\<close>, \<open>whc3_search\<close>,
  \<open>lhc4_search\<close> and \<open>lhc3_search\<close> record, and it is not what the theorem below proves.
\<close>

theorem sentinel_copy_frame:
  assumes "m = int (length x)" "0 \<le> n" "n + m \<le> int (length y)"
  shows "(m < int (Q thc2) \<longrightarrow> thc2_search x m y n = Some (- 1, y))
       \<and> (int (Q thc2) \<le> m \<and> n + 2 * m < 2 ^ 31 \<longrightarrow>
            (\<exists>cnt y'. thc2_search x m y n = Some (cnt, y') \<and> 0 \<le> cnt
               \<and> length y' = length y
               \<and> take (nat n) y' = take (nat n) y
               \<and> (\<forall>i. 0 \<le> i \<and> i < m \<longrightarrow> y' ! nat (n + i) = x ! nat i)
               \<and> drop (nat (n + m)) y' = drop (nat (n + m)) y))"
proof -
  have a: "thc2_search x m y n = Some (- 1, y)" if "m < int (Q thc2)"
    using that by (simp add: thc2_search_def)
  have b: "\<exists>cnt y'. thc2_search x m y n = Some (cnt, y') \<and> 0 \<le> cnt
               \<and> length y' = length y
               \<and> take (nat n) y' = take (nat n) y
               \<and> (\<forall>i. 0 \<le> i \<and> i < m \<longrightarrow> y' ! nat (n + i) = x ! nat i)
               \<and> drop (nat (n + m)) y' = drop (nat (n + m)) y"
    if q: "int (Q thc2) \<le> m"
  proof -
    let ?y = "take (nat n) y @ x @ drop (nat (n + m)) y"
    from thc2_search_run [OF assms q] obtain cnt where
      r: "thc2_search x m y n = Some (cnt, ?y)" "0 \<le> cnt"
      by blast
    have nm: "nat (n + m) = nat n + length x" using assms(1,2) by (simp add: nat_add_distrib)
    have le: "nat n + length x \<le> length y" using assms by linarith
    have ln: "length (take (nat n) y) = nat n" using le by simp
    have l: "length ?y = length y" using le by (simp add: nm)
    have t: "take (nat n) ?y = take (nat n) y" using ln by simp
    have d: "drop (nat (n + m)) ?y = drop (nat (n + m)) y"
      unfolding nm using ln by simp
    have c: "?y ! nat (n + i) = x ! nat i" if i: "0 \<le> i \<and> i < m" for i
    proof -
      have "nat (n + i) = nat n + nat i" using i assms(2) by (simp add: nat_add_distrib)
      moreover have "nat i < length x" using i assms(1) by linarith
      ultimately show ?thesis using ln by (simp add: nth_append)
    qed
    from r l t c d show ?thesis by blast
  qed
  from a b show ?thesis by blast
qed

text \<open>
  The theorem at the pattern \<open>ab\<close> and the text \<open>abab\<close> in a buffer with two more
  bytes: the call returns 2 and leaves \<open>ababab\<close>; and at the pattern \<open>a\<close>.
\<close>

theorem sentinel_copy_frame_witness:
  "2 = int (length [97, 98 :: byte]) \<and> (0 :: int) \<le> 4
   \<and> 4 + 2 \<le> int (length [97, 98, 97, 98, 0, 0 :: byte]) \<and> int (Q thc2) \<le> 2
   \<and> (4 :: int) + 2 * 2 < 2 ^ 31
   \<and> thc2_search [97, 98] 2 [97, 98, 97, 98, 0, 0] 4 = Some (2, [97, 98, 97, 98, 97, 98])
   \<and> 1 = int (length [97 :: byte]) \<and> (0 :: int) \<le> 1
   \<and> 1 + 1 \<le> int (length [98, 99 :: byte]) \<and> 1 < int (Q thc2)
   \<and> thc2_search [97] 1 [98, 99] 1 = Some (- 1, [98, 99])"
proof -
  let ?x = "[97, 98 :: byte]"
  let ?y = "[97, 98, 97, 98, 0, 0 :: byte]"
  have h: "2 = int (length ?x)" "(0 :: int) \<le> 4" "4 + 2 \<le> int (length ?y)" by simp_all
  have q: "int (Q thc2) \<le> 2" by (simp add: params_simps_plain)
  have bd: "(4 :: int) + 2 * 2 < 2 ^ 31" by simp
  have qb: "int (Q thc2) \<le> 2 \<and> (4 :: int) + 2 * 2 < 2 ^ 31" by (intro conjI q bd)
  have e: "thc2_search ?x 2 ?y 4 = Some (2, [97, 98, 97, 98, 97, 98])" by code_simp
  from mp [OF conjunct2 [OF sentinel_copy_frame [OF h]] qb] obtain cnt y' where
    "thc2_search ?x 2 ?y 4 = Some (cnt, y')" "0 \<le> cnt"
    by blast
  have h': "1 = int (length [97 :: byte])" "(0 :: int) \<le> 1"
    "1 + 1 \<le> int (length [98, 99 :: byte])" by simp_all
  have q': "1 < int (Q thc2)" by (simp add: params_simps_plain)
  have e': "thc2_search [97] 1 [98, 99] 1 = Some (- 1, [98, 99])"
    by (rule mp [OF conjunct1 [OF sentinel_copy_frame [OF h']] q'])
  show ?thesis by (intro conjI h q bd e h' q' e')
qed

text \<open>
  With \<open>m < Q\<close> the pattern is not copied: for the pattern \<open>a\<close> and the text \<open>b\<close> in
  the buffer \<open>bc\<close>, the call returns \<open>-1\<close> and \<open>y[n + 0]\<close> is still \<open>c\<close>, not \<open>x[0]\<close>.
\<close>

theorem short_pattern_not_copied_counterexample:
  "thc2_search [97] 1 [98, 99] 1 = Some (- 1, [98, 99])
   \<and> (0 :: int) \<le> 0 \<and> (0 :: int) < 1
   \<and> [98, 99 :: byte] ! nat (1 + 0) \<noteq> [97] ! nat 0"
  by code_simp

subsection \<open>The fill of the leading q-grams never leaves an empty word\<close>

text \<open>
  Claim C10, as the code has it. For every 32-bit \<open>F\<close> the fingerprint of the inverted
  hash is non-zero and differs from the fingerprint of \<open>F\<close>, and so does the fingerprint
  of \<open>F ^ 0xFF\<close>. After preprocessing a pattern of length \<open>m \<ge> Q\<close>, for every leading
  q-gram position \<open>p\<close> in \<open>[Q-1, min(m, 2Q-1))\<close> the table word that the fill addresses
  is non-zero. The fill of \<^verbatim>\<open>hc3.c\<close> and \<^verbatim>\<open>hc6.c\<close> addresses the word by
  \<^verbatim>\<open>ANCHOR_HASH(x, p)\<close> (shift \<open>S1\<close>), not by the chain hash (shift \<open>S3\<close>).
\<close>

theorem leading_fill_nonzero:
  "(\<forall>F. LINK_HASH (NOT F) \<noteq> 0 \<and> LINK_HASH (NOT F) \<noteq> LINK_HASH F
        \<and> LINK_HASH (F XOR 0xFF) \<noteq> LINK_HASH F)
   \<and> (m = int (length x) \<and> int (Q hc3) \<le> m \<longrightarrow>
        (\<exists>B Hm. hc3_preprocessing x m = Some (B, Hm)
           \<and> (\<forall>p. END_FIRST_QGRAM hc3 \<le> p \<and> p < min m (END_SECOND_QGRAM hc3) \<longrightarrow>
                 (\<exists>F. ANCHOR_HASH hc3 x p = Some F \<and> B ! slot hc3 F \<noteq> 0))))
   \<and> (m = int (length x) \<and> int (Q hc6) \<le> m \<longrightarrow>
        (\<exists>B Hm. hc6_preprocessing x m = Some (B, Hm)
           \<and> (\<forall>p. END_FIRST_QGRAM hc6 \<le> p \<and> p < min m (END_SECOND_QGRAM hc6) \<longrightarrow>
                 (\<exists>F. ANCHOR_HASH hc6 x p = Some F \<and> B ! slot hc6 F \<noteq> 0))))"
proof (intro conjI allI impI)
  fix F :: u32
  show "LINK_HASH (NOT F) \<noteq> 0" by (rule LINK_HASH_nonzero)
  show "LINK_HASH (NOT F) \<noteq> LINK_HASH F" by (rule LINK_HASH_NOT_neq)
  show "LINK_HASH (F XOR 0xFF) \<noteq> LINK_HASH F" by (rule LINK_HASH_XOR_neq)
next
  assume h: "m = int (length x) \<and> int (Q hc3) \<le> m"
  have q: "0 < Q hc3" by (simp add: params_simps)
  from rolling_preprocessing_spec [where c=hc3 and m=m and x=x] q h obtain B Hm where
    r: "hc3_preprocessing x m = Some (B, Hm)"
    and nz: "\<forall>p. END_FIRST_QGRAM hc3 \<le> p \<and> p < min m (END_SECOND_QGRAM hc3)
                 \<longrightarrow> B ! slot hc3 (anv hc3 x p) \<noteq> 0"
    unfolding hc3_preprocessing_def by blast
  have "\<exists>F. ANCHOR_HASH hc3 x p = Some F \<and> B ! slot hc3 F \<noteq> 0"
    if "END_FIRST_QGRAM hc3 \<le> p \<and> p < min m (END_SECOND_QGRAM hc3)" for p
    using that nz h by (simp add: ANCHOR_HASH_eq)
  with r show "\<exists>B Hm. hc3_preprocessing x m = Some (B, Hm)
           \<and> (\<forall>p. END_FIRST_QGRAM hc3 \<le> p \<and> p < min m (END_SECOND_QGRAM hc3) \<longrightarrow>
                 (\<exists>F. ANCHOR_HASH hc3 x p = Some F \<and> B ! slot hc3 F \<noteq> 0))" by blast
next
  assume h: "m = int (length x) \<and> int (Q hc6) \<le> m"
  from hc6_preprocessing_spec [where m=m and x=x] h obtain B Hm where
    r: "hc6_preprocessing x m = Some (B, Hm)"
    and nz: "\<forall>p. END_FIRST_QGRAM hc6 \<le> p \<and> p < min m (END_SECOND_QGRAM hc6)
                 \<longrightarrow> B ! slot hc6 (anv hc6 x p) \<noteq> 0"
    by blast
  have "\<exists>F. ANCHOR_HASH hc6 x p = Some F \<and> B ! slot hc6 F \<noteq> 0"
    if "END_FIRST_QGRAM hc6 \<le> p \<and> p < min m (END_SECOND_QGRAM hc6)" for p
    using that nz h by (simp add: ANCHOR_HASH_eq)
  with r show "\<exists>B Hm. hc6_preprocessing x m = Some (B, Hm)
           \<and> (\<forall>p. END_FIRST_QGRAM hc6 \<le> p \<and> p < min m (END_SECOND_QGRAM hc6) \<longrightarrow>
                 (\<exists>F. ANCHOR_HASH hc6 x p = Some F \<and> B ! slot hc6 F \<noteq> 0))" by blast
qed

text \<open>The theorem at the six bytes \<open>1, ..., 6\<close>, the shortest pattern of \<^verbatim>\<open>hc6.c\<close>.\<close>

theorem leading_fill_nonzero_witness:
  "6 = int (length [1, 2, 3, 4, 5, 6 :: byte]) \<and> int (Q hc3) \<le> 6 \<and> int (Q hc6) \<le> 6
   \<and> (\<exists>B Hm F. hc3_preprocessing [1, 2, 3, 4, 5, 6] 6 = Some (B, Hm)
         \<and> ANCHOR_HASH hc3 [1, 2, 3, 4, 5, 6] 2 = Some F \<and> B ! slot hc3 F \<noteq> 0)
   \<and> (\<exists>B Hm F. hc6_preprocessing [1, 2, 3, 4, 5, 6] 6 = Some (B, Hm)
         \<and> ANCHOR_HASH hc6 [1, 2, 3, 4, 5, 6] 5 = Some F \<and> B ! slot hc6 F \<noteq> 0)"
proof -
  have h: "6 = int (length [1, 2, 3, 4, 5, 6 :: byte]) \<and> int (Q hc3) \<le> 6 \<and> int (Q hc6) \<le> 6"
    by (simp add: params_simps)
  have a: "END_FIRST_QGRAM hc3 \<le> 2 \<and> 2 < min 6 (END_SECOND_QGRAM hc3)"
    by (simp add: END_FIRST_QGRAM_def END_SECOND_QGRAM_def Q2_def params_simps)
  have b: "END_FIRST_QGRAM hc6 \<le> 5 \<and> 5 < min 6 (END_SECOND_QGRAM hc6)"
    by (simp add: END_FIRST_QGRAM_def END_SECOND_QGRAM_def Q2_def params_simps)
  from h a b leading_fill_nonzero [of 6 "[1, 2, 3, 4, 5, 6]"] show ?thesis by blast
qed

text \<open>
  With the chain hash in place of the anchor hash the claim fails: after preprocessing
  the pattern \<open>abc\<close> in \<^verbatim>\<open>hc3.c\<close>, the only non-zero word is at index 1073, the anchor
  hash of the pattern, and the word at its chain hash 689 is zero.
\<close>

theorem leading_fill_chain_hash_counterexample:
  "hc3_preprocessing [97, 98, 99] 3 = Some ((replicate 2048 0)[1073 := 16384], 7217)
   \<and> ANCHOR_HASH hc3 [97, 98, 99] 2 = Some 7217 \<and> slot hc3 7217 = 1073
   \<and> CHAIN_HASH hc3 [97, 98, 99] 2 = Some 689 \<and> slot hc3 689 = 689
   \<and> ((replicate 2048 0)[1073 := 16384]) ! 689 = (0 :: u32)"
  by code_simp

end
